(* ===== verification/Go_Prelude.thy ===== *)
theory Go_Prelude
  imports Main "HOL-Library.Word" "HOL-Library.Monad_Syntax"
begin

text \<open>
  What the components share: the machine types of the Go source, its checked reads, writes and
  go_slice expressions (a panic is \<open>None\<close>), the wrap-around of Go's 64-bit \<open>int\<close>, the error values,
  and the list lemmas the component proofs rest on. The collection \<open>go_simps\<close> holds the facts
  that unfold checked accesses inside their range.
\<close>

named_theorems go_simps \<open>checked accesses evaluated inside their range\<close>

unbundle bit_operations_syntax

section \<open>Machine types\<close>

type_synonym byte = "8 word"
type_synonym u32 = "32 word"
type_synonym u64 = "64 word"

text \<open>Go's \<open>int32\<close>, the element type of the boundary buffers; \<open>sint\<close> reads it.\<close>

type_synonym i32 = "32 word"

text \<open>An array \<open>[256]T\<close> that the code only indexes by a byte: every index is in range.\<close>

type_synonym 'a byte_table = "byte \<Rightarrow> 'a"

text \<open>The errors: the sentinel of rollinghash.go, the end of a stream, its end in the middle of a value
  (\<open>io.ErrUnexpectedEOF\<close>), the error of \<open>DerivePolynomial\<close>, and any other error a reader or writer
  returns (numbered).\<close>

datatype gerror = ErrClosed | EOF | ErrUnexpectedEOF | ErrNoPolynomial | OtherErr nat

text \<open>Go's \<open>int\<close> is a signed 64-bit integer. The models use the unbounded \<open>int\<close> and apply
  \<open>wrap_int\<close> where an operand that the caller chooses can push a sum out of range.\<close>

definition MaxInt :: int where
  "MaxInt = 2 ^ 63 - 1"

definition wrap_int :: "int \<Rightarrow> int" where
  "wrap_int x = (x + 2 ^ 63) mod 2 ^ 64 - 2 ^ 63"

lemma wrap_int_id: "- (2 ^ 63) \<le> x \<Longrightarrow> x \<le> MaxInt \<Longrightarrow> wrap_int x = x"
  by (simp add: wrap_int_def MaxInt_def)

section \<open>Checked reads, writes and slices\<close>

definition idx :: "'a list \<Rightarrow> nat \<Rightarrow> 'a option" where
  "idx xs i = (if i < length xs then Some (xs ! i) else None)"

definition upd :: "'a list \<Rightarrow> nat \<Rightarrow> 'a \<Rightarrow> 'a list option" where
  "upd xs i v = (if i < length xs then Some (xs[i := v]) else None)"

text \<open>The slice expression \<open>xs[lo:hi]\<close>. Go lets \<open>hi\<close> exceed the length up to the capacity; the
  model panics there already, so a result \<open>Some\<close> never shows a byte beyond the length.\<close>

definition go_slice :: "'a list \<Rightarrow> int \<Rightarrow> int \<Rightarrow> 'a list option" where
  "go_slice xs lo hi =
     (if 0 \<le> lo \<and> lo \<le> hi \<and> hi \<le> int (length xs)
      then Some (take (nat (hi - lo)) (drop (nat lo) xs)) else None)"

lemma idx_in [go_simps]: "i < length xs \<Longrightarrow> idx xs i = Some (xs ! i)"
  by (simp add: idx_def)

lemma upd_in [go_simps]: "i < length xs \<Longrightarrow> upd xs i v = Some (xs[i := v])"
  by (simp add: upd_def)

lemma idx_None_iff: "idx xs i = None \<longleftrightarrow> length xs \<le> i"
  by (simp add: idx_def)

lemma go_slice_in [go_simps]:
  "0 \<le> lo \<Longrightarrow> lo \<le> hi \<Longrightarrow> hi \<le> int (length xs) \<Longrightarrow>
   go_slice xs lo hi = Some (take (nat (hi - lo)) (drop (nat lo) xs))"
  by (simp add: go_slice_def)

lemma go_slice_nat:
  "i \<le> j \<Longrightarrow> j \<le> length xs \<Longrightarrow>
   go_slice xs (int i) (int j) = Some (take (j - i) (drop i xs))"
  by (simp add: go_slice_def nat_diff_distrib')

section \<open>Windows of a list\<close>

text \<open>The \<open>w\<close> bytes of \<open>xs\<close> that start at position \<open>i\<close>: the argument of every checksum.\<close>

definition window_at :: "nat \<Rightarrow> 'a list \<Rightarrow> nat \<Rightarrow> 'a list" where
  "window_at w xs i = take w (drop i xs)"

lemma length_window_at: "i + w \<le> length xs \<Longrightarrow> length (window_at w xs i) = w"
  by (simp add: window_at_def)

lemma window_at_0: "window_at w xs 0 = take w xs"
  by (simp add: window_at_def)

text \<open>Sliding the window by one: the byte at \<open>i\<close> leaves, the byte at \<open>i + w\<close> enters.\<close>

lemma window_at_slide:
  assumes "i + w < length xs" and "0 < w"
  shows "\<exists>ys. window_at w xs i = xs ! i # ys \<and> window_at w xs (Suc i) = ys @ [xs ! (i + w)]"
proof -
  obtain k where w: "w = Suc k" using assms(2) by (cases w) auto
  have "window_at w xs i = xs ! i # take k (drop (Suc i) xs)"
    using assms by (simp add: window_at_def w Cons_nth_drop_Suc [symmetric])
  moreover have "window_at w xs (Suc i) = take k (drop (Suc i) xs) @ [xs ! (i + w)]"
    using assms by (simp add: window_at_def w take_Suc_conv_app_nth)
  ultimately show ?thesis by blast
qed

lemma window_at_append:
  "i + w \<le> length xs \<Longrightarrow> window_at w (xs @ ys) i = window_at w xs i"
  by (simp add: window_at_def)

lemma window_at_take:
  "i + w \<le> n \<Longrightarrow> window_at w (take n xs) i = window_at w xs i"
  by (simp add: window_at_def drop_take min_def)

lemma window_at_drop:
  "window_at w (drop k xs) i = window_at w xs (k + i)"
  by (simp add: window_at_def add.commute)

section \<open>Filtered index ranges\<close>

lemma filter_upt_step:
  "i < j \<Longrightarrow> filter P [i..<j] = filter P [i] @ filter P [Suc i..<j]"
  by (simp add: upt_conv_Cons)

lemma filter_upt_join:
  "i \<le> j \<Longrightarrow> j \<le> k \<Longrightarrow> filter P [i..<j] @ filter P [j..<k] = filter P [i..<k]"
  by (metis filter_append le_Suc_ex upt_add_eq_append)

lemma filter_upt_below:
  assumes "\<And>i. P i \<longleftrightarrow> i < m \<and> Q i" and "m \<le> n"
  shows "filter P [0..<n] = filter Q [0..<m]"
proof -
  have "filter P [m..<n] = []" using assms(1) by (simp add: filter_empty_conv)
  moreover have "filter P [0..<m] = filter Q [0..<m]"
    by (rule filter_cong) (use assms(1) in auto)
  ultimately show ?thesis
    using filter_upt_join [OF le0 assms(2), of P] by simp
qed

lemma map_filter_shift:
  "map (\<lambda>i. b + i + 1) (filter (\<lambda>i. P (b + i + 1)) [0..<m]) = filter P [Suc b..<Suc (b + m)]"
proof -
  have "filter P [Suc b..<Suc (b + m)] = filter P (map (\<lambda>i. b + i + 1) [0..<m])"
    using map_add_upt [of "Suc b" m] by (simp add: add.commute)
  then show ?thesis by (simp add: filter_map comp_def)
qed

lemma idx_part:
  "k < m \<Longrightarrow> lo + m \<le> length xs \<Longrightarrow> idx (take m (drop lo xs)) k = idx xs (lo + k)"
  by (simp add: idx_def)

lemma nat_eq_diff: "n + w = (m :: nat) \<Longrightarrow> m - w = n"
  by simp

lemma ucast_u32_eq [simp]: "(ucast (x :: u32) :: u64) = ucast y \<longleftrightarrow> x = y"
proof
  assume "(ucast x :: u64) = ucast y"
  then have "(ucast (ucast x :: u64) :: u32) = ucast (ucast y :: u64)" by (rule arg_cong)
  moreover have "(ucast (ucast z :: u64) :: u32) = z" for z :: u32
    by (rule bit_word_eqI) (simp add: bit_simps)
  ultimately show "x = y" by simp
qed simp

end
