(* ===== verification/Go_Window.thy ===== *)
theory Go_Window
  imports Go_Prelude
begin

text \<open>
  internal/window/window.go: the circular buffer every digest keeps its window in. A buffer is a
  byte list with the index of its oldest byte; \<open>contents\<close> is the window it stands for, oldest
  byte first. \<open>MoveLeft\<close> rotates the buffer in place by the reversal trick, \<open>window_Write\<close> hands
  it to an \<open>io.Writer\<close>, and \<open>circ_push\<close> is the replacement of the oldest byte that the
  \<open>Roll\<close> methods make.
\<close>

section \<open>reverse and MoveLeft\<close>

text \<open>The swapping loop of \<open>reverse\<close>, from index \<open>i\<close> to the middle.\<close>

function reverse_from :: "nat \<Rightarrow> 'a list \<Rightarrow> 'a list" where
  "reverse_from i w =
     (if i < length w div 2
      then let j = length w - i - 1 in reverse_from (Suc i) (w[i := w ! j, j := w ! i])
      else w)"
  by pat_completeness auto
termination
  by (relation "measure (\<lambda>(i, w). length w div 2 - i)") (auto simp: Let_def)

declare reverse_from.simps [simp del]

definition reverse :: "'a list \<Rightarrow> 'a list" where
  "reverse w = reverse_from 0 w"

text \<open>\<open>window[:oldest]\<close> and \<open>window[oldest:]\<close> share the array, so reversing them in place
  rewrites the two parts of the window.\<close>

definition MoveLeft :: "'a list \<Rightarrow> nat \<Rightarrow> 'a list option" where
  "MoveLeft window oldest = do {
     front \<leftarrow> go_slice window 0 (int oldest);
     back \<leftarrow> go_slice window (int oldest) (int (length window));
     Some (reverse (reverse front @ reverse back))
   }"

text \<open>The loop swaps the outer pairs and leaves the middle for the rest of the loop.\<close>

lemma length_reverse_from [simp]: "length (reverse_from i w) = length w"
  by (induction i w rule: reverse_from.induct) (subst reverse_from.simps, simp add: Let_def)

lemma reverse_from_nth:
  "k < length w \<Longrightarrow>
   reverse_from i w ! k =
     (if i \<le> k \<and> k < length w - i then w ! (length w - 1 - k) else w ! k)"
proof (induction i w rule: reverse_from.induct)
  case (1 i w)
  show ?case
  proof (cases "i < length w div 2")
    case True
    define w' where "w' = w[i := w ! (length w - i - 1), length w - i - 1 := w ! i]"
    have len: "length w' = length w" by (simp add: w'_def)
    have nth: "w' ! m = (if m = i \<or> m = length w - i - 1 then w ! (length w - 1 - m) else w ! m)"
      if "m < length w" for m
      using that True by (auto simp: w'_def nth_list_update)
    have "reverse_from i w ! k = reverse_from (Suc i) w' ! k"
      using True by (subst reverse_from.simps) (simp add: Let_def w'_def)
    also have "\<dots> = (if Suc i \<le> k \<and> k < length w - Suc i then w' ! (length w - 1 - k) else w' ! k)"
      using "1.IH" [OF True refl] "1.prems" len by (simp add: w'_def)
    also have "\<dots> = (if i \<le> k \<and> k < length w - i then w ! (length w - 1 - k) else w ! k)"
    proof (cases "k = i \<or> k = length w - i - 1")
      case outer: True
      then have "\<not> (Suc i \<le> k \<and> k < length w - Suc i)" and "i \<le> k \<and> k < length w - i"
        using True by linarith+
      then show ?thesis using nth [OF "1.prems"] outer by (simp del: de_Morgan_conj)
    next
      case inner: False
      then have "(Suc i \<le> k \<and> k < length w - Suc i) = (i \<le> k \<and> k < length w - i)"
        by linarith
      moreover have "w' ! (length w - 1 - k) = w ! (length w - 1 - k)"
        if "i \<le> k" and "k < length w - i"
      proof -
        have "length w - 1 - k \<noteq> i" and "length w - 1 - k \<noteq> length w - i - 1"
          using inner that "1.prems" by linarith+
        then show ?thesis using nth [of "length w - 1 - k"] "1.prems" by simp
      qed
      ultimately show ?thesis using nth [OF "1.prems"] inner by simp
    qed
    finally show ?thesis .
  next
    case False
    then show ?thesis
      using "1.prems" by (subst reverse_from.simps) (auto intro!: arg_cong [where f = "(!) w"])
  qed
qed

lemma reverse_rev [simp]: "reverse w = rev w"
  by (rule nth_equalityI) (auto simp: reverse_def reverse_from_nth rev_nth)

section \<open>The window a circular buffer stands for\<close>

definition contents :: "'a list \<Rightarrow> nat \<Rightarrow> 'a list" where
  "contents w oldest = drop oldest w @ take oldest w"

text \<open>The index of the oldest byte is inside the buffer, or the buffer is empty.\<close>

definition circ_ok :: "'a list \<Rightarrow> nat \<Rightarrow> bool" where
  "circ_ok w oldest \<longleftrightarrow> oldest < length w \<or> (w = [] \<and> oldest = 0)"

lemma circ_ok_0 [simp]: "circ_ok w 0"
  by (auto simp: circ_ok_def)

lemma circ_ok_le: "circ_ok w oldest \<Longrightarrow> oldest \<le> length w"
  by (auto simp: circ_ok_def)

lemma contents_0 [simp]: "contents w 0 = w"
  by (simp add: contents_def)

lemma contents_Nil [simp]: "contents [] oldest = []"
  by (simp add: contents_def)

lemma length_contents [simp]: "length (contents w oldest) = length w"
  by (simp add: contents_def)

lemma contents_Nil_iff [simp]: "contents w oldest = [] \<longleftrightarrow> w = []"
  by (metis length_contents length_0_conv)

lemma MoveLeft_contents:
  "oldest \<le> length w \<Longrightarrow> MoveLeft w oldest = Some (contents w oldest)"
  by (simp add: MoveLeft_def go_slice_def contents_def)

section \<open>Write\<close>

text \<open>An \<open>io.Writer\<close> takes bytes and returns the count, the error (\<open>None\<close> for nil) and its new
  state.\<close>

type_synonym 'w writer = "'w \<Rightarrow> byte list \<Rightarrow> int \<times> gerror option \<times> 'w"

definition window_Write ::
    "'w writer \<Rightarrow> 'w \<Rightarrow> byte list \<Rightarrow> nat \<Rightarrow> (int \<times> gerror option \<times> 'w) option" where
  "window_Write wr w window oldest = do {
     (n, err, w) \<leftarrow>
       (if oldest < length window
        then do { p \<leftarrow> go_slice window (int oldest) (int (length window)); Some (wr w p) }
        else Some (0, None, w));
     (if err = None \<and> 0 < oldest
      then do {
        p \<leftarrow> go_slice window 0 (int oldest);
        let (n2, err, w) = wr w p;
        Some (n + n2, err, w)
      }
      else Some (n, err, w))
   }"

text \<open>\<open>bytes.Buffer\<close> of the standard library: it appends and never fails.\<close>

definition buffer_Write :: "byte list writer" where
  "buffer_Write b p = (int (length p), None, b @ p)"

lemma window_Write_buffer:
  "circ_ok window oldest \<Longrightarrow>
   window_Write buffer_Write b window oldest =
     Some (int (length window), None, b @ contents window oldest)"
  by (auto simp: window_Write_def buffer_Write_def go_slice_def contents_def circ_ok_def)

text \<open>A writer that fails on the older part is not given the newer one.\<close>

lemma window_Write_error:
  "circ_ok window oldest \<Longrightarrow> window \<noteq> [] \<Longrightarrow>
   wr w (drop oldest window) = (n, Some e, w') \<Longrightarrow>
   window_Write wr w window oldest = Some (n, Some e, w')"
  by (auto simp: window_Write_def go_slice_def circ_ok_def)

section \<open>Rolling a byte into the buffer\<close>

definition circ_push :: "'a list \<Rightarrow> nat \<Rightarrow> 'a \<Rightarrow> 'a list \<times> nat" where
  "circ_push w oldest c =
     (w[oldest := c], if length w \<le> oldest + 1 then 0 else oldest + 1)"

lemma circ_push_ok: "circ_ok w oldest \<Longrightarrow> circ_push w oldest c = (w', oldest') \<Longrightarrow> circ_ok w' oldest'"
  by (auto simp: circ_push_def circ_ok_def split: if_splits)

lemma contents_push:
  assumes "circ_ok w oldest" and "w \<noteq> []" and "circ_push w oldest c = (w', oldest')"
  shows "contents w' oldest' = tl (contents w oldest) @ [c]"
proof -
  have lt: "oldest < length w" using assms(1,2) by (auto simp: circ_ok_def)
  define xs x ys where "xs = take oldest w" and "x = w ! oldest" and "ys = drop (Suc oldest) w"
  have w: "w = xs @ x # ys" and len: "oldest = length xs"
    using lt by (simp_all add: xs_def x_def ys_def id_take_nth_drop [symmetric])
  show ?thesis
    using assms(3) by (cases ys) (auto simp: circ_push_def contents_def w len)
qed

lemma contents_hd:
  "circ_ok w oldest \<Longrightarrow> w \<noteq> [] \<Longrightarrow>
   contents w oldest = w ! oldest # tl (contents w oldest)"
  by (auto simp: circ_ok_def contents_def Cons_nth_drop_Suc [symmetric])

lemma length_circ_push: "circ_push w oldest c = (w', oldest') \<Longrightarrow> length w' = length w"
  by (auto simp: circ_push_def)

section \<open>Properties\<close>

text \<open>C30: The three reversals of \<open>MoveLeft\<close> rotate the buffer so that the oldest byte comes first; it panics
  exactly when the index lies beyond the buffer.\<close>

theorem MoveLeft_rotates:
  "MoveLeft window oldest =
     (if oldest \<le> length window then Some (drop oldest window @ take oldest window) else None)"
  using MoveLeft_contents [of oldest window] by (auto simp: contents_def MoveLeft_def go_slice_def)

text \<open>\<open>window.Write\<close> stops at the first error of the writer: it returns the writer's count and error
  and does not offer it the newer part of the window.\<close>

theorem window_Write_stops:
  assumes "circ_ok window oldest" and "window \<noteq> []" and "wr w (drop oldest window) = (n, Some e, w')"
  shows "window_Write wr w window oldest = Some (n, Some e, w')"
  using assms by (rule window_Write_error)

text \<open>A writer with room for two bytes.\<close>

definition full_writer :: "byte list writer" where
  "full_writer b p = (2, Some (OtherErr 1), b @ take 2 p)"

theorem window_Write_stops_witness:
  "window_Write full_writer [] [4, 1, 2, 3] 1 = Some (2, Some (OtherErr 1), [1, 2])"
  by (rule window_Write_stops) (simp_all add: circ_ok_def full_writer_def)

end
