(* ===== verification/Lanes.thy ===== *)
theory Lanes
  imports Go_Prelude
begin

text \<open>
  The two-lane loops that \<open>BatchRoll\<close> and \<open>BatchBoundaries\<close> have in common in every hash
  package: lane A covers the first half of the window positions, lane B the rest; both advance in
  lockstep, then the longer one is finished alone. The loops are parametrised by the lane's step,
  its output and its two byte accesses; each hash package passes its own. The lemmas say that
  whatever the split, the outputs are those of a single pass.
\<close>

section \<open>One lane\<close>

text \<open>\<open>ln_step v leave enter\<close> rolls a lane by one byte, \<open>ln_out\<close> is the checksum as a \<open>uint64\<close>,
  \<open>ln_leave i\<close> and \<open>ln_enter i\<close> read the bytes that leave and enter at step \<open>i\<close>.\<close>

record 'v lane =
  ln_step :: "'v \<Rightarrow> byte \<Rightarrow> byte \<Rightarrow> 'v"
  ln_out :: "'v \<Rightarrow> u64"
  ln_leave :: "nat \<Rightarrow> byte option"
  ln_enter :: "nat \<Rightarrow> byte option"

definition lane_next :: "'v lane \<Rightarrow> nat \<Rightarrow> 'v \<Rightarrow> 'v option" where
  "lane_next L i v = do { x \<leftarrow> ln_leave L i; y \<leftarrow> ln_enter L i; Some (ln_step L v x y) }"

section \<open>BatchRoll\<close>

text \<open>\<open>for ; i < lim; i++ { v = step; dst[i+1] = v }\<close>\<close>

function roll_solo :: "'v lane \<Rightarrow> nat \<Rightarrow> nat \<Rightarrow> 'v \<Rightarrow> u64 list \<Rightarrow> ('v \<times> u64 list) option" where
  "roll_solo L i lim v dst =
     (if i < lim then do {
        v \<leftarrow> lane_next L i v;
        dst \<leftarrow> upd dst (i + 1) (ln_out L v);
        roll_solo L (i + 1) lim v dst
      } else Some (v, dst))"
  by pat_completeness auto
termination
  by (relation "measure (\<lambda>(L, i, lim, v, dst). lim - i)") auto

text \<open>\<open>for ia < limA && ib < n { ... ia++; ib++ }\<close>\<close>

function roll_pair :: "'v lane \<Rightarrow> nat \<Rightarrow> nat \<Rightarrow> nat \<Rightarrow> nat \<Rightarrow> 'v \<Rightarrow> 'v \<Rightarrow> u64 list \<Rightarrow>
    (nat \<times> nat \<times> 'v \<times> 'v \<times> u64 list) option" where
  "roll_pair L ia limA ib n vA vB dst =
     (if ia < limA \<and> ib < n then do {
        vA \<leftarrow> lane_next L ia vA;
        dst \<leftarrow> upd dst (ia + 1) (ln_out L vA);
        vB \<leftarrow> lane_next L ib vB;
        dst \<leftarrow> upd dst (ib + 1) (ln_out L vB);
        roll_pair L (ia + 1) limA (ib + 1) n vA vB dst
      } else Some (ia, ib, vA, vB, dst))"
  by pat_completeness auto
termination
  by (relation "measure (\<lambda>(L, ia, limA, ib, n, vA, vB, dst). limA - ia)") auto

declare roll_solo.simps [simp del] roll_pair.simps [simp del]

text \<open>The body of \<open>BatchRoll\<close> after its set-up: \<open>warm off\<close> is the warm-up of a lane over
  \<open>data[off:off+window]\<close>, \<open>n\<close> the highest output index.\<close>

definition roll_lanes ::
    "'v lane \<Rightarrow> (nat \<Rightarrow> 'v option) \<Rightarrow> nat \<Rightarrow> u64 list \<Rightarrow> u64 list option" where
  "roll_lanes L warm n dst =
     (let half = (n + 2) div 2 in do {
        vA \<leftarrow> warm 0;
        dst \<leftarrow> upd dst 0 (ln_out L vA);
        if n < half then do {
          (vA, dst) \<leftarrow> roll_solo L 0 n vA dst;
          Some dst
        } else do {
          vB \<leftarrow> warm half;
          dst \<leftarrow> upd dst half (ln_out L vB);
          (ia, ib, vA, vB, dst) \<leftarrow> roll_pair L 0 (half - 1) half n vA vB dst;
          (vA, dst) \<leftarrow> roll_solo L ia (half - 1) vA dst;
          (vB, dst) \<leftarrow> roll_solo L ib n vB dst;
          Some dst
        }
      })"

section \<open>BatchBoundaries\<close>

text \<open>\<open>a[na] = int32(pos); na++\<close> when the checksum satisfies the mask.\<close>

definition mark :: "'v lane \<Rightarrow> u64 \<Rightarrow> 'v \<Rightarrow> nat \<Rightarrow> i32 list \<times> nat \<Rightarrow> (i32 list \<times> nat) option" where
  "mark L msk v pos hits =
     (case hits of (a, na) \<Rightarrow>
        if ln_out L v AND msk = 0
        then do { a \<leftarrow> upd a na (word_of_nat pos); Some (a, na + 1) }
        else Some (a, na))"

function hit_solo :: "'v lane \<Rightarrow> u64 \<Rightarrow> nat \<Rightarrow> nat \<Rightarrow> 'v \<Rightarrow> i32 list \<times> nat \<Rightarrow>
    ('v \<times> i32 list \<times> nat) option" where
  "hit_solo L msk i lim v hits =
     (if i < lim then do {
        v \<leftarrow> lane_next L i v;
        hits \<leftarrow> mark L msk v (i + 1) hits;
        hit_solo L msk (i + 1) lim v hits
      } else Some (v, hits))"
  by pat_completeness auto
termination
  by (relation "measure (\<lambda>(L, msk, i, lim, v, hits). lim - i)") auto

function hit_pair :: "'v lane \<Rightarrow> u64 \<Rightarrow> nat \<Rightarrow> nat \<Rightarrow> nat \<Rightarrow> nat \<Rightarrow> 'v \<Rightarrow> 'v \<Rightarrow>
    i32 list \<times> nat \<Rightarrow> i32 list \<times> nat \<Rightarrow>
    (nat \<times> nat \<times> 'v \<times> 'v \<times> (i32 list \<times> nat) \<times> (i32 list \<times> nat)) option" where
  "hit_pair L msk ia limA ib n vA vB hitsA hitsB =
     (if ia < limA \<and> ib < n then do {
        vA \<leftarrow> lane_next L ia vA;
        hitsA \<leftarrow> mark L msk vA (ia + 1) hitsA;
        vB \<leftarrow> lane_next L ib vB;
        hitsB \<leftarrow> mark L msk vB (ib + 1) hitsB;
        hit_pair L msk (ia + 1) limA (ib + 1) n vA vB hitsA hitsB
      } else Some (ia, ib, vA, vB, hitsA, hitsB))"
  by pat_completeness auto
termination
  by (relation "measure (\<lambda>(L, msk, ia, limA, ib, n, vA, vB, hA, hB). limA - ia)") auto

declare hit_solo.simps [simp del] hit_pair.simps [simp del]

text \<open>The end of \<open>BatchBoundaries\<close>: both lanes in lockstep, then the longer one alone. The
  result is the two buffers with their counts: \<open>(a, b, na, nb)\<close>.\<close>

definition hit_finish :: "'v lane \<Rightarrow> u64 \<Rightarrow> nat \<Rightarrow> nat \<Rightarrow> nat \<Rightarrow> nat \<Rightarrow> 'v \<Rightarrow> 'v \<Rightarrow>
    i32 list \<times> nat \<Rightarrow> i32 list \<times> nat \<Rightarrow> (i32 list \<times> i32 list \<times> nat \<times> nat) option" where
  "hit_finish L msk ia limA ib n vA vB hitsA hitsB = do {
     (ia, ib, vA, vB, hitsA, hitsB) \<leftarrow> hit_pair L msk ia limA ib n vA vB hitsA hitsB;
     (vA, hitsA) \<leftarrow> hit_solo L msk ia limA vA hitsA;
     (vB, hitsB) \<leftarrow> hit_solo L msk ib n vB hitsB;
     Some (fst hitsA, fst hitsB, snd hitsA, snd hitsB)
   }"

definition hit_lanes :: "'v lane \<Rightarrow> (nat \<Rightarrow> 'v option) \<Rightarrow> nat \<Rightarrow> u64 \<Rightarrow> i32 list \<Rightarrow> i32 list \<Rightarrow>
    (i32 list \<times> i32 list \<times> nat \<times> nat) option" where
  "hit_lanes L warm n msk a b =
     (let half = (n + 2) div 2 in do {
        vA \<leftarrow> warm 0;
        hitsA \<leftarrow> mark L msk vA 0 (a, 0);
        if n < half then do {
          (vA, hitsA) \<leftarrow> hit_solo L msk 0 n vA hitsA;
          Some (fst hitsA, b, snd hitsA, 0)
        } else do {
          vB \<leftarrow> warm half;
          hitsB \<leftarrow> mark L msk vB half (b, 0);
          hit_finish L msk 0 (half - 1) half n vA vB hitsA hitsB
        }
      })"

section \<open>What the loops compute\<close>

text \<open>\<open>traces L H n\<close>: started at \<open>H i\<close>, the lane's steps run through \<open>H (i+1), H (i+2), ...\<close>, up
  to \<open>H n\<close>.\<close>

definition traces :: "'v lane \<Rightarrow> (nat \<Rightarrow> 'v) \<Rightarrow> nat \<Rightarrow> bool" where
  "traces L H n \<longleftrightarrow> (\<forall>i<n. lane_next L i (H i) = Some (H (Suc i)))"

lemma tracesD: "traces L H n \<Longrightarrow> i < n \<Longrightarrow> lane_next L i (H i) = Some (H (Suc i))"
  by (simp add: traces_def)

lemma traces_mono: "traces L H n \<Longrightarrow> m \<le> n \<Longrightarrow> traces L H m"
  by (simp add: traces_def)

text \<open>\<open>filled L H lo hi dst dst'\<close>: \<open>dst'\<close> is \<open>dst\<close> with the outputs at \<open>lo .. hi\<close> stored.\<close>

definition filled :: "'v lane \<Rightarrow> (nat \<Rightarrow> 'v) \<Rightarrow> nat \<Rightarrow> nat \<Rightarrow> u64 list \<Rightarrow> u64 list \<Rightarrow> bool" where
  "filled L H lo hi dst dst' \<longleftrightarrow>
     length dst' = length dst \<and>
     (\<forall>j<length dst. dst' ! j = (if lo \<le> j \<and> j \<le> hi then ln_out L (H j) else dst ! j))"

lemma filled_length: "filled L H lo hi dst dst' \<Longrightarrow> length dst' = length dst"
  by (simp add: filled_def)

lemma filled_empty: "hi < lo \<Longrightarrow> filled L H lo hi dst dst"
  by (auto simp: filled_def)

lemma filled_upd: "i < length dst \<Longrightarrow> filled L H i i dst (dst[i := ln_out L (H i)])"
  by (auto simp: filled_def nth_list_update)

lemma filled_trans:
  "filled L H lo m dst dst1 \<Longrightarrow> filled L H (Suc m) hi dst1 dst2 \<Longrightarrow> lo \<le> Suc m \<Longrightarrow> m \<le> hi \<Longrightarrow>
   filled L H lo hi dst dst2"
  by (auto simp: filled_def)

lemma roll_solo_filled:
  "traces L H n \<Longrightarrow> lim \<le> n \<Longrightarrow> lim < length dst \<Longrightarrow> i \<le> lim \<Longrightarrow>
   \<exists>dst'. roll_solo L i lim (H i) dst = Some (H lim, dst') \<and> filled L H (Suc i) lim dst dst'"
proof (induction "lim - i" arbitrary: i dst)
  case 0
  then show ?case by (subst roll_solo.simps) (auto simp: filled_empty)
next
  case (Suc k)
  let ?d = "dst[Suc i := ln_out L (H (Suc i))]"
  have "\<exists>dst'. roll_solo L (Suc i) lim (H (Suc i)) ?d = Some (H lim, dst') \<and>
      filled L H (Suc (Suc i)) lim ?d dst'"
    using Suc.prems Suc.hyps by (intro Suc.hyps) auto
  then obtain dst' where r: "roll_solo L (Suc i) lim (H (Suc i)) ?d = Some (H lim, dst')"
    and f: "filled L H (Suc (Suc i)) lim ?d dst'" by blast
  have "filled L H (Suc i) lim dst dst'"
    using filled_trans [OF filled_upd f] Suc.prems Suc.hyps by simp
  moreover have "roll_solo L i lim (H i) dst = Some (H lim, dst')"
    using r Suc.prems Suc.hyps(2) by (subst roll_solo.simps) (auto simp: tracesD go_simps)
  ultimately show ?case by blast
qed

text \<open>The lockstep loop stores both lanes' next outputs and stops where the shorter lane ends.\<close>

lemma roll_pair_filled:
  assumes "traces L H n" and "n < length dst" and "ia \<le> limA" and "limA < ib" and "ib \<le> n"
  shows "\<exists>ia' ib' dst1 dst'. roll_pair L ia limA ib n (H ia) (H ib) dst =
      Some (ia', ib', H ia', H ib', dst') \<and>
    ia \<le> ia' \<and> ia' \<le> limA \<and> ib \<le> ib' \<and> ib' \<le> n \<and>
    filled L H (Suc ia) ia' dst dst1 \<and> filled L H (Suc ib) ib' dst1 dst'"
  using assms
proof (induction "limA - ia" arbitrary: ia ib dst)
  case 0
  have "roll_pair L ia limA ib n (H ia) (H ib) dst = Some (ia, ib, H ia, H ib, dst)"
    using 0 by (subst roll_pair.simps) simp
  then show ?case using 0 by (meson filled_empty lessI order_refl)
next
  case (Suc k)
  show ?case
  proof (cases "ib < n")
    case False
    then have "roll_pair L ia limA ib n (H ia) (H ib) dst = Some (ia, ib, H ia, H ib, dst)"
      by (subst roll_pair.simps) simp
    then show ?thesis using Suc.prems by (meson filled_empty lessI order_refl)
  next
    case True
    let ?d = "dst[Suc ia := ln_out L (H (Suc ia)), Suc ib := ln_out L (H (Suc ib))]"
    have lt: "ia < limA" using Suc.hyps(2) by simp
    obtain ia' ib' dst1 dst' where
      r: "roll_pair L (Suc ia) limA (Suc ib) n (H (Suc ia)) (H (Suc ib)) ?d =
            Some (ia', ib', H ia', H ib', dst')"
      and b: "Suc ia \<le> ia'" "ia' \<le> limA" "Suc ib \<le> ib'" "ib' \<le> n"
      and f: "filled L H (Suc (Suc ia)) ia' ?d dst1" "filled L H (Suc (Suc ib)) ib' dst1 dst'"
      using Suc.hyps(1) [of "Suc ia" ?d "Suc ib"] Suc.hyps(2) Suc.prems True by fastforce
    have "roll_pair L ia limA ib n (H ia) (H ib) dst = Some (ia', ib', H ia', H ib', dst')"
      using r lt True Suc.prems by (subst roll_pair.simps) (simp add: tracesD go_simps)
    moreover have "\<exists>dst2. filled L H (Suc ia) ia' dst dst2 \<and> filled L H (Suc ib) ib' dst2 dst'"
    proof -
      let ?e = "map (\<lambda>j. if Suc ia \<le> j \<and> j \<le> ia' then ln_out L (H j) else dst ! j) [0..<length dst]"
      have "filled L H (Suc ia) ia' dst ?e" by (simp add: filled_def)
      moreover have "filled L H (Suc ib) ib' ?e dst'"
        using f b Suc.prems True unfolding filled_def
        by (auto simp: nth_list_update not_less_eq_eq dest: le_antisym)
      ultimately show ?thesis by blast
    qed
    ultimately show ?thesis using b by (meson Suc_leD)
  qed
qed

text \<open>All outputs of a \<open>BatchRoll\<close> body: position \<open>i\<close> gets the output of \<open>H i\<close>; a longer \<open>dst\<close>
  keeps its tail.\<close>

lemma filled_all:
  assumes "filled L H 0 n dst dst'" and "n < length dst"
  shows "dst' = map (\<lambda>i. ln_out L (H i)) [0..<Suc n] @ drop (Suc n) dst"
  by (rule nth_equalityI) (use assms in \<open>auto simp: filled_def nth_append simp del: upt_Suc\<close>)

lemma roll_lanes_all:
  assumes tr: "traces L H n" and len: "n < length dst"
    and warm: "warm 0 = Some (H 0)" "(n + 2) div 2 \<le> n \<Longrightarrow> warm ((n + 2) div 2) = Some (H ((n + 2) div 2))"
  shows "roll_lanes L warm n dst =
    Some (map (\<lambda>i. ln_out L (H i)) [0..<Suc n] @ drop (Suc n) dst)"
proof -
  define half where "half = (n + 2) div 2"
  have hpos: "0 < half" by (simp add: half_def)
  have w0: "upd dst 0 (ln_out L (H 0)) = Some (dst[0 := ln_out L (H 0)])"
    by (rule upd_in) (use len in linarith)
  have f0: "filled L H 0 0 dst (dst[0 := ln_out L (H 0)])"
    by (rule filled_upd) (use len in linarith)
  have "\<exists>dst'. roll_lanes L warm n dst = Some dst' \<and> filled L H 0 n dst dst'"
  proof (cases "n < half")
    case True
    obtain dst' where r: "roll_solo L 0 n (H 0) (dst[0 := ln_out L (H 0)]) = Some (H n, dst')"
      and f: "filled L H (Suc 0) n (dst[0 := ln_out L (H 0)]) dst'"
      using roll_solo_filled [OF tr order_refl, of "dst[0 := ln_out L (H 0)]" 0] len by auto
    have "roll_lanes L warm n dst = Some dst'"
      using True r w0 warm(1) unfolding roll_lanes_def Let_def half_def [symmetric] by simp
    then show ?thesis using filled_trans [OF f0 f] by simp
  next
    case False
    then have hn: "half \<le> n" and half_n: "half - 1 \<le> n" "half - 1 < length dst"
      using len by simp_all
    let ?d0 = "dst[0 := ln_out L (H 0)]" and ?d1 = "dst[0 := ln_out L (H 0), half := ln_out L (H half)]"
    have f1: "filled L H half half ?d0 ?d1"
      using len hn by (intro filled_upd) simp
    obtain ia ib d2 d3 where
      rp: "roll_pair L 0 (half - 1) half n (H 0) (H half) ?d1 = Some (ia, ib, H ia, H ib, d3)"
      and b: "ia \<le> half - 1" "half \<le> ib" "ib \<le> n"
      and f2: "filled L H (Suc 0) ia ?d1 d2" and f3: "filled L H (Suc half) ib d2 d3"
      using roll_pair_filled [OF tr, of ?d1 0 "half - 1" half] len hn hpos by auto
    have len3: "length d3 = length dst" using f2 f3 by (simp add: filled_def)
    obtain d4 where rA: "roll_solo L ia (half - 1) (H ia) d3 = Some (H (half - 1), d4)"
      and f4: "filled L H (Suc ia) (half - 1) d3 d4"
      using roll_solo_filled [OF tr, of "half - 1" d3 ia] len hn b len3 half_n by auto
    have len4: "length d4 = length dst" using f4 len3 by (simp add: filled_def)
    obtain d5 where rB: "roll_solo L ib n (H ib) d4 = Some (H n, d5)"
      and f5: "filled L H (Suc ib) n d4 d5"
      using roll_solo_filled [OF tr order_refl, of d4 ib] len b len4 by auto
    have "roll_lanes L warm n dst = Some d5"
      using False hn w0 warm rp rA rB len
      unfolding roll_lanes_def Let_def half_def [symmetric] by (simp add: upd_in)
    moreover have "filled L H 0 n dst d5"
      unfolding filled_def
    proof (intro conjI allI impI)
      show "length d5 = length dst" using f5 len4 by (simp add: filled_def)
      fix j assume j: "j < length dst"
      have "j = 0 \<or> (0 < j \<and> j < half) \<or> (half \<le> j \<and> j \<le> n) \<or> n < j" by linarith
      then show "d5 ! j = (if 0 \<le> j \<and> j \<le> n then ln_out L (H j) else dst ! j)"
        using f0 f1 f2 f3 f4 f5 j b hn hpos unfolding filled_def
        by (elim disjE) (auto simp: nth_list_update)
    qed
    ultimately show ?thesis by blast
  qed
  then show ?thesis using filled_all [OF _ len] by blast
qed

section \<open>The hits a boundary buffer holds\<close>

text \<open>\<open>hits_are hits ps\<close>: the buffer's first \<open>na\<close> entries are the positions \<open>ps\<close>.\<close>

definition hits_are :: "i32 list \<times> nat \<Rightarrow> nat list \<Rightarrow> bool" where
  "hits_are hits ps \<longleftrightarrow>
     snd hits = length ps \<and> length ps \<le> length (fst hits) \<and>
     take (length ps) (fst hits) = map word_of_nat ps"

text \<open>Whether position \<open>p\<close> satisfies the mask.\<close>

definition ok_pos :: "'v lane \<Rightarrow> u64 \<Rightarrow> (nat \<Rightarrow> 'v) \<Rightarrow> nat \<Rightarrow> bool" where
  "ok_pos L msk H p \<longleftrightarrow> ln_out L (H p) AND msk = 0"

lemma hits_are_Nil: "hits_are (a, 0) []"
  by (simp add: hits_are_def)

lemma mark_hits:
  assumes "hits_are hits ps" and "length ps < length (fst hits)"
  shows "\<exists>hits'. mark L msk (H p) p hits = Some hits' \<and> length (fst hits') = length (fst hits) \<and>
    hits_are hits' (ps @ filter (ok_pos L msk H) [p])"
  using assms
  by (cases hits)
    (auto simp: mark_def hits_are_def ok_pos_def upd_in take_Suc_conv_app_nth)

lemma hit_solo_hits:
  "traces L H n \<Longrightarrow> lim \<le> n \<Longrightarrow> i \<le> lim \<Longrightarrow> hits_are hits ps \<Longrightarrow>
   length ps + (lim - i) \<le> length (fst hits) \<Longrightarrow>
   \<exists>hits'. hit_solo L msk i lim (H i) hits = Some (H lim, hits') \<and>
     length (fst hits') = length (fst hits) \<and>
     hits_are hits' (ps @ filter (ok_pos L msk H) [Suc i..<Suc lim])"
proof (induction "lim - i" arbitrary: i hits ps)
  case 0
  then show ?case by (subst hit_solo.simps) auto
next
  case (Suc k)
  then have lt: "i < lim" by simp
  have free: "length ps < length (fst hits)" using Suc.prems(5) lt by linarith
  obtain h1 where m: "mark L msk (H (Suc i)) (Suc i) hits = Some h1"
    and l1: "length (fst h1) = length (fst hits)"
    and h1: "hits_are h1 (ps @ filter (ok_pos L msk H) [Suc i])"
    using mark_hits [OF Suc.prems(4) free, of L msk H "Suc i"] by blast
  have "\<exists>hits'. hit_solo L msk (Suc i) lim (H (Suc i)) h1 = Some (H lim, hits') \<and>
      length (fst hits') = length (fst h1) \<and>
      hits_are hits' ((ps @ filter (ok_pos L msk H) [Suc i]) @
        filter (ok_pos L msk H) [Suc (Suc i)..<Suc lim])"
    using Suc.prems Suc.hyps(2) lt l1 h1 by (intro Suc.hyps(1)) auto
  then obtain h2 where r: "hit_solo L msk (Suc i) lim (H (Suc i)) h1 = Some (H lim, h2)"
    and l2: "length (fst h2) = length (fst h1)"
    and h2: "hits_are h2 ((ps @ filter (ok_pos L msk H) [Suc i]) @
        filter (ok_pos L msk H) [Suc (Suc i)..<Suc lim])" by blast
  have "hits_are h2 (ps @ filter (ok_pos L msk H) [Suc i..<Suc lim])"
    using h2 lt by (subst filter_upt_step) (simp_all only: append_assoc Suc_less_eq)
  moreover have "hit_solo L msk i lim (H i) hits = Some (H lim, h2)"
    using r m lt Suc.prems by (subst hit_solo.simps) (auto simp: tracesD)
  ultimately show ?case using l1 l2 by auto
qed

lemma hit_pair_hits:
  assumes "traces L H n" and "ia \<le> limA" and "limA < ib" and "ib \<le> n"
    and "hits_are hA pa" and "hits_are hB pb"
    and "length pa + (limA - ia) \<le> length (fst hA)" and "length pb + (n - ib) \<le> length (fst hB)"
  shows "\<exists>ia' ib' hA' hB'. hit_pair L msk ia limA ib n (H ia) (H ib) hA hB =
      Some (ia', ib', H ia', H ib', hA', hB') \<and>
    ia \<le> ia' \<and> ia' \<le> limA \<and> ib \<le> ib' \<and> ib' \<le> n \<and>
    length (fst hA') = length (fst hA) \<and> length (fst hB') = length (fst hB) \<and>
    hits_are hA' (pa @ filter (ok_pos L msk H) [Suc ia..<Suc ia']) \<and>
    hits_are hB' (pb @ filter (ok_pos L msk H) [Suc ib..<Suc ib'])"
  using assms
proof (induction "limA - ia" arbitrary: ia ib hA hB pa pb)
  case 0
  have "hit_pair L msk ia limA ib n (H ia) (H ib) hA hB = Some (ia, ib, H ia, H ib, hA, hB)"
    using 0 by (subst hit_pair.simps) simp
  then show ?case using 0 by auto
next
  case (Suc k)
  show ?case
  proof (cases "ib < n")
    case False
    then have "hit_pair L msk ia limA ib n (H ia) (H ib) hA hB = Some (ia, ib, H ia, H ib, hA, hB)"
      by (subst hit_pair.simps) simp
    then show ?thesis using Suc.prems by auto
  next
    case True
    have lt: "ia < limA" using Suc.hyps(2) by simp
    have free: "length pa < length (fst hA)" "length pb < length (fst hB)"
      using Suc.prems(7,8) lt True by linarith+
    obtain hA1 where mA: "mark L msk (H (Suc ia)) (Suc ia) hA = Some hA1"
      and lA: "length (fst hA1) = length (fst hA)"
      and hA1: "hits_are hA1 (pa @ filter (ok_pos L msk H) [Suc ia])"
      using mark_hits [OF Suc.prems(5) free(1), of L msk H "Suc ia"] by blast
    obtain hB1 where mB: "mark L msk (H (Suc ib)) (Suc ib) hB = Some hB1"
      and lB: "length (fst hB1) = length (fst hB)"
      and hB1: "hits_are hB1 (pb @ filter (ok_pos L msk H) [Suc ib])"
      using mark_hits [OF Suc.prems(6) free(2), of L msk H "Suc ib"] by blast
    have "\<exists>ia' ib' hA' hB'. hit_pair L msk (Suc ia) limA (Suc ib) n (H (Suc ia)) (H (Suc ib)) hA1 hB1 =
        Some (ia', ib', H ia', H ib', hA', hB') \<and>
      Suc ia \<le> ia' \<and> ia' \<le> limA \<and> Suc ib \<le> ib' \<and> ib' \<le> n \<and>
      length (fst hA') = length (fst hA1) \<and> length (fst hB') = length (fst hB1) \<and>
      hits_are hA' ((pa @ filter (ok_pos L msk H) [Suc ia]) @
        filter (ok_pos L msk H) [Suc (Suc ia)..<Suc ia']) \<and>
      hits_are hB' ((pb @ filter (ok_pos L msk H) [Suc ib]) @
        filter (ok_pos L msk H) [Suc (Suc ib)..<Suc ib'])"
      using Suc.prems Suc.hyps(2) lt True lA lB hA1 hB1 by (intro Suc.hyps(1)) auto
    then obtain ia' ib' hA' hB' where
      r: "hit_pair L msk (Suc ia) limA (Suc ib) n (H (Suc ia)) (H (Suc ib)) hA1 hB1 =
        Some (ia', ib', H ia', H ib', hA', hB')"
      and b: "Suc ia \<le> ia'" "ia' \<le> limA" "Suc ib \<le> ib'" "ib' \<le> n"
      and l: "length (fst hA') = length (fst hA1)" "length (fst hB') = length (fst hB1)"
      and hA': "hits_are hA' ((pa @ filter (ok_pos L msk H) [Suc ia]) @
        filter (ok_pos L msk H) [Suc (Suc ia)..<Suc ia'])"
      and hB': "hits_are hB' ((pb @ filter (ok_pos L msk H) [Suc ib]) @
        filter (ok_pos L msk H) [Suc (Suc ib)..<Suc ib'])" by blast
    have "hits_are hA' (pa @ filter (ok_pos L msk H) [Suc ia..<Suc ia'])"
      using hA' b by (subst filter_upt_step) (simp_all only: append_assoc less_Suc_eq_le)
    moreover have "hits_are hB' (pb @ filter (ok_pos L msk H) [Suc ib..<Suc ib'])"
      using hB' b by (subst filter_upt_step) (simp_all only: append_assoc less_Suc_eq_le)
    moreover have "hit_pair L msk ia limA ib n (H ia) (H ib) hA hB = Some (ia', ib', H ia', H ib', hA', hB')"
      using r mA mB lt True Suc.prems by (subst hit_pair.simps) (auto simp: tracesD)
    ultimately show ?thesis using b l lA lB by (metis Suc_leD)
  qed
qed

text \<open>What \<open>BatchBoundaries\<close> must return: the used parts of the two buffers, one after the other,
  are the positions \<open>0 .. n\<close> that satisfy the mask, in ascending order.\<close>

definition boundaries_are :: "u64 \<Rightarrow> (nat \<Rightarrow> u64) \<Rightarrow> nat \<Rightarrow> i32 list \<Rightarrow> i32 list \<Rightarrow>
    (i32 list \<times> i32 list \<times> nat \<times> nat) option \<Rightarrow> bool" where
  "boundaries_are msk S n a b r \<longleftrightarrow>
     (\<exists>a' b' na nb. r = Some (a', b', na, nb) \<and> length a' = length a \<and> length b' = length b \<and>
        na \<le> length a \<and> nb \<le> length b \<and>
        take na a' @ take nb b' = map word_of_nat (filter (\<lambda>p. S p AND msk = 0) [0..<Suc n]))"

lemma boundaries_areI:
  assumes "hits_are hA (filter (ok_pos L msk H) [0..<h])"
    and "hits_are hB (filter (ok_pos L msk H) [h..<Suc n])"
    and "h \<le> Suc n" and "length (fst hA) = length a" and "length (fst hB) = length b"
  shows "boundaries_are msk (\<lambda>p. ln_out L (H p)) n a b (Some (fst hA, fst hB, snd hA, snd hB))"
proof -
  have "take (snd hA) (fst hA) @ take (snd hB) (fst hB) =
      map word_of_nat (filter (ok_pos L msk H) [0..<Suc n])"
    using assms(1,2) filter_upt_join [OF le0 assms(3), of "ok_pos L msk H"]
    by (simp only: hits_are_def map_append [symmetric])
  then show ?thesis
    using assms unfolding boundaries_are_def
    by (intro exI [of _ "fst hA"] exI [of _ "fst hB"] exI [of _ "snd hA"] exI [of _ "snd hB"])
      (simp add: hits_are_def ok_pos_def [abs_def] del: upt_Suc)
qed

lemma hits_are_short: "hits_are hits (filter P [i..<j]) \<Longrightarrow> length (filter P [i..<j]) \<le> j - i"
  by (metis length_filter_le length_upt)

text \<open>A lane that has the hits of \<open>lo .. i\<close> extends them to \<open>lo .. lim\<close>.\<close>

lemma hit_solo_extends:
  assumes "traces L H n" and "lim \<le> n" and "i \<le> lim" and "lo \<le> i"
    and "hits_are hits (filter (ok_pos L msk H) [lo..<Suc i])" and "lim < lo + length (fst hits)"
  shows "\<exists>hits'. hit_solo L msk i lim (H i) hits = Some (H lim, hits') \<and>
    length (fst hits') = length (fst hits) \<and>
    hits_are hits' (filter (ok_pos L msk H) [lo..<Suc lim])"
proof -
  have "length (filter (ok_pos L msk H) [lo..<Suc i]) + (lim - i) \<le> length (fst hits)"
    using hits_are_short [OF assms(5)] assms(3,4,6) by linarith
  from hit_solo_hits [OF assms(1-3,5) this, of msk]
  show ?thesis
    using filter_upt_join [of lo "Suc i" "Suc lim" "ok_pos L msk H"] assms(3,4)
    by (simp only: le_SucI Suc_le_mono)
qed

lemma hit_pair_extends:
  assumes "traces L H n" and "ia \<le> limA" and "limA < h" and "h \<le> ib" and "ib \<le> n"
    and "hits_are hA (filter (ok_pos L msk H) [0..<Suc ia])"
    and "hits_are hB (filter (ok_pos L msk H) [h..<Suc ib])"
    and "limA < length (fst hA)" and "n < h + length (fst hB)"
  shows "\<exists>ia' ib' hA' hB'. hit_pair L msk ia limA ib n (H ia) (H ib) hA hB =
      Some (ia', ib', H ia', H ib', hA', hB') \<and>
    ia' \<le> limA \<and> h \<le> ib' \<and> ib' \<le> n \<and>
    length (fst hA') = length (fst hA) \<and> length (fst hB') = length (fst hB) \<and>
    hits_are hA' (filter (ok_pos L msk H) [0..<Suc ia']) \<and>
    hits_are hB' (filter (ok_pos L msk H) [h..<Suc ib'])"
proof -
  have room: "length (filter (ok_pos L msk H) [0..<Suc ia]) + (limA - ia) \<le> length (fst hA)"
    "length (filter (ok_pos L msk H) [h..<Suc ib]) + (n - ib) \<le> length (fst hB)"
    using hits_are_short [OF assms(6)] hits_are_short [OF assms(7)] assms(2,4,5,8,9) by linarith+
  have "limA < ib" using assms(3,4) by simp
  from hit_pair_hits [OF assms(1,2) this assms(5-7) room, of msk]
  obtain ia' ib' hA' hB' where
    r: "hit_pair L msk ia limA ib n (H ia) (H ib) hA hB = Some (ia', ib', H ia', H ib', hA', hB')"
    and b: "ia \<le> ia'" "ia' \<le> limA" "ib \<le> ib'" "ib' \<le> n"
    and l: "length (fst hA') = length (fst hA)" "length (fst hB') = length (fst hB)"
    and h: "hits_are hA' (filter (ok_pos L msk H) [0..<Suc ia] @ filter (ok_pos L msk H) [Suc ia..<Suc ia'])"
      "hits_are hB' (filter (ok_pos L msk H) [h..<Suc ib] @ filter (ok_pos L msk H) [Suc ib..<Suc ib'])"
    by blast
  have "hits_are hA' (filter (ok_pos L msk H) [0..<Suc ia'])"
    using h(1) filter_upt_join [of 0 "Suc ia" "Suc ia'" "ok_pos L msk H"] b(1)
    by (simp only: le0 Suc_le_mono)
  moreover have "hits_are hB' (filter (ok_pos L msk H) [h..<Suc ib'])"
    using h(2) filter_upt_join [of h "Suc ib" "Suc ib'" "ok_pos L msk H"] b(3) assms(4)
    by (simp only: le_SucI Suc_le_mono)
  ultimately show ?thesis using r b l order_trans [OF assms(4) b(3)] by blast
qed

lemma hit_finish_boundaries:
  assumes tr: "traces L H n" and ia: "ia \<le> limA" and ib: "Suc limA \<le> ib" "ib \<le> n"
    and hA: "hits_are hA (filter (ok_pos L msk H) [0..<Suc ia])"
    and hB: "hits_are hB (filter (ok_pos L msk H) [Suc limA..<Suc ib])"
    and len: "length (fst hA) = length a" "length (fst hB) = length b" "n < length a" "n < length b"
  shows "boundaries_are msk (\<lambda>p. ln_out L (H p)) n a b
    (hit_finish L msk ia limA ib n (H ia) (H ib) hA hB)"
proof -
  have lim: "limA \<le> n" "limA < length (fst hA)" "n < Suc limA + length (fst hB)"
    using ib len by linarith+
  obtain ia' ib' hA1 hB1 where
    rp: "hit_pair L msk ia limA ib n (H ia) (H ib) hA hB = Some (ia', ib', H ia', H ib', hA1, hB1)"
    and b: "ia' \<le> limA" "Suc limA \<le> ib'" "ib' \<le> n"
    and l1: "length (fst hA1) = length (fst hA)" "length (fst hB1) = length (fst hB)"
    and h1: "hits_are hA1 (filter (ok_pos L msk H) [0..<Suc ia'])"
      "hits_are hB1 (filter (ok_pos L msk H) [Suc limA..<Suc ib'])"
    using hit_pair_extends [OF tr ia lessI ib hA hB lim(2,3)] by blast
  have room: "limA < 0 + length (fst hA1)" "n < Suc limA + length (fst hB1)"
    using lim l1 by linarith+
  obtain hA2 where rA: "hit_solo L msk ia' limA (H ia') hA1 = Some (H limA, hA2)"
    and l2: "length (fst hA2) = length (fst hA1)"
    and h2: "hits_are hA2 (filter (ok_pos L msk H) [0..<Suc limA])"
    using hit_solo_extends [OF tr lim(1) b(1) le0 h1(1) room(1)] by blast
  obtain hB2 where rB: "hit_solo L msk ib' n (H ib') hB1 = Some (H n, hB2)"
    and k2: "length (fst hB2) = length (fst hB1)"
    and g2: "hits_are hB2 (filter (ok_pos L msk H) [Suc limA..<Suc n])"
    using hit_solo_extends [OF tr order_refl b(3,2) h1(2) room(2)] by blast
  have "hit_finish L msk ia limA ib n (H ia) (H ib) hA hB =
      Some (fst hA2, fst hB2, snd hA2, snd hB2)"
    by (simp add: hit_finish_def rp rA rB)
  then show ?thesis
    using boundaries_areI [OF h2 g2, of a b] lim(1) len(1,2) l1 l2 k2 by simp
qed

lemma mark_first:
  assumes "0 < length a"
  shows "\<exists>hits. mark L msk (H i) i (a, 0) = Some hits \<and> length (fst hits) = length a \<and>
    hits_are hits (filter (ok_pos L msk H) [i..<Suc i])"
  using mark_hits [OF hits_are_Nil [of a], of L msk H i] assms by fastforce

lemma hit_lanes_all:
  assumes tr: "traces L H n" and len: "n < length a" "n < length b"
    and warm: "warm 0 = Some (H 0)" "(n + 2) div 2 \<le> n \<Longrightarrow> warm ((n + 2) div 2) = Some (H ((n + 2) div 2))"
  shows "boundaries_are msk (\<lambda>p. ln_out L (H p)) n a b (hit_lanes L warm n msk a b)"
proof -
  define half where "half = (n + 2) div 2"
  have pos: "0 < length a" "0 < length b" using len by linarith+
  obtain hA where mA: "mark L msk (H 0) 0 (a, 0) = Some hA" and lA: "length (fst hA) = length a"
    and hA: "hits_are hA (filter (ok_pos L msk H) [0..<Suc 0])"
    using mark_first [OF pos(1)] by blast
  show ?thesis
  proof (cases "n < half")
    case True
    have "n < 0 + length (fst hA)" using len lA by simp
    from hit_solo_extends [OF tr order_refl le0 le0 hA this]
    obtain hA1 where r: "hit_solo L msk 0 n (H 0) hA = Some (H n, hA1)"
      and l1: "length (fst hA1) = length a" and h1: "hits_are hA1 (filter (ok_pos L msk H) [0..<Suc n])"
      using lA by auto
    have "hit_lanes L warm n msk a b = Some (fst hA1, fst (b, 0), snd hA1, snd (b, 0))"
      using True r mA warm(1) unfolding hit_lanes_def Let_def half_def [symmetric] by simp
    then show ?thesis
      using boundaries_areI [OF h1 _ order_refl l1, of "(b, 0)" b]
      by (simp add: hits_are_Nil del: upt_Suc)
  next
    case False
    then have hn: "half \<le> n" and h: "half = Suc (half - 1)" by (simp_all add: half_def)
    obtain hB where mB: "mark L msk (H half) half (b, 0) = Some hB" and lB: "length (fst hB) = length b"
      and hB: "hits_are hB (filter (ok_pos L msk H) [Suc (half - 1)..<Suc half])"
      using mark_first [OF pos(2), of L msk H half] h by auto
    have "hit_lanes L warm n msk a b = hit_finish L msk 0 (half - 1) half n (H 0) (H half) hA hB"
      using False hn mA mB warm unfolding hit_lanes_def Let_def half_def [symmetric] by simp
    then show ?thesis
      using hit_finish_boundaries [OF tr le0 _ hn hA hB lA lB len] h by simp
  qed
qed

end
