(* ===== verification/Rolling.thy ===== *)
theory Rolling
  imports Go_Window Lanes
begin

text \<open>
  The interface between the hash packages and the loops of Lanes: a rolling hash is an \<open>absorb\<close>
  step that a fresh checksum folds over its window, and a \<open>roll\<close> step that slides the window by
  one byte. The one law says that rolling gives the checksum of the slid window. Each package
  proves it once for its own arithmetic; the locale gives the correctness of \<open>Roll\<close>,
  \<open>BatchRoll\<close> and \<open>BatchBoundaries\<close> from it.
\<close>

section \<open>Warm-up of a lane\<close>

text \<open>\<open>for j := range window { v = absorb v data[off+j] }\<close>\<close>

function warm_from :: "('v \<Rightarrow> byte \<Rightarrow> 'v) \<Rightarrow> byte list \<Rightarrow> nat \<Rightarrow> nat \<Rightarrow> nat \<Rightarrow> 'v \<Rightarrow> 'v option" where
  "warm_from absorb data off j w v =
     (if j < w then do { c \<leftarrow> idx data (off + j); warm_from absorb data off (j + 1) w (absorb v c) }
      else Some v)"
  by pat_completeness auto
termination
  by (relation "measure (\<lambda>(absorb, data, off, j, w, v). w - j)") auto

declare warm_from.simps [simp del]

lemma warm_from_drop:
  "off + w \<le> length data \<Longrightarrow> j \<le> w \<Longrightarrow>
   warm_from absorb data off j w v = Some (foldl absorb v (drop j (window_at w data off)))"
proof (induction "w - j" arbitrary: j v)
  case 0
  then show ?case by (subst warm_from.simps) (simp add: window_at_def)
next
  case (Suc k)
  then have lt: "j < w" and k: "k = w - Suc j" by simp_all
  have "drop j (window_at w data off) = data ! (off + j) # drop (Suc j) (window_at w data off)"
    using lt Suc.prems Cons_nth_drop_Suc [of "off + j" data, symmetric] Suc_diff_Suc [OF lt, symmetric]
    by (simp add: window_at_def drop_take add.commute)
  moreover have "warm_from absorb data off (Suc j) w (absorb v (data ! (off + j))) =
      Some (foldl absorb (absorb v (data ! (off + j))) (drop (Suc j) (window_at w data off)))"
    using Suc.hyps(1) [OF k] Suc.prems lt by simp
  ultimately show ?case
    using lt Suc.prems by (subst warm_from.simps) (simp add: idx_def)
qed

lemma warm_from_window:
  "off + w \<le> length data \<Longrightarrow>
   warm_from absorb data off 0 w v = Some (foldl absorb v (window_at w data off))"
  by (simp add: warm_from_drop)

section \<open>Rolling hashes\<close>

locale rolling_hash =
  fixes init :: 'v
    and absorb :: "'v \<Rightarrow> byte \<Rightarrow> 'v"
    and roll :: "nat \<Rightarrow> 'v \<Rightarrow> byte \<Rightarrow> byte \<Rightarrow> 'v"
  assumes roll_law:
    "roll (Suc (length xs)) (foldl absorb init (x # xs)) x y = foldl absorb init (xs @ [y])"
begin

text \<open>Sliding a window over data, and rolling a byte into a circular buffer.\<close>

lemma roll_window:
  assumes "i + w < length data" and "0 < w"
  shows "roll w (foldl absorb init (window_at w data i)) (data ! i) (data ! (i + w)) =
    foldl absorb init (window_at w data (Suc i))"
proof -
  obtain ys where ys: "window_at w data i = data ! i # ys"
    "window_at w data (Suc i) = ys @ [data ! (i + w)]"
    using window_at_slide [OF assms] by blast
  have "w = Suc (length ys)"
    using length_window_at [of i w data] assms ys(1) by simp
  then show ?thesis using roll_law ys by simp
qed

lemma roll_contents:
  assumes "circ_ok w oldest" and "w \<noteq> []" and "circ_push w oldest c = (w', oldest')"
  shows "roll (length w) (foldl absorb init (contents w oldest)) (w ! oldest) c =
    foldl absorb init (contents w' oldest')"
proof -
  define xs where "xs = tl (contents w oldest)"
  have c: "contents w oldest = w ! oldest # xs"
    unfolding xs_def using assms(1,2) by (rule contents_hd)
  then have "length w = Suc (length xs)"
    by (metis length_Cons length_contents)
  then show ?thesis
    using roll_law [of xs "w ! oldest" c] contents_push [OF assms] c by simp
qed

text \<open>A lane that steps by \<open>roll w\<close> and reads the bytes of \<open>data\<close> runs through the checksums of
  the windows.\<close>

lemma lane_traces:
  assumes "0 < w" and "n + w = length data" and "ln_step L = roll w"
    and "\<And>i. i < n \<Longrightarrow> ln_leave L i = Some (data ! i)"
    and "\<And>i. i < n \<Longrightarrow> ln_enter L i = Some (data ! (i + w))"
  shows "traces L (\<lambda>i. foldl absorb init (window_at w data i)) n"
  using assms roll_window [of _ w data] by (auto simp: traces_def lane_next_def)

text \<open>The batch loops, for any warm-up that gives the checksum of the window at its offset.\<close>

lemma roll_lanes_window:
  assumes "0 < w" and "n + w = length data" and "ln_step L = roll w"
    and "\<And>i. i < n \<Longrightarrow> ln_leave L i = Some (data ! i)"
    and "\<And>i. i < n \<Longrightarrow> ln_enter L i = Some (data ! (i + w))"
    and "\<And>off. off + w \<le> length data \<Longrightarrow> warm off = Some (foldl absorb init (window_at w data off))"
    and "n < length dst"
  shows "roll_lanes L warm n dst =
    Some (map (\<lambda>i. ln_out L (foldl absorb init (window_at w data i))) [0..<Suc n] @ drop (Suc n) dst)"
  by (rule roll_lanes_all [OF lane_traces [OF assms(1-5)] assms(7)]) (use assms(2,6) in simp_all)

lemma hit_lanes_window:
  assumes "0 < w" and "n + w = length data" and "ln_step L = roll w"
    and "\<And>i. i < n \<Longrightarrow> ln_leave L i = Some (data ! i)"
    and "\<And>i. i < n \<Longrightarrow> ln_enter L i = Some (data ! (i + w))"
    and "\<And>off. off + w \<le> length data \<Longrightarrow> warm off = Some (foldl absorb init (window_at w data off))"
    and "n < length a" and "n < length b"
  shows "boundaries_are msk (\<lambda>p. ln_out L (foldl absorb init (window_at w data p))) n a b
    (hit_lanes L warm n msk a b)"
  by (rule hit_lanes_all [OF lane_traces [OF assms(1-5)] assms(7,8)]) (use assms(2,6) in simp_all)

end

end
