(* ===== verification/Hit_Blocks.thy ===== *)
theory Hit_Blocks
  imports Rolling
begin

text \<open>
  The boundary loop of buzhash32, buzhash64 and gearhash64: positions are processed in blocks of 32
  per lane, hits are gathered as bits of one 64-bit word (low half lane A, high half lane B) and
  extracted with TrailingZeros outside the inner loop. The result is proved to be the one of the
  plain two-lane loop of Lanes.
\<close>

section \<open>The code\<close>

text \<open>\<open>bits.TrailingZeros32\<close> and \<open>bits.TrailingZeros64\<close> of the standard library.\<close>

definition trailing_zeros :: "'a::len word \<Rightarrow> nat" where
  "trailing_zeros x = length (takeWhile (\<lambda>i. \<not> bit x i) [0..<LENGTH('a)])"

definition blockSize :: nat where
  "blockSize = 32"

text \<open>One roll of one lane inside a block, and the recording of a hit as a bit.\<close>

definition block_step :: "('v \<Rightarrow> byte \<Rightarrow> byte \<Rightarrow> 'v) \<Rightarrow> byte list \<Rightarrow> byte list \<Rightarrow> nat \<Rightarrow> 'v \<Rightarrow> 'v option" where
  "block_step step l e k v = do { x \<leftarrow> idx l k; y \<leftarrow> idx e k; Some (step v x y) }"

definition flag :: "('v \<Rightarrow> u64) \<Rightarrow> u64 \<Rightarrow> 'v \<Rightarrow> nat \<Rightarrow> u64 \<Rightarrow> u64" where
  "flag out msk v k bs = (if out v AND msk = 0 then bs OR push_bit k 1 else bs)"

text \<open>The inner loop, unrolled by two.\<close>

function block_bits :: "('v \<Rightarrow> byte \<Rightarrow> byte \<Rightarrow> 'v) \<Rightarrow> ('v \<Rightarrow> u64) \<Rightarrow> u64 \<Rightarrow>
    byte list \<Rightarrow> byte list \<Rightarrow> byte list \<Rightarrow> byte list \<Rightarrow> nat \<Rightarrow> 'v \<Rightarrow> 'v \<Rightarrow> u64 \<Rightarrow>
    ('v \<times> 'v \<times> u64) option" where
  "block_bits step out msk lA lB eA eB k vA vB bs =
     (if k < blockSize then do {
        vA \<leftarrow> block_step step lA eA k vA;
        vB \<leftarrow> block_step step lB eB k vB;
        let bs = flag out msk vA k bs;
        let bs = flag out msk vB (k + 32) bs;
        vA \<leftarrow> block_step step lA eA (k + 1) vA;
        vB \<leftarrow> block_step step lB eB (k + 1) vB;
        let bs = flag out msk vA (k + 1) bs;
        let bs = flag out msk vB (k + 33) bs;
        block_bits step out msk lA lB eA eB (k + 2) vA vB bs
      } else Some (vA, vB, bs))"
  by pat_completeness auto
termination
  by (relation "measure (\<lambda>(step, out, msk, lA, lB, eA, eB, k, vA, vB, bs). blockSize - k)") auto

declare block_bits.simps [simp del]

text \<open>\<open>for b := bs; b != 0; b &= b - 1 { a[na] = base + int32(TrailingZeros(b)) + 1; na++ }\<close>\<close>

lemma clear_lowest_less: "bs \<noteq> 0 \<Longrightarrow> unat (bs AND (bs - 1)) < unat (bs :: u64)"
proof -
  assume nz: "bs \<noteq> 0"
  have "bs AND (bs - 1) \<le> bs - 1" by (rule word_and_le1)
  also have "bs - 1 < bs" using nz by (simp add: word_less_sub1 word_neq_0_conv) (metis word_less_1 measure_unat nz word_less_nat_alt)
  finally show ?thesis by (simp add: word_less_nat_alt)
qed

function drain_bits :: "(u64 \<Rightarrow> nat) \<Rightarrow> i32 \<Rightarrow> u64 \<Rightarrow> i32 list \<times> nat \<Rightarrow> (i32 list \<times> nat) option" where
  "drain_bits tz base bs hits =
     (if bs \<noteq> 0 then do {
        a \<leftarrow> upd (fst hits) (snd hits) (base + word_of_nat (tz bs) + 1);
        drain_bits tz base (bs AND (bs - 1)) (a, snd hits + 1)
      } else Some hits)"
  by pat_completeness auto
termination
  by (relation "measure (\<lambda>(tz, base, bs, hits). unat bs)") (auto intro: clear_lowest_less)

declare drain_bits.simps [simp del]

text \<open>One block of both lanes, from position \<open>base\<close> of lane A and \<open>half + base\<close> of lane B.\<close>

definition hit_block :: "('v \<Rightarrow> byte \<Rightarrow> byte \<Rightarrow> 'v) \<Rightarrow> ('v \<Rightarrow> u64) \<Rightarrow> u64 \<Rightarrow>
    byte list \<Rightarrow> byte list \<Rightarrow> nat \<Rightarrow> nat \<Rightarrow> 'v \<Rightarrow> 'v \<Rightarrow> i32 list \<times> nat \<Rightarrow> i32 list \<times> nat \<Rightarrow>
    ('v \<times> 'v \<times> (i32 list \<times> nat) \<times> (i32 list \<times> nat)) option" where
  "hit_block step out msk leaving entering half base vA vB hitsA hitsB = do {
     lA \<leftarrow> go_slice leaving (int base) (int (base + blockSize));
     lB \<leftarrow> go_slice leaving (int (half + base)) (int (half + base + blockSize));
     eA \<leftarrow> go_slice entering (int base) (int (base + blockSize));
     eB \<leftarrow> go_slice entering (int (half + base)) (int (half + base + blockSize));
     (vA, vB, bitsAB) \<leftarrow> block_bits step out msk lA lB eA eB 0 vA vB 0;
     hitsA \<leftarrow> drain_bits (\<lambda>bA. trailing_zeros (ucast bA :: u32)) (word_of_nat base)
       (bitsAB AND 0xffffffff) hitsA;
     hitsB \<leftarrow> drain_bits trailing_zeros (word_of_nat (half + base)) (drop_bit 32 bitsAB) hitsB;
     Some (vA, vB, hitsA, hitsB)
   }"

function hit_blocks :: "('v \<Rightarrow> byte \<Rightarrow> byte \<Rightarrow> 'v) \<Rightarrow> ('v \<Rightarrow> u64) \<Rightarrow> u64 \<Rightarrow>
    byte list \<Rightarrow> byte list \<Rightarrow> nat \<Rightarrow> nat \<Rightarrow> nat \<Rightarrow> 'v \<Rightarrow> 'v \<Rightarrow> i32 list \<times> nat \<Rightarrow> i32 list \<times> nat \<Rightarrow>
    ('v \<times> 'v \<times> (i32 list \<times> nat) \<times> (i32 list \<times> nat)) option" where
  "hit_blocks step out msk leaving entering half blk fullBlocks vA vB hitsA hitsB =
     (if blk < fullBlocks then do {
        (vA, vB, hitsA, hitsB) \<leftarrow>
          hit_block step out msk leaving entering half (blk * blockSize) vA vB hitsA hitsB;
        hit_blocks step out msk leaving entering half (blk + 1) fullBlocks vA vB hitsA hitsB
      } else Some (vA, vB, hitsA, hitsB))"
  by pat_completeness auto
termination
  by (relation "measure (\<lambda>(step, out, msk, l, e, half, blk, full, vA, vB, hA, hB). full - blk)") auto

declare hit_blocks.simps [simp del]

text \<open>The body of \<open>BatchBoundaries\<close> on the resliced data.\<close>

definition hit_block_lanes :: "('v \<Rightarrow> byte \<Rightarrow> byte \<Rightarrow> 'v) \<Rightarrow> ('v \<Rightarrow> u64) \<Rightarrow>
    byte list \<Rightarrow> byte list \<Rightarrow> (nat \<Rightarrow> 'v option) \<Rightarrow> nat \<Rightarrow> u64 \<Rightarrow> i32 list \<Rightarrow> i32 list \<Rightarrow>
    (i32 list \<times> i32 list \<times> nat \<times> nat) option" where
  "hit_block_lanes step out leaving entering warm n msk a b =
     (let half = (n + 2) div 2;
          L = \<lparr>ln_step = step, ln_out = out, ln_leave = idx leaving, ln_enter = idx entering\<rparr> in do {
        vA \<leftarrow> warm 0;
        hitsA \<leftarrow> mark L msk vA 0 (a, 0);
        if n < half then do {
          (vA, hitsA) \<leftarrow> hit_solo L msk 0 n vA hitsA;
          Some (fst hitsA, b, snd hitsA, 0)
        } else do {
          vB \<leftarrow> warm half;
          hitsB \<leftarrow> mark L msk vB half (b, 0);
          let limitA = half - 1;
          let limitB = n - half;
          let limit = min limitA limitB;
          let fullBlocks = limit div blockSize;
          (vA, vB, hitsA, hitsB) \<leftarrow>
            hit_blocks step out msk leaving entering half 0 fullBlocks vA vB hitsA hitsB;
          let ia = fullBlocks * blockSize;
          let ib = half + ia;
          hit_finish L msk ia limitA ib n vA vB hitsA hitsB
        }
      })"

section \<open>Draining a word bit by bit\<close>

text \<open>Clearing the lowest set bit: \<open>b AND (b - 1)\<close>.\<close>

lemma trailing_zeros_lowest:
  assumes "x \<noteq> (0 :: 'a::len word)"
  shows "bit x (trailing_zeros x)" and "i < trailing_zeros x \<Longrightarrow> \<not> bit x i"
    and "trailing_zeros x < LENGTH('a)"
proof -
  have lt: "trailing_zeros x < LENGTH('a)"
  proof -
    have "\<not> (\<forall>i \<in> set [0..<LENGTH('a)]. \<not> bit x i)"
      using assms by (metis atLeastLessThan_iff bit_word_eqI atLeast_upt bit_0_eq bot_apply bot_bool_def set_upt zero_le)
    then have "takeWhile (\<lambda>i. \<not> bit x i) [0..<LENGTH('a)] \<noteq> [0..<LENGTH('a)]"
      by (metis set_takeWhileD)
    moreover have "length (takeWhile (\<lambda>i. \<not> bit x i) [0..<LENGTH('a)]) \<le> LENGTH('a)"
      using length_takeWhile_le [of "\<lambda>i. \<not> bit x i" "[0..<LENGTH('a)]"] by simp
    ultimately show ?thesis
      unfolding trailing_zeros_def
      by (metis diff_zero le_neq_implies_less length_upt takeWhile_eq_take take_all_iff order_refl)
  qed
  then show "trailing_zeros x < LENGTH('a)" .
  show "bit x (trailing_zeros x)"
    using nth_length_takeWhile [of "\<lambda>i. \<not> bit x i" "[0..<LENGTH('a)]"] lt
    unfolding trailing_zeros_def by simp
  assume "i < trailing_zeros x"
  then show "\<not> bit x i"
    using nth_mem [of i "takeWhile (\<lambda>i. \<not> bit x i) [0..<LENGTH('a)]"] lt
      set_takeWhileD [of _ "\<lambda>i. \<not> bit x i" "[0..<LENGTH('a)]"]
    unfolding trailing_zeros_def by (fastforce simp: takeWhile_nth)
qed

lemma bit_clear_lowest:
  assumes nz: "x \<noteq> (0 :: 'a::len word)"
  shows "bit (x AND (x - 1)) i \<longleftrightarrow> bit x i \<and> i \<noteq> trailing_zeros x"
proof -
  define t where "t = trailing_zeros x"
  define h where "h = push_bit (Suc t) (drop_bit (Suc t) x)"
  note low = trailing_zeros_lowest [OF nz, folded t_def]
  have hb: "bit h j \<longleftrightarrow> bit x j \<and> t < j" for j
    by (auto simp: h_def bit_push_bit_iff bit_drop_bit_eq Suc_le_eq possible_bit_def
        simp del: push_bit_Suc dest: bit_imp_le_length)
  have x: "x = h + 2 ^ t"
  proof -
    have "h + push_bit t 1 = h OR push_bit t 1"
      by (rule disjunctive_add) (auto simp: hb bit_simps)
    also have "\<dots> = x"
      using low(1,2) by (intro bit_word_eqI) (auto simp: hb bit_simps, meson linorder_neqE_nat)
    finally show ?thesis by (simp add: push_bit_eq_mult)
  qed
  have "x - 1 = h + mask t"
    by (simp add: x mask_eq_exp_minus_1)
  also have "\<dots> = h OR mask t"
    by (rule disjunctive_add) (auto simp: hb bit_simps)
  finally have pred: "x - 1 = h OR mask t" .
  show ?thesis
    unfolding pred t_def [symmetric] using low(2) [of i]
    by (auto simp: hb bit_simps dest: bit_imp_le_length)
qed

text \<open>The positions of the set bits, lowest first.\<close>

definition set_bits :: "u64 \<Rightarrow> nat list" where
  "set_bits bs = filter (bit bs) [0..<64]"

lemma set_bits_0: "set_bits 0 = []"
  by (simp add: set_bits_def)

lemma set_bits_step:
  assumes nz: "bs \<noteq> 0"
  shows "set_bits bs = trailing_zeros bs # set_bits (bs AND (bs - 1))"
proof -
  define t where "t = trailing_zeros bs"
  note low = trailing_zeros_lowest [OF nz, folded t_def]
  have lt: "t < 64" using low(3) by simp
  have split: "[0..<64] = [0..<t] @ t # [Suc t..<64]"
    using lt upt_add_eq_append [of 0 t "64 - t"] by (simp add: upt_conv_Cons)
  have "filter (bit bs) [0..<t] = []" and "filter (bit (bs AND (bs - 1))) [0..<t] = []"
    using low(2) by (auto simp: filter_empty_conv bit_clear_lowest [OF nz])
  moreover have "filter (bit (bs AND (bs - 1))) [Suc t..<64] = filter (bit bs) [Suc t..<64]"
    by (rule filter_cong) (auto simp: bit_clear_lowest [OF nz] t_def [symmetric])
  ultimately show ?thesis
    unfolding set_bits_def split t_def [symmetric]
    using low(1) bit_clear_lowest [OF nz, of t] by (simp add: t_def [symmetric])
qed

lemma drain_bits_hits:
  assumes "hits_are hits ps" and "length ps + length (set_bits bs) \<le> length (fst hits)"
    and "\<And>c. c \<noteq> 0 \<Longrightarrow> (\<And>i. bit c i \<Longrightarrow> bit bs i) \<Longrightarrow> tz c = trailing_zeros c"
  shows "\<exists>hits'. drain_bits tz (word_of_nat base) bs hits = Some hits' \<and>
    length (fst hits') = length (fst hits) \<and>
    hits_are hits' (ps @ map (\<lambda>i. base + i + 1) (set_bits bs))"
  using assms
proof (induction tz "word_of_nat base :: i32" bs hits arbitrary: ps rule: drain_bits.induct)
  case (1 tz bs hits)
  show ?case
  proof (cases "bs = 0")
    case True
    then show ?thesis using "1.prems"(1) by (subst drain_bits.simps) (simp add: set_bits_0)
  next
    case False
    define t where "t = trailing_zeros bs"
    have tz: "tz bs = t" using "1.prems"(3) [OF False] by (simp add: t_def)
    have pos: "(word_of_nat base :: i32) + word_of_nat t + 1 = word_of_nat (base + t + 1)" by simp
    have room: "length ps < length (fst hits)"
      using "1.prems"(2) by (simp add: set_bits_step [OF False])
    define a where "a = (fst hits)[snd hits := word_of_nat (base + t + 1)]"
    have snd: "snd hits = length ps" using "1.prems"(1) by (simp add: hits_are_def)
    have up: "upd (fst hits) (snd hits) (word_of_nat base + word_of_nat (tz bs) + 1) = Some a"
      unfolding tz pos a_def by (rule upd_in) (simp add: snd room)
    have len: "length (fst (a, snd hits + 1)) = length (fst hits)" by (simp add: a_def)
    have h: "hits_are (a, snd hits + 1) (ps @ [base + t + 1])"
      using "1.prems"(1) room by (auto simp: hits_are_def a_def take_Suc_conv_app_nth)
    have "\<exists>hits'. drain_bits tz (word_of_nat base) (bs AND (bs - 1)) (a, snd hits + 1) = Some hits' \<and>
        length (fst hits') = length (fst (a, snd hits + 1)) \<and>
        hits_are hits' ((ps @ [base + t + 1]) @ map (\<lambda>i. base + i + 1) (set_bits (bs AND (bs - 1))))"
      using "1.prems"(2) len h
      by (intro "1.hyps" [OF False up]) (auto simp: set_bits_step [OF False] bit_simps intro!: "1.prems"(3))
    then show ?thesis
      using False len by (subst drain_bits.simps) (simp only: up set_bits_step [OF False] t_def [symmetric], simp)
  qed
qed

section \<open>The bits a block gathers\<close>

text \<open>After \<open>k\<close> positions of a block, the low half of the word has the hits of lane A and the
  high half those of lane B.\<close>

definition gathered :: "u64 \<Rightarrow> nat \<Rightarrow> (nat \<Rightarrow> bool) \<Rightarrow> (nat \<Rightarrow> bool) \<Rightarrow> bool" where
  "gathered bs k pA pB \<longleftrightarrow>
     (\<forall>i. bit bs i \<longleftrightarrow> (i < k \<and> pA i) \<or> (32 \<le> i \<and> i < 32 + k \<and> pB (i - 32)))"

lemma bit_flag:
  "k < 64 \<Longrightarrow> bit (flag out msk v k bs) i \<longleftrightarrow> bit bs i \<or> (i = k \<and> out v AND msk = 0)"
  by (auto simp: flag_def bit_simps)

lemma gathered_step:
  assumes "gathered bs k pA pB" and "k < 32"
    and "out vA AND msk = 0 \<longleftrightarrow> pA k" and "out vB AND msk = 0 \<longleftrightarrow> pB k"
  shows "gathered (flag out msk vB (k + 32) (flag out msk vA k bs)) (Suc k) pA pB"
proof -
  have bs: "bit bs i \<longleftrightarrow> (i < k \<and> pA i) \<or> (32 \<le> i \<and> i < 32 + k \<and> pB (i - 32))" for i
    using assms(1) by (simp add: gathered_def)
  have new: "bit (flag out msk vB (k + 32) (flag out msk vA k bs)) i \<longleftrightarrow>
      bit bs i \<or> (i = k \<and> pA k) \<or> (i = k + 32 \<and> pB k)" for i
    using assms(2) by (simp add: bit_flag assms(3,4))
  show ?thesis
    unfolding gathered_def
  proof
    fix i
    consider "i = k" | "i = k + 32" | "i \<noteq> k" "i \<noteq> k + 32" by blast
    then show "bit (flag out msk vB (k + 32) (flag out msk vA k bs)) i \<longleftrightarrow>
        (i < Suc k \<and> pA i) \<or> (32 \<le> i \<and> i < 32 + Suc k \<and> pB (i - 32))"
      using assms(2) unfolding new bs by cases auto
  qed
qed

text \<open>The lanes read from the slices what the positions of the block hold.\<close>

lemma block_bits_gathered:
  assumes stepA: "\<And>k. k < 32 \<Longrightarrow> block_step step lA eA k (HA k) = Some (HA (Suc k))"
    and stepB: "\<And>k. k < 32 \<Longrightarrow> block_step step lB eB k (HB k) = Some (HB (Suc k))"
    and "even k" and "k \<le> 32"
    and "gathered bs k (\<lambda>i. out (HA (Suc i)) AND msk = 0) (\<lambda>i. out (HB (Suc i)) AND msk = 0)"
  shows "\<exists>bs'. block_bits step out msk lA lB eA eB k (HA k) (HB k) bs = Some (HA 32, HB 32, bs') \<and>
    gathered bs' 32 (\<lambda>i. out (HA (Suc i)) AND msk = 0) (\<lambda>i. out (HB (Suc i)) AND msk = 0)"
  using assms(3-5)
proof (induction "32 - k" arbitrary: k bs rule: less_induct)
  case less
  let ?pA = "\<lambda>i. out (HA (Suc i)) AND msk = 0" and ?pB = "\<lambda>i. out (HB (Suc i)) AND msk = 0"
  show ?case
  proof (cases "k < 32")
    case False
    then show ?thesis using less.prems by (subst block_bits.simps) (auto simp: blockSize_def)
  next
    case True
    then have lt: "k < 32" "Suc k < 32" using less.prems(1) by presburger+
    define b1 where "b1 = flag out msk (HB (Suc k)) (k + 32) (flag out msk (HA (Suc k)) k bs)"
    define b2 where "b2 = flag out msk (HB (Suc (Suc k))) (Suc k + 32) (flag out msk (HA (Suc (Suc k))) (Suc k) b1)"
    have g1: "gathered b1 (Suc k) ?pA ?pB"
      unfolding b1_def using less.prems(3) lt(1) by (intro gathered_step) simp_all
    have g2: "gathered b2 (Suc (Suc k)) ?pA ?pB"
      unfolding b2_def using g1 lt(2) by (intro gathered_step) simp_all
    have "\<exists>bs'. block_bits step out msk lA lB eA eB (k + 2) (HA (k + 2)) (HB (k + 2)) b2 =
        Some (HA 32, HB 32, bs') \<and> gathered bs' 32 ?pA ?pB"
      using less.prems lt g2 by (intro less.hyps) auto
    moreover have "block_bits step out msk lA lB eA eB k (HA k) (HB k) bs =
        block_bits step out msk lA lB eA eB (k + 2) (HA (k + 2)) (HB (k + 2)) b2"
      using lt stepA [OF lt(1)] stepA [OF lt(2)] stepB [OF lt(1)] stepB [OF lt(2)]
      by (subst block_bits.simps) (simp add: blockSize_def Let_def b1_def b2_def add.commute)
    ultimately show ?thesis by simp
  qed
qed

lemma gathered_0: "gathered 0 0 pA pB"
  by (simp add: gathered_def)

lemma gathered_low:
  assumes "gathered bs 32 pA pB"
  shows "set_bits (bs AND 0xffffffff) = filter pA [0..<32]"
proof -
  have m: "(0xffffffff :: u64) = mask 32" by (simp add: mask_eq_exp_minus_1)
  have b: "bit bs i \<longleftrightarrow> (i < 32 \<and> pA i) \<or> (32 \<le> i \<and> i < 32 + 32 \<and> pB (i - 32))" for i
    using assms by (simp add: gathered_def)
  have "bit (bs AND 0xffffffff) i \<longleftrightarrow> i < 32 \<and> pA i" for i
    unfolding m take_bit_eq_mask [symmetric] bit_take_bit_iff b by auto
  then show ?thesis unfolding set_bits_def by (intro filter_upt_below) simp_all
qed

lemma gathered_high:
  assumes "gathered bs 32 pA pB"
  shows "set_bits (drop_bit 32 bs) = filter pB [0..<32]"
proof -
  have b: "bit bs i \<longleftrightarrow> (i < 32 \<and> pA i) \<or> (32 \<le> i \<and> i < 32 + 32 \<and> pB (i - 32))" for i
    using assms by (simp add: gathered_def)
  have "bit (drop_bit 32 bs) i \<longleftrightarrow> i < 32 \<and> pB i" for i
    unfolding bit_drop_bit_eq comp_def b by auto
  then show ?thesis unfolding set_bits_def by (intro filter_upt_below) simp_all
qed

section \<open>Blocks and the whole loop\<close>

lemma trailing_zeros_ucast:
  assumes nz: "c \<noteq> (0 :: u64)" and low: "\<And>i. bit c i \<Longrightarrow> i < 32"
  shows "trailing_zeros (ucast c :: u32) = trailing_zeros c"
proof -
  have b: "bit (ucast c :: u32) i \<longleftrightarrow> bit c i" for i
    using low by (auto simp: bit_ucast_iff dest: bit_imp_le_length)
  have nz': "(ucast c :: u32) \<noteq> 0"
    using trailing_zeros_lowest(1) [OF nz] b by (metis bit_0_eq bot_apply bot_bool_def)
  show ?thesis
    using trailing_zeros_lowest [OF nz] trailing_zeros_lowest [OF nz'] b by (metis linorder_neqE_nat)
qed

text \<open>The lane of \<open>hit_block_lanes\<close>, and its steps inside a slice.\<close>

definition slice_lane :: "('v \<Rightarrow> byte \<Rightarrow> byte \<Rightarrow> 'v) \<Rightarrow> ('v \<Rightarrow> u64) \<Rightarrow> byte list \<Rightarrow> byte list \<Rightarrow> 'v lane" where
  "slice_lane step out leaving entering =
     \<lparr>ln_step = step, ln_out = out, ln_leave = idx leaving, ln_enter = idx entering\<rparr>"

lemma slice_lane_out [simp]: "ln_out (slice_lane step out l e) = out"
  by (simp add: slice_lane_def)

lemma block_step_lane:
  assumes "traces (slice_lane step out leaving entering) H n" and "k < 32" and "lo + 32 \<le> n"
    and "n \<le> length leaving" and "n \<le> length entering"
  shows "block_step step (take 32 (drop lo leaving)) (take 32 (drop lo entering)) k (H (lo + k)) =
    Some (H (lo + Suc k))"
  using tracesD [OF assms(1), of "lo + k"] assms(2-5)
  by (simp add: block_step_def lane_next_def slice_lane_def idx_part)

text \<open>Draining the hits of a block extends the positions of a lane by the block.\<close>

lemma drain_extends:
  assumes h: "hits_are hits (filter P [l..<Suc base])" and "l \<le> Suc base"
    and bits: "set_bits bs = filter (\<lambda>i. P (base + Suc i)) [0..<32]"
    and room: "base + 32 < l + length (fst hits)"
    and tz: "\<And>c. c \<noteq> 0 \<Longrightarrow> (\<And>i. bit c i \<Longrightarrow> i < 32) \<Longrightarrow> tz c = trailing_zeros c"
  shows "\<exists>hits'. drain_bits tz (word_of_nat base) bs hits = Some hits' \<and>
    length (fst hits') = length (fst hits) \<and> hits_are hits' (filter P [l..<Suc (base + 32)])"
proof -
  have low: "i < 32" if "bit bs i" for i
  proof -
    have "i \<in> set (set_bits bs)" using that bit_imp_le_length [OF that] by (simp add: set_bits_def)
    then show ?thesis unfolding bits by simp
  qed
  have new: "map (\<lambda>i. base + i + 1) (set_bits bs) = filter P [Suc base..<Suc (base + 32)]"
    using map_filter_shift [of base P 32] by (simp add: bits)
  have "length (filter P [l..<Suc base]) + length (set_bits bs) \<le> length (fst hits)"
    using hits_are_short [OF h] length_filter_le [of "\<lambda>i. P (base + Suc i)" "[0..<32]"] room assms(2)
    unfolding bits by simp
  from drain_bits_hits [OF h this, of tz base]
  obtain hits' where "drain_bits tz (word_of_nat base) bs hits = Some hits'"
    and "length (fst hits') = length (fst hits)"
    and h': "hits_are hits' (filter P [l..<Suc base] @ map (\<lambda>i. base + i + 1) (set_bits bs))"
    using tz low by blast
  moreover have "hits_are hits' (filter P [l..<Suc (base + 32)])"
    using h' filter_upt_join [of l "Suc base" "Suc (base + 32)" P] assms(2)
    unfolding new by (simp only: Suc_le_mono le_add1)
  ultimately show ?thesis by blast
qed

lemma hit_block_extends:
  assumes L_def: "L = slice_lane step out leaving entering" and tr: "traces L H n"
    and base: "base + 32 \<le> limA" and half: "Suc limA + base + 32 \<le> n"
    and len: "n \<le> length leaving" "n \<le> length entering"
    and hA: "hits_are hA (filter (ok_pos L msk H) [0..<Suc base])"
    and hB: "hits_are hB (filter (ok_pos L msk H) [Suc limA..<Suc (Suc limA + base)])"
    and room: "n < length (fst hA)" "n < length (fst hB)"
  shows "\<exists>hA' hB'. hit_block step out msk leaving entering (Suc limA) base (H base) (H (Suc limA + base)) hA hB =
      Some (H (base + 32), H (Suc limA + base + 32), hA', hB') \<and>
    length (fst hA') = length (fst hA) \<and> length (fst hB') = length (fst hB) \<and>
    hits_are hA' (filter (ok_pos L msk H) [0..<Suc (base + 32)]) \<and>
    hits_are hB' (filter (ok_pos L msk H) [Suc limA..<Suc (Suc limA + base + 32)])"
proof -
  define lo where "lo = Suc limA + base"
  have lo: "lo + 32 \<le> n" "base + 32 \<le> n" "Suc limA \<le> Suc lo" using half base by (simp_all add: lo_def)
  note stepA = block_step_lane [OF tr [unfolded L_def] _ lo(2) len]
  note stepB = block_step_lane [OF tr [unfolded L_def] _ lo(1) len]
  obtain bs where bb: "block_bits step out msk (take 32 (drop base leaving)) (take 32 (drop lo leaving))
      (take 32 (drop base entering)) (take 32 (drop lo entering)) 0 (H base) (H lo) 0 =
      Some (H (base + 32), H (lo + 32), bs)"
    and g: "gathered bs 32 (\<lambda>i. ok_pos L msk H (base + Suc i)) (\<lambda>i. ok_pos L msk H (lo + Suc i))"
    using block_bits_gathered [of step _ _ "\<lambda>k. H (base + k)" _ _ "\<lambda>k. H (lo + k)", OF stepA stepB]
      gathered_0 unfolding ok_pos_def L_def slice_lane_out by fastforce
  have "base + 32 < 0 + length (fst hA)" using room(1) lo(2) by linarith
  from drain_extends [OF hA le0 gathered_low [OF g] this, of "\<lambda>bA. trailing_zeros (ucast bA :: u32)"]
  obtain hA' where dA: "drain_bits (\<lambda>bA. trailing_zeros (ucast bA :: u32)) (word_of_nat base)
      (bs AND 0xffffffff) hA = Some hA'" and lA: "length (fst hA') = length (fst hA)"
    and hA': "hits_are hA' (filter (ok_pos L msk H) [0..<Suc (base + 32)])"
    using trailing_zeros_ucast by blast
  have "lo + 32 < Suc limA + length (fst hB)" using room(2) lo(1) by linarith
  from drain_extends [OF hB [folded lo_def] lo(3) gathered_high [OF g] this, of trailing_zeros]
  obtain hB' where dB: "drain_bits trailing_zeros (word_of_nat lo) (drop_bit 32 bs) hB = Some hB'"
    and lB: "length (fst hB') = length (fst hB)"
    and hB': "hits_are hB' (filter (ok_pos L msk H) [Suc limA..<Suc (lo + 32)])"
    by blast
  have "hit_block step out msk leaving entering (Suc limA) base (H base) (H lo) hA hB =
      Some (H (base + 32), H (lo + 32), hA', hB')"
    using bb dA dB lo len
    unfolding hit_block_def blockSize_def lo_def [symmetric] by (simp add: go_slice_nat del: of_nat_add)
  then show ?thesis using lA lB hA' hB' unfolding lo_def by blast
qed

lemma hit_blocks_extends:
  assumes L_def: "L = slice_lane step out leaving entering" and tr: "traces L H n"
    and full: "full * 32 \<le> limA" "Suc limA + full * 32 \<le> n"
    and len: "n \<le> length leaving" "n \<le> length entering"
    and blk: "blk \<le> full"
    and hA: "hits_are hA (filter (ok_pos L msk H) [0..<Suc (blk * 32)])"
    and hB: "hits_are hB (filter (ok_pos L msk H) [Suc limA..<Suc (Suc limA + blk * 32)])"
    and room: "n < length (fst hA)" "n < length (fst hB)"
  shows "\<exists>hA' hB'. hit_blocks step out msk leaving entering (Suc limA) blk full
      (H (blk * 32)) (H (Suc limA + blk * 32)) hA hB =
      Some (H (full * 32), H (Suc limA + full * 32), hA', hB') \<and>
    length (fst hA') = length (fst hA) \<and> length (fst hB') = length (fst hB) \<and>
    hits_are hA' (filter (ok_pos L msk H) [0..<Suc (full * 32)]) \<and>
    hits_are hB' (filter (ok_pos L msk H) [Suc limA..<Suc (Suc limA + full * 32)])"
  using blk hA hB room
proof (induction "full - blk" arbitrary: blk hA hB)
  case 0
  then show ?case by (subst hit_blocks.simps) auto
next
  case (Suc k)
  then have lt: "blk < full" by simp
  then have "Suc blk * 32 \<le> full * 32" by (intro mult_le_mono1) simp
  then have b: "blk * 32 + 32 \<le> limA" "Suc limA + blk * 32 + 32 \<le> n" using full by simp_all
  have next_blk: "Suc blk * 32 = blk * 32 + 32" "Suc limA + (blk * 32 + 32) = Suc limA + blk * 32 + 32"
    by simp_all
  obtain hA1 hB1 where r: "hit_block step out msk leaving entering (Suc limA) (blk * 32)
      (H (blk * 32)) (H (Suc limA + blk * 32)) hA hB =
      Some (H (Suc blk * 32), H (Suc limA + Suc blk * 32), hA1, hB1)"
    and l: "length (fst hA1) = length (fst hA)" "length (fst hB1) = length (fst hB)"
    and h: "hits_are hA1 (filter (ok_pos L msk H) [0..<Suc (Suc blk * 32)])"
      "hits_are hB1 (filter (ok_pos L msk H) [Suc limA..<Suc (Suc limA + Suc blk * 32)])"
    using hit_block_extends [OF L_def tr b len Suc.prems(2-5)] unfolding next_blk by blast
  have "k = full - Suc blk" and "Suc blk \<le> full" and "n < length (fst hA1)" and "n < length (fst hB1)"
    using Suc.hyps(2) Suc.prems lt l by simp_all
  from Suc.hyps(1) [OF this(1,2) h this(3,4)] r lt l
  show ?case by (subst hit_blocks.simps) (simp add: blockSize_def del: upt_Suc mult_Suc)
qed

text \<open>The block loop computes the same boundaries as the plain loop.\<close>

lemma hit_block_lanes_all:
  assumes L_def: "L = slice_lane step out leaving entering" and tr: "traces L H n"
    and len: "n < length a" "n < length b" and bytes: "n \<le> length leaving" "n \<le> length entering"
    and warm: "warm 0 = Some (H 0)" "(n + 2) div 2 \<le> n \<Longrightarrow> warm ((n + 2) div 2) = Some (H ((n + 2) div 2))"
  shows "boundaries_are msk (\<lambda>p. out (H p)) n a b
    (hit_block_lanes step out leaving entering warm n msk a b)"
proof (cases "n < (n + 2) div 2")
  case True
  then have "n = 0" by linarith
  then have "hit_block_lanes step out leaving entering warm n msk a b = hit_lanes L warm n msk a b"
    by (simp add: hit_block_lanes_def hit_lanes_def L_def slice_lane_def Let_def)
  then show ?thesis
    using hit_lanes_all [OF tr len warm, of msk] by (simp add: L_def)
next
  case False
  define half where "half = (n + 2) div 2"
  have hn: "half \<le> n" and h: "Suc (half - 1) = half" using False by (simp_all add: half_def)
  define full where "full = min (half - 1) (n - half) div 32"
  have "full * 32 \<le> min (half - 1) (n - half)"
    unfolding full_def by (rule div_times_less_eq_dividend)
  then have "full * 32 \<le> half - 1" and "full * 32 \<le> n - half" by simp_all
  then have full: "full * 32 \<le> half - 1" "Suc (half - 1) + full * 32 \<le> n"
    using hn unfolding h by linarith+
  have pos: "0 < length a" "0 < length b" using len by linarith+
  obtain hA where mA: "mark L msk (H 0) 0 (a, 0) = Some hA" and lA: "length (fst hA) = length a"
    and hA: "hits_are hA (filter (ok_pos L msk H) [0..<Suc (0 * 32)])"
    using mark_first [OF pos(1), of L msk H 0] by auto
  obtain hB where mB: "mark L msk (H half) half (b, 0) = Some hB" and lB: "length (fst hB) = length b"
    and hB: "hits_are hB (filter (ok_pos L msk H) [Suc (half - 1)..<Suc (Suc (half - 1) + 0 * 32)])"
    using mark_first [OF pos(2), of L msk H half] h by auto
  have room: "n < length (fst hA)" "n < length (fst hB)" using lA lB len by simp_all
  obtain hA1 hB1 where r: "hit_blocks step out msk leaving entering half 0 full (H 0) (H half) hA hB =
      Some (H (full * 32), H (half + full * 32), hA1, hB1)"
    and l1: "length (fst hA1) = length a" "length (fst hB1) = length b"
    and h1: "hits_are hA1 (filter (ok_pos L msk H) [0..<Suc (full * 32)])"
      "hits_are hB1 (filter (ok_pos L msk H) [Suc (half - 1)..<Suc (half + full * 32)])"
    using hit_blocks_extends [OF L_def tr full bytes le0 hA hB room] lA lB h by auto
  have "hit_block_lanes step out leaving entering warm n msk a b =
      hit_finish L msk (full * 32) (half - 1) (half + full * 32) n (H (full * 32)) (H (half + full * 32)) hA1 hB1"
    using False hn mA mB warm r
    unfolding hit_block_lanes_def Let_def half_def [symmetric] slice_lane_def [symmetric]
      L_def [symmetric] blockSize_def full_def [symmetric] by simp
  then show ?thesis
    using hit_finish_boundaries [OF tr full(1) _ _ h1 l1 len] full(2) h by (simp add: L_def)
qed

context rolling_hash
begin

lemma hit_block_lanes_window:
  assumes "0 < w" and "n + w = length data"
    and "\<And>off. off + w \<le> length data \<Longrightarrow> warm off = Some (foldl absorb init (window_at w data off))"
    and "n < length a" and "n < length b"
  shows "boundaries_are msk (\<lambda>p. out (foldl absorb init (window_at w data p))) n a b
    (hit_block_lanes (roll w) out (take (n + 1) data) (drop w data) warm n msk a b)"
proof -
  define L where "L = slice_lane (roll w) out (take (n + 1) data) (drop w data)"
  have tr: "traces L (\<lambda>i. foldl absorb init (window_at w data i)) n"
    using assms(1,2) by (intro lane_traces) (auto simp: L_def slice_lane_def idx_def add.commute)
  show ?thesis
    by (rule hit_block_lanes_all [OF L_def tr assms(4,5)]) (use assms(2,3) in simp_all)
qed

end

end
