(* ===== verification/Hash_Iface.thy ===== *)
theory Hash_Iface
  imports Hit_Blocks
begin

text \<open>
  rollinghash.go: the interfaces between the hash packages and the streaming code. A hash is used
  through \<open>hash.Hash\<close> and \<open>Roller\<close> (Reset, Write, Roll, the sum) and through the two batch
  interfaces \<open>hashBatchRoller\<close> and \<open>hashBoundaryRoller\<close>; \<open>hash_iface\<close> collects them. The
  locale \<open>digest\<close> states what every package promises: after any operations the sum is the
  checksum of the current window, and the batch operations give the checksums of all windows.
\<close>

type_synonym 'd batch_roll = "'d \<Rightarrow> u64 list \<Rightarrow> byte list \<Rightarrow> int \<Rightarrow> u64 list option"

type_synonym 'd batch_boundaries = "'d \<Rightarrow> i32 list \<Rightarrow> i32 list \<Rightarrow> byte list \<Rightarrow> int \<Rightarrow> u64 \<Rightarrow>
    (i32 list \<times> i32 list \<times> nat \<times> nat) option"

text \<open>The methods of a hash value. The optional ones are found by a type assertion: \<open>None\<close> is a
  type that does not have the method.\<close>

record 'd hash_iface =
  h_Reset :: "'d \<Rightarrow> 'd option"
  h_Write :: "'d \<Rightarrow> byte list \<Rightarrow> 'd option"
  h_Roll :: "'d \<Rightarrow> byte \<Rightarrow> 'd option"
  h_Sum :: "'d \<Rightarrow> byte list \<Rightarrow> byte list"
  h_Size :: "'d \<Rightarrow> int"
  h_BlockSize :: "'d \<Rightarrow> int"
  h_Sum32 :: "('d \<Rightarrow> u32) option"
  h_Sum64 :: "('d \<Rightarrow> u64) option"
  h_BatchRoll :: "'d batch_roll option"
  h_BatchBoundaries :: "'d batch_boundaries option"

text \<open>The type switch of \<open>newChunkerCore\<close>: how a chunker reads the sum of its hash. A hash with
  neither \<open>Sum64\<close> nor \<open>Sum32\<close> is read through \<open>Sum\<close>, most significant byte first.\<close>

definition be_value :: "byte list \<Rightarrow> u64" where
  "be_value bs = fold (\<lambda>x r. push_bit 8 r OR ucast x) bs 0"

definition core_sum :: "'d hash_iface \<Rightarrow> 'd \<Rightarrow> u64" where
  "core_sum H d =
     (case h_Sum64 H of
        Some Sum64 \<Rightarrow> Sum64 d
      | None \<Rightarrow> (case h_Sum32 H of
          Some Sum32 \<Rightarrow> ucast (Sum32 d)
        | None \<Rightarrow> be_value (h_Sum H d [])))"

text \<open>The operations a caller of \<open>hash.Hash\<close> and \<open>Roller\<close> can make, one after the other; a
  panic ends the run.\<close>

datatype hash_op = OpReset | OpWrite "byte list" | OpRoll byte

fun run_op :: "'d hash_iface \<Rightarrow> hash_op \<Rightarrow> 'd \<Rightarrow> 'd option" where
  "run_op H OpReset d = h_Reset H d"
| "run_op H (OpWrite xs) d = h_Write H d xs"
| "run_op H (OpRoll c) d = h_Roll H d c"

fun run_ops :: "'d hash_iface \<Rightarrow> hash_op list \<Rightarrow> 'd \<Rightarrow> 'd option" where
  "run_ops H [] d = Some d"
| "run_ops H (op # ops) d = do { d \<leftarrow> run_op H op d; run_ops H ops d }"

text \<open>What the operations do to the window, as rollinghash.go documents it: Write appends, Roll
  drops the oldest byte and appends, and Roll on an empty window panics.\<close>

fun window_op :: "hash_op \<Rightarrow> byte list \<Rightarrow> byte list option" where
  "window_op OpReset w = Some []"
| "window_op (OpWrite xs) w = Some (w @ xs)"
| "window_op (OpRoll c) w = (case w of [] \<Rightarrow> None | x # ys \<Rightarrow> Some (ys @ [c]))"

fun window_ops :: "hash_op list \<Rightarrow> byte list \<Rightarrow> byte list option" where
  "window_ops [] w = Some w"
| "window_ops (op # ops) w = do { w \<leftarrow> window_op op w; window_ops ops w }"

text \<open>A package may only support windows of some lengths: \<open>ops_fit\<close> says that no window of a run
  leaves them.\<close>

fun ops_fit :: "(nat \<Rightarrow> bool) \<Rightarrow> hash_op list \<Rightarrow> byte list \<Rightarrow> bool" where
  "ops_fit fits [] w = True"
| "ops_fit fits (op # ops) w =
     (case window_op op w of None \<Rightarrow> True | Some v \<Rightarrow> fits (length v) \<and> ops_fit fits ops v)"

lemma ops_fit_True [simp]: "ops_fit (\<lambda>_. True) ops w"
  by (induction ops arbitrary: w) (auto split: option.splits)

section \<open>The bytes of a sum\<close>

lemma be_value_step:
  "push_bit 8 (drop_bit (k + 8) v) OR ucast (ucast (drop_bit k v) :: byte) = (drop_bit k v :: u64)"
  by (rule bit_word_eqI) (auto simp: bit_simps not_less)

lemma be_value_64:
  fixes v :: u64
  shows "be_value [ucast (drop_bit 56 v), ucast (drop_bit 48 v), ucast (drop_bit 40 v), ucast (drop_bit 32 v),
    ucast (drop_bit 24 v), ucast (drop_bit 16 v), ucast (drop_bit 8 v), ucast v] = v"
  using be_value_step [of 56 v] be_value_step [of 48 v] be_value_step [of 40 v] be_value_step [of 32 v]
    be_value_step [of 24 v] be_value_step [of 16 v] be_value_step [of 8 v] be_value_step [of 0 v]
  by (simp add: be_value_def del: push_bit_numeral)

lemma be_value_32:
  fixes v :: u32
  shows "be_value [ucast (drop_bit 24 v), ucast (drop_bit 16 v), ucast (drop_bit 8 v), ucast v] = ucast v"
proof -
  have step: "push_bit 8 (ucast (drop_bit (k + 8) v)) OR ucast (ucast (drop_bit k v) :: byte) =
      (ucast (drop_bit k v) :: u64)" for k
    by (rule bit_word_eqI) (auto simp: bit_simps not_less)
  have top: "ucast (ucast (drop_bit 24 v) :: byte) = (ucast (drop_bit 24 v) :: u64)"
    by (rule bit_word_eqI) (auto simp: bit_simps dest: bit_imp_le_length)
  show ?thesis
    using step [of 16] step [of 8] step [of 0] top by (simp add: be_value_def del: push_bit_numeral)
qed

text \<open>The bytes of a sum of \<open>n\<close> bytes, most significant first; reading them gives the sum back.\<close>

definition be_bytes :: "int \<Rightarrow> u64 \<Rightarrow> byte list" where
  "be_bytes n v = map (\<lambda>i. ucast (drop_bit (8 * i) v)) (rev [0..<nat n])"

lemma be_bytes_64:
  "be_bytes 8 v = [ucast (drop_bit 56 v), ucast (drop_bit 48 v), ucast (drop_bit 40 v), ucast (drop_bit 32 v),
    ucast (drop_bit 24 v), ucast (drop_bit 16 v), ucast (drop_bit 8 v), ucast v]"
  by (simp add: be_bytes_def upt_rec)

lemma be_bytes_32:
  fixes v :: u32
  shows "be_bytes 4 (ucast v) = [ucast (drop_bit 24 v), ucast (drop_bit 16 v), ucast (drop_bit 8 v), ucast v]"
proof -
  have part: "ucast (drop_bit k (ucast v :: u64)) = (ucast (drop_bit k v) :: byte)" for k
    by (rule bit_word_eqI) (auto simp: bit_simps dest: bit_imp_le_length)
  show ?thesis using part [of 0] part [of 8] part [of 16] part [of 24] by (simp add: be_bytes_def upt_rec)
qed

lemma be_value_bytes: "be_value (be_bytes 8 v) = v" "be_value (be_bytes 4 (ucast (u :: u32))) = ucast u"
  by (simp_all only: be_bytes_64 be_bytes_32 be_value_64 be_value_32)

section \<open>What a hash package promises\<close>

locale digest =
  fixes H :: "'d hash_iface"
    and inv :: "'d \<Rightarrow> bool"
    and win :: "'d \<Rightarrow> byte list"
    and S :: "'d \<Rightarrow> byte list \<Rightarrow> u64"
    and fits :: "nat \<Rightarrow> bool"
  assumes sum_window: "inv d \<Longrightarrow> core_sum H d = S d (win d)"
    and sum_bytes: "inv d \<Longrightarrow> \<exists>bs. h_Sum H d b' = b' @ bs \<and> int (length bs) = h_Size H d \<and> be_value bs = S d (win d)"
    and reset_ok: "inv d \<Longrightarrow> \<exists>d'. h_Reset H d = Some d' \<and> inv d' \<and> win d' = [] \<and> S d' = S d"
    and write_ok: "inv d \<Longrightarrow> fits (length (win d @ xs)) \<Longrightarrow>
      \<exists>d'. h_Write H d xs = Some d' \<and> inv d' \<and> win d' = win d @ xs \<and> S d' = S d"
    and roll_ok: "inv d \<Longrightarrow> win d = x # ys \<Longrightarrow>
      \<exists>d'. h_Roll H d c = Some d' \<and> inv d' \<and> win d' = ys @ [c] \<and> S d' = S d"
    and roll_empty: "inv d \<Longrightarrow> win d = [] \<Longrightarrow> h_Roll H d c = None"
    and batch_roll: "inv d \<Longrightarrow> fits w \<Longrightarrow> 0 < w \<Longrightarrow> n + w = length data \<Longrightarrow> n < length dst \<Longrightarrow>
      \<exists>br. h_BatchRoll H = Some br \<and> br d dst data (int w) =
        Some (map (\<lambda>i. S d (window_at w data i)) [0..<Suc n] @ drop (Suc n) dst)"
    and boundaries: "inv d \<Longrightarrow> fits w \<Longrightarrow> 0 < w \<Longrightarrow> n + w = length data \<Longrightarrow>
      n < length a \<Longrightarrow> n < length b \<Longrightarrow>
      \<exists>brd. h_BatchBoundaries H = Some brd \<and>
        boundaries_are msk (\<lambda>p. S d (window_at w data p)) n a b (brd d a b data (int w) msk)"
begin

lemma run_op_window:
  assumes "inv d" and "window_op op (win d) = Some w" and "fits (length w)"
  shows "\<exists>d'. run_op H op d = Some d' \<and> inv d' \<and> win d' = w \<and> S d' = S d"
proof (cases op)
  case OpReset
  then show ?thesis using assms reset_ok by auto
next
  case (OpWrite xs)
  then show ?thesis using assms write_ok [of d xs] by auto
next
  case (OpRoll c)
  then obtain x ys where "win d = x # ys" and "w = ys @ [c]"
    using assms(2) by (auto split: list.splits)
  then show ?thesis using roll_ok [OF assms(1), of x ys c] OpRoll by auto
qed

lemma run_op_panic: "inv d \<Longrightarrow> window_op op (win d) = None \<Longrightarrow> run_op H op d = None"
  by (cases op) (auto simp: roll_empty split: list.splits)

text \<open>Any run: the window is what the documentation says, and the sum is its checksum.\<close>

lemma run_ops_window:
  "inv d \<Longrightarrow> window_ops ops (win d) = Some w \<Longrightarrow> ops_fit fits ops (win d) \<Longrightarrow>
   \<exists>d'. run_ops H ops d = Some d' \<and> inv d' \<and> win d' = w \<and> S d' = S d \<and> core_sum H d' = S d w"
proof (induction ops arbitrary: d)
  case Nil
  then show ?case by (simp add: sum_window)
next
  case (Cons op ops)
  then obtain v where v: "window_op op (win d) = Some v" and rest: "window_ops ops v = Some w"
    using Cons.prems(2) by (auto split: bind_splits)
  have fit: "fits (length v)" "ops_fit fits ops v" using Cons.prems(3) v by simp_all
  obtain d1 where "run_op H op d = Some d1" and d1: "inv d1" "win d1 = v" "S d1 = S d"
    using run_op_window [OF Cons.prems(1) v fit(1)] by blast
  then show ?case using Cons.IH [OF d1(1)] rest fit by auto
qed

lemma run_ops_panic:
  "inv d \<Longrightarrow> window_ops ops (win d) = None \<Longrightarrow> ops_fit fits ops (win d) \<Longrightarrow> run_ops H ops d = None"
proof (induction ops arbitrary: d)
  case Nil
  then show ?case by simp
next
  case (Cons op ops)
  show ?case
  proof (cases "window_op op (win d)")
    case None
    then show ?thesis using run_op_panic [OF Cons.prems(1)] by simp
  next
    case (Some v)
    have fit: "fits (length v)" "ops_fit fits ops v" using Cons.prems(3) Some by simp_all
    obtain d1 where "run_op H op d = Some d1" and "inv d1" and "win d1 = v"
      using run_op_window [OF Cons.prems(1) Some fit(1)] by blast
    then show ?thesis using Cons.IH [of d1] Cons.prems(2) Some fit by simp
  qed
qed

text \<open>Both together, for a run from an empty window.\<close>

lemma run_ops_result:
  assumes "inv d" and "win d = []" and "ops_fit fits ops []"
  shows "case window_ops ops [] of
      None \<Rightarrow> run_ops H ops d = None
    | Some w \<Rightarrow> \<exists>d'. run_ops H ops d = Some d' \<and> inv d' \<and> win d' = w \<and> core_sum H d' = S d w"
proof (cases "window_ops ops []")
  case None
  then show ?thesis using run_ops_panic [of d ops] assms by simp
next
  case (Some w)
  then show ?thesis using run_ops_window [of d ops w] assms by auto
qed

text \<open>A run that does not panic keeps the invariant and the checksum function.\<close>

lemma run_ops_inv:
  assumes "inv d" and "ops_fit fits ops (win d)" and "run_ops H ops d = Some d'"
  shows "inv d' \<and> S d' = S d"
proof (cases "window_ops ops (win d)")
  case None
  then show ?thesis using run_ops_panic [OF assms(1) _ assms(2)] assms(3) by simp
next
  case (Some w)
  then show ?thesis using run_ops_window [OF assms(1) _ assms(2)] assms(3) by auto
qed

text \<open>The checksum of a window the way the chunker takes it: reset, write, read the sum.\<close>

lemma reset_write_sum:
  assumes "inv d" and "fits (length xs)"
  shows "\<exists>d0 d'. h_Reset H d = Some d0 \<and> h_Write H d0 xs = Some d' \<and> inv d' \<and> S d' = S d \<and> core_sum H d' = S d xs"
proof -
  obtain d0 where d0: "h_Reset H d = Some d0" "inv d0" "win d0 = []" "S d0 = S d"
    using reset_ok [OF assms(1)] by blast
  have "fits (length (win d0 @ xs))" using assms(2) d0 by simp
  then show ?thesis using write_ok [OF d0(2)] d0 sum_window by fastforce
qed

end

end
