(* ===== verification/Bozo64.thy ===== *)
theory Bozo64
  imports Hash_Iface
begin

text \<open>
  bozo64/bozo64.go: the 64-bit version of bozo32, with the default multiplier 4294967291 and the
  power and the window checksum in the helper functions \<open>bozoPow\<close> and \<open>bozoWindow\<close>.
\<close>

section \<open>The digest\<close>

record bozo64 =
  bz64_a :: u64
  bz64_an :: u64
  bz64_value :: u64
  bz64_window :: "byte list"
  bz64_oldest :: nat

definition bozo64_Reset :: "bozo64 \<Rightarrow> bozo64" where
  "bozo64_Reset d = d\<lparr>bz64_value := 0, bz64_an := 1, bz64_oldest := 0, bz64_window := []\<rparr>"

definition bozo64_NewFromInt :: "u64 \<Rightarrow> bozo64" where
  "bozo64_NewFromInt a =
     \<lparr>bz64_a = a, bz64_an = 1, bz64_value = 0, bz64_window = [], bz64_oldest = 0\<rparr>"

definition bozo64_New :: bozo64 where
  "bozo64_New = bozo64_NewFromInt 4294967291"

text \<open>The loop of \<open>Write\<close> over the window: value and power of \<open>a\<close> together.\<close>

definition bozo64_absorb :: "u64 \<Rightarrow> u64 \<Rightarrow> byte \<Rightarrow> u64" where
  "bozo64_absorb a value c = value * a + ucast c"

definition bozo64_scan :: "u64 \<Rightarrow> byte list \<Rightarrow> u64 \<times> u64 \<Rightarrow> u64 \<times> u64" where
  "bozo64_scan a window = fold (\<lambda>c (value, an). (bozo64_absorb a value c, an * a)) window"

definition bozo64_Write :: "bozo64 \<Rightarrow> byte list \<Rightarrow> bozo64 option" where
  "bozo64_Write d data =
     (if length data = 0 then Some d
      else do {
        window \<leftarrow> (if bz64_oldest d \<noteq> 0 then MoveLeft (bz64_window d) (bz64_oldest d)
                   else Some (bz64_window d));
        let window = window @ data;
        let (value, an) = bozo64_scan (bz64_a d) window (0, 1);
        Some (d\<lparr>bz64_window := window, bz64_oldest := 0, bz64_value := value, bz64_an := an\<rparr>)
      })"

definition bozo64_Sum64 :: "bozo64 \<Rightarrow> u64" where
  "bozo64_Sum64 d = bz64_value d"

text \<open>The bytes that \<open>Sum\<close> appends, most significant first.\<close>

definition bozo64_Sum :: "bozo64 \<Rightarrow> byte list \<Rightarrow> byte list" where
  "bozo64_Sum d b =
     (let v = bozo64_Sum64 d in
      b @ [ucast (drop_bit 56 v), ucast (drop_bit 48 v), ucast (drop_bit 40 v), ucast (drop_bit 32 v),
           ucast (drop_bit 24 v), ucast (drop_bit 16 v), ucast (drop_bit 8 v), ucast v])"

definition bozo64_Size :: "bozo64 \<Rightarrow> int" where
  "bozo64_Size d = 8"

definition bozo64_BlockSize :: "bozo64 \<Rightarrow> int" where
  "bozo64_BlockSize d = 1"

lemma bozo64_Sum_bytes: "bozo64_Sum d b = b @ be_bytes (bozo64_Size d) (bozo64_Sum64 d)"
  by (simp add: bozo64_Sum_def bozo64_Size_def be_bytes_64 Let_def)

text \<open>The rolling step: \<open>value*a + enter - leave*an\<close>.\<close>

definition bozo64_roll_step :: "u64 \<Rightarrow> u64 \<Rightarrow> u64 \<Rightarrow> byte \<Rightarrow> byte \<Rightarrow> u64" where
  "bozo64_roll_step a an value leave enter = value * a + ucast enter - ucast leave * an"

definition bozo64_Roll :: "bozo64 \<Rightarrow> byte \<Rightarrow> bozo64 option" where
  "bozo64_Roll d c = do {
     leave \<leftarrow> idx (bz64_window d) (bz64_oldest d);
     let window = (bz64_window d)[bz64_oldest d := c];
     let oldest = bz64_oldest d + 1;
     let oldest = (if length window \<le> oldest then 0 else oldest);
     Some (d\<lparr>bz64_window := window, bz64_oldest := oldest,
              bz64_value := bozo64_roll_step (bz64_a d) (bz64_an d) (bz64_value d) leave c\<rparr>)
   }"

definition bozo64_WriteWindow :: "'w writer \<Rightarrow> 'w \<Rightarrow> bozo64 \<Rightarrow> (int \<times> gerror option \<times> 'w) option" where
  "bozo64_WriteWindow wr w d = window_Write wr w (bz64_window d) (bz64_oldest d)"

text \<open>The weight of the byte that leaves a window of size \<open>n\<close>, and the Horner checksum of a
  window.\<close>

primrec bozoPow :: "u64 \<Rightarrow> nat \<Rightarrow> u64" where
  "bozoPow a 0 = 1"
| "bozoPow a (Suc n) = bozoPow a n * a"

definition bozoWindow :: "byte list \<Rightarrow> u64 \<Rightarrow> u64" where
  "bozoWindow win a = fold (\<lambda>c v. v * a + ucast c) win 0"

text \<open>A lane over \<open>data\<close> with window \<open>w\<close>: \<open>v = v*a + data[i+w] - data[i]*an\<close>. A lane's first value
  is \<open>bozoWindow\<close> of a slice of the data.\<close>

definition bozo64_lane :: "u64 \<Rightarrow> nat \<Rightarrow> byte list \<Rightarrow> u64 lane" where
  "bozo64_lane a w data =
     \<lparr>ln_step = bozo64_roll_step a (bozoPow a w), ln_out = (\<lambda>v. v),
      ln_leave = (\<lambda>i. idx data i), ln_enter = (\<lambda>i. idx data (i + w))\<rparr>"

definition bozo64_warm :: "u64 \<Rightarrow> nat \<Rightarrow> byte list \<Rightarrow> nat \<Rightarrow> u64 option" where
  "bozo64_warm a w data off = do {
     win \<leftarrow> go_slice data (int off) (int (off + w));
     Some (bozoWindow win a)
   }"

definition bozo64_BatchRoll :: "bozo64 \<Rightarrow> u64 list \<Rightarrow> byte list \<Rightarrow> int \<Rightarrow> u64 list option" where
  "bozo64_BatchRoll d dst data window =
     (if window \<le> 0 \<or> int (length data) < window then Some dst
      else
        let w = nat window; a = bz64_a d; n = length data - w
        in roll_lanes (bozo64_lane a w data) (bozo64_warm a w data) n dst)"

definition bozo64_BatchBoundaries :: "bozo64 \<Rightarrow> i32 list \<Rightarrow> i32 list \<Rightarrow> byte list \<Rightarrow> int \<Rightarrow> u64 \<Rightarrow>
    (i32 list \<times> i32 list \<times> nat \<times> nat) option" where
  "bozo64_BatchBoundaries d a b data window msk =
     (if window \<le> 0 \<or> int (length data) < window then Some (a, b, 0, 0)
      else
        let w = nat window; mul = bz64_a d; n = length data - w
        in hit_lanes (bozo64_lane mul w data) (bozo64_warm mul w data) n msk a b)"

section \<open>The rolling law\<close>

text \<open>The checksum of a window: the Horner value of its bytes.\<close>

definition bozo64_hash :: "u64 \<Rightarrow> byte list \<Rightarrow> u64" where
  "bozo64_hash a xs = foldl (bozo64_absorb a) 0 xs"

lemma bozo64_absorb_shift:
  "foldl (bozo64_absorb a) v xs = v * a ^ length xs + foldl (bozo64_absorb a) 0 xs"
proof (induction xs rule: rev_induct)
  case Nil
  then show ?case by simp
next
  case (snoc x xs)
  then show ?case by (simp add: bozo64_absorb_def algebra_simps)
qed

lemma bozoPow_pow: "bozoPow a n = a ^ n"
  by (induction n) (simp_all add: mult.commute)

lemma bozoWindow_hash: "bozoWindow win a = bozo64_hash a win"
  by (simp add: bozoWindow_def bozo64_hash_def foldl_conv_fold bozo64_absorb_def [abs_def])

interpretation bozo64: rolling_hash 0 "bozo64_absorb a" "\<lambda>w. bozo64_roll_step a (a ^ w)" for a
proof
  fix xs x y
  have "foldl (bozo64_absorb a) 0 (x # xs) = ucast x * a ^ length xs + foldl (bozo64_absorb a) 0 xs"
    using bozo64_absorb_shift [of a "ucast x" xs] by (simp add: bozo64_absorb_def)
  then show "bozo64_roll_step a (a ^ Suc (length xs)) (foldl (bozo64_absorb a) 0 (x # xs)) x y =
      foldl (bozo64_absorb a) 0 (xs @ [y])"
    by (simp add: bozo64_roll_step_def bozo64_absorb_def algebra_simps)
qed

section \<open>The digest is a rolling hash of its window\<close>

definition bozo64_window :: "bozo64 \<Rightarrow> byte list" where
  "bozo64_window d = contents (bz64_window d) (bz64_oldest d)"

definition bozo64_inv :: "bozo64 \<Rightarrow> bool" where
  "bozo64_inv d \<longleftrightarrow>
     circ_ok (bz64_window d) (bz64_oldest d) \<and>
     bz64_value d = bozo64_hash (bz64_a d) (bozo64_window d) \<and>
     bz64_an d = bz64_a d ^ length (bz64_window d)"

lemma bozo64_scan_eq:
  "bozo64_scan a xs (v, p) = (foldl (bozo64_absorb a) v xs, p * a ^ length xs)"
  by (induction xs arbitrary: v p) (simp_all add: bozo64_scan_def algebra_simps)

lemma bozo64_New_inv: "bozo64_inv (bozo64_NewFromInt a)" "bozo64_window (bozo64_NewFromInt a) = []"
  by (simp_all add: bozo64_inv_def bozo64_window_def bozo64_NewFromInt_def bozo64_hash_def)

lemma bozo64_Write_ok:
  assumes "bozo64_inv d"
  shows "\<exists>d'. bozo64_Write d xs = Some d' \<and> bozo64_inv d' \<and>
    bozo64_window d' = bozo64_window d @ xs \<and> bz64_a d' = bz64_a d"
proof (cases "xs = []")
  case True
  then show ?thesis using assms by (simp add: bozo64_Write_def)
next
  case False
  have le: "bz64_oldest d \<le> length (bz64_window d)"
    using assms by (simp add: bozo64_inv_def circ_ok_le)
  show ?thesis
    using False le
    by (simp add: bozo64_Write_def MoveLeft_contents bozo64_scan_eq bozo64_inv_def
        bozo64_window_def bozo64_hash_def)
qed

lemma bozo64_Roll_ok:
  assumes inv: "bozo64_inv d" and win: "bozo64_window d = x # ys"
  shows "\<exists>d'. bozo64_Roll d c = Some d' \<and> bozo64_inv d' \<and>
    bozo64_window d' = ys @ [c] \<and> bz64_a d' = bz64_a d"
proof -
  have ok: "circ_ok (bz64_window d) (bz64_oldest d)" and ne: "bz64_window d \<noteq> []"
    using inv win by (auto simp: bozo64_inv_def bozo64_window_def)
  obtain w' o' where p: "circ_push (bz64_window d) (bz64_oldest d) c = (w', o')"
    by fastforce
  note law = bozo64.roll_contents [OF ok ne p, of "bz64_a d"]
  show ?thesis
    using inv win p law contents_push [OF ok ne p] circ_push_ok [OF ok p] length_circ_push [OF p] ok ne
    by (auto simp: bozo64_Roll_def bozo64_inv_def bozo64_window_def bozo64_hash_def
        circ_push_def circ_ok_def idx_def Let_def)
qed

lemma bozo64_Roll_empty: "bozo64_inv d \<Longrightarrow> bozo64_window d = [] \<Longrightarrow> bozo64_Roll d c = None"
  by (simp add: bozo64_Roll_def bozo64_window_def idx_def)

lemma bozo64_lane_step: "ln_step (bozo64_lane a w data) = bozo64_roll_step a (a ^ w)"
  by (simp add: bozo64_lane_def bozoPow_pow)

lemma bozo64_lane_out [simp]: "ln_out (bozo64_lane a w data) = (\<lambda>v. v)"
  by (simp add: bozo64_lane_def)

lemma bozo64_lane_reads:
  assumes "n + w = length data" and "i < n"
  shows "ln_leave (bozo64_lane a w data) i = Some (data ! i)"
    and "ln_enter (bozo64_lane a w data) i = Some (data ! (i + w))"
  using assms by (auto simp: bozo64_lane_def idx_def)

lemma bozo64_warm_window:
  "off + w \<le> length data \<Longrightarrow>
   bozo64_warm a w data off = Some (foldl (bozo64_absorb a) 0 (window_at w data off))"
  by (simp add: bozo64_warm_def go_slice_nat bozoWindow_hash bozo64_hash_def window_at_def
      del: of_nat_add)

definition bozo64_iface :: "bozo64 hash_iface" where
  "bozo64_iface = \<lparr>h_Reset = (\<lambda>d. Some (bozo64_Reset d)), h_Write = bozo64_Write, h_Roll = bozo64_Roll,
     h_Sum = bozo64_Sum, h_Size = bozo64_Size, h_BlockSize = bozo64_BlockSize, h_Sum32 = None, h_Sum64 = Some bozo64_Sum64,
     h_BatchRoll = Some bozo64_BatchRoll, h_BatchBoundaries = Some bozo64_BatchBoundaries\<rparr>"

interpretation bozo64_digest: digest bozo64_iface bozo64_inv bozo64_window
    "\<lambda>d xs. (bozo64_hash (bz64_a d) xs)" "\<lambda>_. True"
proof
  fix d xs x ys c w n data dst a b msk b'
  assume inv: "bozo64_inv d"
  show sum: "core_sum bozo64_iface d = (bozo64_hash (bz64_a d) (bozo64_window d))"
    using inv by (simp add: core_sum_def bozo64_iface_def bozo64_Sum64_def bozo64_inv_def)
  show "\<exists>bs. h_Sum bozo64_iface d b' = b' @ bs \<and> int (length bs) = h_Size bozo64_iface d \<and> be_value bs = (bozo64_hash (bz64_a d) (bozo64_window d))"
    using sum by (simp add: core_sum_def bozo64_iface_def bozo64_Sum_def bozo64_Size_def be_value_64 Let_def)
  show "\<exists>d'. h_Reset bozo64_iface d = Some d' \<and> bozo64_inv d' \<and> bozo64_window d' = [] \<and>
      (\<lambda>xs. (bozo64_hash (bz64_a d') xs)) =
      (\<lambda>xs. (bozo64_hash (bz64_a d) xs) :: u64)"
    by (simp add: bozo64_iface_def bozo64_Reset_def bozo64_inv_def bozo64_window_def bozo64_hash_def)
  show "\<exists>d'. h_Write bozo64_iface d xs = Some d' \<and> bozo64_inv d' \<and>
      bozo64_window d' = bozo64_window d @ xs \<and>
      (\<lambda>xs. (bozo64_hash (bz64_a d') xs) :: u64) = (\<lambda>xs. (bozo64_hash (bz64_a d) xs))"
    using bozo64_Write_ok [OF inv, of xs] by (auto simp: bozo64_iface_def)
  show "\<exists>d'. h_Roll bozo64_iface d c = Some d' \<and> bozo64_inv d' \<and> bozo64_window d' = ys @ [c] \<and>
      (\<lambda>xs. (bozo64_hash (bz64_a d') xs) :: u64) = (\<lambda>xs. (bozo64_hash (bz64_a d) xs))"
    if "bozo64_window d = x # ys"
    using bozo64_Roll_ok [OF inv that, of c] by (auto simp: bozo64_iface_def)
  show "h_Roll bozo64_iface d c = None" if "bozo64_window d = []"
    using bozo64_Roll_empty [OF inv that] by (simp add: bozo64_iface_def)
  show "\<exists>br. h_BatchRoll bozo64_iface = Some br \<and> br d dst data (int w) =
      Some (map (\<lambda>i. (bozo64_hash (bz64_a d) (window_at w data i))) [0..<Suc n] @ drop (Suc n) dst)"
    if w: "0 < w" "n + w = length data" and dst: "n < length dst"
    using bozo64.roll_lanes_window [OF w bozo64_lane_step [of "bz64_a d"] bozo64_lane_reads [OF w(2)]
        bozo64_warm_window dst] w
    by (auto simp: bozo64_iface_def bozo64_BatchRoll_def Let_def bozo64_hash_def nat_eq_diff [OF w(2)] simp del: upt_Suc)
  show "\<exists>brd. h_BatchBoundaries bozo64_iface = Some brd \<and> boundaries_are msk (\<lambda>p. (bozo64_hash (bz64_a d) (window_at w data p))) n a b
      (brd d a b data (int w) msk)"
    if w: "0 < w" "n + w = length data" and ab: "n < length a" "n < length b"
    using bozo64.hit_lanes_window [OF w bozo64_lane_step [of "bz64_a d"] bozo64_lane_reads [OF w(2)]
        bozo64_warm_window ab, of msk] w
    by (auto simp: bozo64_iface_def bozo64_BatchBoundaries_def Let_def bozo64_hash_def nat_eq_diff [OF w(2)] simp del: upt_Suc)
qed

section \<open>Properties\<close>

lemma bozo64_core_sum: "core_sum bozo64_iface d = bozo64_Sum64 d"
  by (simp add: core_sum_def bozo64_iface_def)

lemma bozo64_WriteWindow_ok:
  "bozo64_inv d \<Longrightarrow> bozo64_WriteWindow buffer_Write buf d =
     Some (int (length (bozo64_window d)), None, buf @ bozo64_window d)"
  by (simp add: bozo64_WriteWindow_def bozo64_inv_def bozo64_window_def window_Write_buffer)

text \<open>C22: Any sequence of calls of \<open>Reset\<close>, \<open>Write\<close> and \<open>Roll\<close> on a new hash of bozo64 panics exactly when it
  rolls on an empty window, and otherwise leaves the checksum of the bytes that the calls leave in the
  window, oldest byte first; \<open>WriteWindow\<close> writes exactly these bytes. \<open>Sum\<close> appends its \<open>Size\<close>
  bytes, most significant first.\<close>

theorem bozo64_run:
  "case window_ops ops [] of
     None \<Rightarrow> run_ops bozo64_iface ops (bozo64_NewFromInt a) = None
   | Some w \<Rightarrow> \<exists>d. run_ops bozo64_iface ops (bozo64_NewFromInt a) = Some d \<and> bozo64_Sum64 d = bozo64_hash a w \<and>
       bozo64_Sum d pre = pre @ be_bytes (bozo64_Size d) (bozo64_hash a w) \<and>
       bozo64_WriteWindow buffer_Write buf d = Some (int (length w), None, buf @ w)"
proof -
  define d0 where "d0 = bozo64_NewFromInt a"
  have d0: "bozo64_inv d0" "bozo64_window d0 = []" by (simp_all add: d0_def bozo64_New_inv)
  show ?thesis
    using bozo64_digest.run_ops_result [OF d0, of ops] bozo64_WriteWindow_ok
    by (fastforce simp: bozo64_core_sum bozo64_Sum_bytes d0_def bozo64_NewFromInt_def split: option.splits)
qed

text \<open>C26: \<open>BatchRoll\<close> of bozo64 stores the checksum of every window of the data, in order, and nothing else;
  \<open>BatchBoundaries\<close> reports exactly the windows whose checksum has no bit of the mask, in ascending
  order over its two buffers. No index leaves its slice.\<close>

theorem bozo64_batch:
  assumes "bozo64_inv d" and "0 < w" and "n + w = length data"
    and "n < length dst" and "n < length a" and "n < length b"
  shows "bozo64_BatchRoll d dst data (int w) =
      Some (map (\<lambda>i. bozo64_hash (bz64_a d) (window_at w data i)) [0..<Suc n] @ drop (Suc n) dst) \<and>
    boundaries_are msk (\<lambda>i. bozo64_hash (bz64_a d) (window_at w data i)) n a b
      (bozo64_BatchBoundaries d a b data (int w) msk)"
  using bozo64_digest.batch_roll [OF assms(1) TrueI assms(2,3,4)]
    bozo64_digest.boundaries [OF assms(1) TrueI assms(2,3,5,6), of msk]
  by (simp add: bozo64_iface_def del: upt_Suc)

theorem bozo64_batch_witness:
  "bozo64_BatchRoll (bozo64_NewFromInt 3) [0, 0, 0] [1, 2, 3, 4] 2 =
     Some (map (\<lambda>i. bozo64_hash (bz64_a (bozo64_NewFromInt 3)) (window_at 2 [1, 2, 3, 4] i)) [0..<Suc 2])"
  using bozo64_batch [of "bozo64_NewFromInt 3" 2 2 "[1, 2, 3, 4]" "[0, 0, 0]" "[0, 0, 0]" "[0, 0, 0]"]
  by (simp add: bozo64_New_inv)

end
