(* ===== verification/Buz_Law.thy ===== *)
theory Buz_Law
  imports Hash_Iface
begin

text \<open>
  The arithmetic of the cyclic polynomial hash at any word width, shared by buzhash32 and
  buzhash64: rotations compose and commute with XOR, so rolling is exact, and a run of one byte
  whose length is a multiple of the width collapses to a constant.
\<close>

section \<open>Rotations\<close>

lemma rotl_rotl: "word_rotl m (word_rotl n w) = word_rotl (m + n) w"
proof -
  have "word_rotr (n + m) (word_rotl m (word_rotl n w)) = w"
    by (simp only: word_rotr_word_rotr_eq [symmetric] word_rot_lr)
  then show ?thesis by (simp add: word_rot_gal add.commute)
qed

lemma rotl_0 [simp]: "word_rotl 0 (w :: 'a::len word) = w"
  by (rule bit_word_eqI) (simp add: bit_word_rotl_iff)

lemma rotl_mod: "word_rotl (n mod LENGTH('a)) w = word_rotl n (w :: 'a::len word)"
  by (simp add: word_rotl_eq_word_rotr)

lemma rotl_xor: "word_rotl n (x XOR y) = word_rotl n x XOR word_rotl n y"
  by (rule word_rot_logs)

section \<open>The cyclic polynomial of a window\<close>

definition buz_absorb :: "'a::len word byte_table \<Rightarrow> 'a word \<Rightarrow> byte \<Rightarrow> 'a word" where
  "buz_absorb bh v c = word_rotl 1 v XOR bh c"

definition buz_hash :: "'a::len word byte_table \<Rightarrow> byte list \<Rightarrow> 'a word" where
  "buz_hash bh xs = foldl (buz_absorb bh) 0 xs"

definition buz_roll_step :: "'a::len word byte_table \<Rightarrow> 'a word byte_table \<Rightarrow> 'a word \<Rightarrow> byte \<Rightarrow> byte \<Rightarrow> 'a word" where
  "buz_roll_step bh rotBH v leave enter = word_rotl 1 v XOR rotBH leave XOR bh enter"

lemma buz_absorb_shift:
  "foldl (buz_absorb bh) v xs = word_rotl (length xs) v XOR foldl (buz_absorb bh) 0 xs"
proof (induction xs rule: rev_induct)
  case Nil
  then show ?case by simp
next
  case (snoc x xs)
  then show ?case by (simp add: buz_absorb_def rotl_xor rotl_rotl ac_simps)
qed

lemma buz_hash_append:
  "buz_hash bh (xs @ ys) = word_rotl (length ys) (buz_hash bh xs) XOR buz_hash bh ys"
  by (simp add: buz_hash_def) (rule buz_absorb_shift)

interpretation buz: rolling_hash "0 :: 'a::len word" "buz_absorb bh"
    "\<lambda>w. buz_roll_step bh (\<lambda>b. word_rotl (w mod LENGTH('a)) (bh b))" for bh :: "'a::len word byte_table"
proof
  fix xs x y
  have "foldl (buz_absorb bh) 0 (x # xs) = word_rotl (length xs) (bh x) XOR foldl (buz_absorb bh) 0 xs"
    using buz_absorb_shift [of bh "bh x" xs] by (simp add: buz_absorb_def)
  moreover have "foldl (buz_absorb bh) 0 (xs @ [y]) = word_rotl 1 (foldl (buz_absorb bh) 0 xs) XOR bh y"
    by (simp add: buz_absorb_def)
  ultimately show "buz_roll_step bh (\<lambda>b. word_rotl (Suc (length xs) mod LENGTH('a)) (bh b))
      (foldl (buz_absorb bh) 0 (x # xs)) x y = foldl (buz_absorb bh) 0 (xs @ [y])"
    by (simp add: buz_roll_step_def rotl_mod rotl_xor rotl_rotl ac_simps)
qed

section \<open>The degenerate windows\<close>

text \<open>The number of ones of a word, and the word a run of one byte collapses to.\<close>

definition ones :: "'a::len word \<Rightarrow> nat" where
  "ones w = length (filter (bit w) [0..<LENGTH('a)])"

definition parity_word :: "'a::len word \<Rightarrow> 'a word" where
  "parity_word w = (if odd (ones w) then - 1 else 0)"

lemma rotl_parity_word [simp]: "word_rotl n (parity_word w) = parity_word w"
  by (rule bit_word_eqI) (auto simp: parity_word_def bit_word_rotl_iff)

lemma bit_buz_replicate:
  "i < LENGTH('a) \<Longrightarrow> bit (buz_hash bh (replicate k b)) i \<longleftrightarrow>
   odd (card {j. j < k \<and> bit (word_rotl j (bh b :: 'a::len word)) i})"
proof (induction k)
  case 0
  then show ?case by (simp add: buz_hash_def)
next
  case (Suc k)
  have "buz_hash bh (replicate (Suc k) b) = word_rotl k (bh b) XOR buz_hash bh (replicate k b)"
    using buz_hash_append [of bh "[b]" "replicate k b"] by (simp add: buz_hash_def buz_absorb_def)
  moreover have "{j. j < Suc k \<and> bit (word_rotl j (bh b)) i} =
      {j. j < k \<and> bit (word_rotl j (bh b)) i} \<union> (if bit (word_rotl k (bh b)) i then {k} else {})"
    by (auto simp: less_Suc_eq)
  ultimately show ?case using Suc by (auto simp: bit_xor_iff)
qed

text \<open>Position \<open>i\<close> of the rotations by \<open>0 .. width-1\<close> runs through every bit once.\<close>

lemma card_rotations:
  assumes "i < LENGTH('a)"
  shows "card {j. j < LENGTH('a) \<and> bit (word_rotl j (w :: 'a::len word)) i} = ones w"
proof -
  define L where "L = LENGTH('a)"
  define f where "f = (\<lambda>j. (i + (L - j)) mod L)"
  have L: "0 < L" "i < L" using assms by (simp_all add: L_def)
  have b: "bit (word_rotl j w) i \<longleftrightarrow> bit w (f j)" if "j < L" for j
    using that L by (simp add: bit_word_rotl_iff f_def L_def)
  have inj: "inj_on f {..<L}"
  proof (rule inj_onI)
    fix j k assume "j \<in> {..<L}" "k \<in> {..<L}" and eq: "f j = f k"
    then have jk: "j < L" "k < L" by simp_all
    have "(f j + j) mod L = i mod L" "(f k + k) mod L = i mod L"
      using jk by (simp_all add: f_def mod_simps)
    then have "(f j + j) mod L = (f j + k) mod L" using eq by simp
    then have "int (f j + j) mod int L = int (f j + k) mod int L"
      by (simp only: of_nat_mod [symmetric])
    then have d: "int L dvd int j - int k" by (simp add: mod_eq_dvd_iff)
    then have "int L dvd int k - int j" by (simp add: dvd_diff_commute)
    with d show "j = k"
      using jk zdvd_imp_le [of "int L" "int j - int k"] zdvd_imp_le [of "int L" "int k - int j"]
      by linarith
  qed
  have img: "f ` {..<L} = {..<L}"
    using inj L by (intro endo_inj_surj) (auto simp: f_def)
  have "f ` {j \<in> {..<L}. bit (word_rotl j w) i} = {m \<in> f ` {..<L}. bit w m}"
    using b by auto
  moreover have "inj_on f {j \<in> {..<L}. bit (word_rotl j w) i}"
    using inj by (rule inj_on_subset) auto
  ultimately have "card {j \<in> {..<L}. bit (word_rotl j w) i} = card {m \<in> {..<L}. bit w m}"
    unfolding img by (metis (no_types, lifting) card_image)
  moreover have "ones w = card (set (filter (bit w) [0..<L]))"
    unfolding ones_def L_def by (simp only: distinct_card distinct_filter distinct_upt)
  moreover have "set (filter (bit w) [0..<L]) = {m \<in> {..<L}. bit w m}" by auto
  ultimately show ?thesis by (simp add: L_def)
qed

lemma buz_hash_run_word: "buz_hash bh (replicate LENGTH('a) b) = parity_word (bh b :: 'a::len word)"
  by (rule bit_word_eqI) (auto simp: bit_buz_replicate card_rotations parity_word_def)

lemma buz_hash_run:
  "buz_hash bh (replicate (m * LENGTH('a)) b) = (if odd m then parity_word (bh b :: 'a::len word) else 0)"
proof (induction m)
  case 0
  then show ?case by (simp add: buz_hash_def)
next
  case (Suc m)
  have "replicate (Suc m * LENGTH('a)) b = replicate LENGTH('a) b @ replicate (m * LENGTH('a)) b"
    by (simp add: replicate_add)
  then show ?case using Suc by (simp add: buz_hash_append buz_hash_run_word)
qed

end
