(* ===== verification/Buzhash32.thy ===== *)
theory Buzhash32
  imports Buz_Law
begin

text \<open>
  buzhash32/buzhash32.go: the cyclic polynomial hash on 32-bit words. \<open>buzhash32\<close> is the struct
  \<open>Buzhash32\<close>: the table \<open>bytehash\<close>, the cached table \<open>rotBH\<close> of the same words rotated by
  the window length, the sum and the circular buffer. The random source of \<open>GenerateHashes\<close> is a
  parameter: the list of its draws.
\<close>

section \<open>The table of byte hashes\<close>

text \<open>\<open>x := uint32(random.Int63()); for used[x] { x = ... }\<close>: the first draw not yet used, and the
  draws after it; \<open>None\<close> when the draws end before one is found.\<close>

fun buzhash32_draw :: "u64 list \<Rightarrow> (u32 \<rightharpoonup> bool) \<Rightarrow> (u32 \<times> u64 list) option" where
  "buzhash32_draw [] used = None"
| "buzhash32_draw (r # random) used =
     (let x = ucast r in if used x = Some True then buzhash32_draw random used else Some (x, random))"

primrec buzhash32_fill :: "nat \<Rightarrow> u64 list \<Rightarrow> (u32 \<rightharpoonup> bool) \<Rightarrow> u32 list option" where
  "buzhash32_fill 0 random used = Some []"
| "buzhash32_fill (Suc n) random used = do {
     (x, random) \<leftarrow> buzhash32_draw random used;
     res \<leftarrow> buzhash32_fill n random (used(x \<mapsto> True));
     Some (x # res)
   }"

definition buzhash32_GenerateHashes :: "u64 list \<Rightarrow> u32 byte_table option" where
  "buzhash32_GenerateHashes random = do {
     res \<leftarrow> buzhash32_fill 256 random Map.empty;
     Some (\<lambda>i. res ! unat i)
   }"

section \<open>The digest\<close>

record buzhash32 =
  bh32_sum :: u32
  bh32_nRotate :: nat
  bh32_window :: "byte list"
  bh32_oldest :: nat
  bh32_bytehash :: "u32 byte_table"
  bh32_rotBH :: "u32 byte_table"

definition buzhash32_Reset :: "buzhash32 \<Rightarrow> buzhash32" where
  "buzhash32_Reset d = d\<lparr>bh32_window := [], bh32_oldest := 0, bh32_sum := 0\<rparr>"

definition buzhash32_NewFromUint32Array :: "u32 byte_table \<Rightarrow> buzhash32" where
  "buzhash32_NewFromUint32Array b =
     \<lparr>bh32_sum = 0, bh32_nRotate = 0, bh32_window = [], bh32_oldest = 0,
      bh32_bytehash = b, bh32_rotBH = (\<lambda>_. 0)\<rparr>"

text \<open>\<open>New()\<close> uses the table \<open>defaultHashes\<close>, which \<open>init\<close> fills with \<open>GenerateHashes(1)\<close>.\<close>

definition buzhash32_New :: "u64 list \<Rightarrow> buzhash32 option" where
  "buzhash32_New random = do {
     defaultHashes \<leftarrow> buzhash32_GenerateHashes random;
     Some (buzhash32_NewFromUint32Array defaultHashes)
   }"

definition buzhash32_Write :: "buzhash32 \<Rightarrow> byte list \<Rightarrow> buzhash32 option" where
  "buzhash32_Write d data =
     (if length data = 0 then Some d
      else do {
        window \<leftarrow> (if bh32_oldest d \<noteq> 0 then MoveLeft (bh32_window d) (bh32_oldest d)
                   else Some (bh32_window d));
        let window = window @ data;
        let sum = fold (\<lambda>c sum. word_rotl 1 sum XOR bh32_bytehash d c) window 0;
        let nRotate = length window mod 32;
        Some (d\<lparr>bh32_window := window, bh32_oldest := 0, bh32_sum := sum, bh32_nRotate := nRotate,
                 bh32_rotBH := (\<lambda>i. word_rotl nRotate (bh32_bytehash d i))\<rparr>)
      })"

definition buzhash32_Sum32 :: "buzhash32 \<Rightarrow> u32" where
  "buzhash32_Sum32 d = bh32_sum d"

definition buzhash32_Sum :: "buzhash32 \<Rightarrow> byte list \<Rightarrow> byte list" where
  "buzhash32_Sum d b =
     (let v = buzhash32_Sum32 d in
      b @ [ucast (drop_bit 24 v), ucast (drop_bit 16 v), ucast (drop_bit 8 v), ucast v])"

definition buzhash32_Size :: "buzhash32 \<Rightarrow> int" where
  "buzhash32_Size d = 4"

definition buzhash32_BlockSize :: "buzhash32 \<Rightarrow> int" where
  "buzhash32_BlockSize d = 1"

lemma buzhash32_Sum_bytes: "buzhash32_Sum d b = b @ be_bytes (buzhash32_Size d) (ucast (buzhash32_Sum32 d))"
  by (simp add: buzhash32_Sum_def buzhash32_Size_def be_bytes_32 Let_def)

definition buzhash32_Roll :: "buzhash32 \<Rightarrow> byte \<Rightarrow> buzhash32 option" where
  "buzhash32_Roll d c = do {
     let hn = bh32_bytehash d c;
     leave \<leftarrow> idx (bh32_window d) (bh32_oldest d);
     let h0 = bh32_rotBH d leave;
     let window = (bh32_window d)[bh32_oldest d := c];
     let oldest = bh32_oldest d + 1;
     let oldest = (if length window \<le> oldest then 0 else oldest);
     Some (d\<lparr>bh32_window := window, bh32_oldest := oldest,
              bh32_sum := word_rotl 1 (bh32_sum d) XOR h0 XOR hn\<rparr>)
   }"

definition buzhash32_WriteWindow ::
    "'w writer \<Rightarrow> 'w \<Rightarrow> buzhash32 \<Rightarrow> (int \<times> gerror option \<times> 'w) option" where
  "buzhash32_WriteWindow wr w d = window_Write wr w (bh32_window d) (bh32_oldest d)"

text \<open>\<open>for i, h := range bh { rotBH[i] = RotateLeft32(h, nRotate) }\<close>\<close>

definition buzhash32_rotated :: "u32 byte_table \<Rightarrow> nat \<Rightarrow> u32 byte_table" where
  "buzhash32_rotated bh nRotate = (\<lambda>i. word_rotl nRotate (bh i))"

text \<open>A lane step \<open>v = RotateLeft32(v, 1) ^ rotBH[leave] ^ bh[enter]\<close>.\<close>

definition buzhash32_step :: "u32 byte_table \<Rightarrow> u32 byte_table \<Rightarrow> u32 \<Rightarrow> byte \<Rightarrow> byte \<Rightarrow> u32" where
  "buzhash32_step bh rotBH v leave enter = word_rotl 1 v XOR rotBH leave XOR bh enter"

definition buzhash32_BatchRoll :: "buzhash32 \<Rightarrow> u64 list \<Rightarrow> byte list \<Rightarrow> int \<Rightarrow> u64 list option" where
  "buzhash32_BatchRoll d dst data window =
     (if window \<le> 0 \<or> int (length data) < window then Some dst
      else
        let w = nat window; bh = bh32_bytehash d; rotBH = buzhash32_rotated bh (w mod 32);
            n = length data - w in do {
          leaving \<leftarrow> go_slice data 0 (int (n + 1));
          entering \<leftarrow> go_slice data (int w) (int (length data));
          roll_lanes
            \<lparr>ln_step = buzhash32_step bh rotBH, ln_out = ucast,
             ln_leave = idx leaving, ln_enter = idx entering\<rparr>
            (\<lambda>off. warm_from (\<lambda>v c. word_rotl 1 v XOR bh c) data off 0 w 0) n dst
        })"

definition buzhash32_BatchBoundaries :: "buzhash32 \<Rightarrow> i32 list \<Rightarrow> i32 list \<Rightarrow> byte list \<Rightarrow> int \<Rightarrow> u64 \<Rightarrow>
    (i32 list \<times> i32 list \<times> nat \<times> nat) option" where
  "buzhash32_BatchBoundaries d a b data window msk =
     (if window \<le> 0 \<or> int (length data) < window then Some (a, b, 0, 0)
      else
        let w = nat window; bh = bh32_bytehash d; rotBH = buzhash32_rotated bh (w mod 32);
            n = length data - w in do {
          leaving \<leftarrow> go_slice data 0 (int (n + 1));
          entering \<leftarrow> go_slice data (int w) (int (length data));
          hit_block_lanes (buzhash32_step bh rotBH) ucast leaving entering
            (\<lambda>off. warm_from (\<lambda>v c. word_rotl 1 v XOR bh c) data off 0 w 0) n msk a b
        })"

section \<open>The digest is a rolling hash of its window\<close>

definition buzhash32_window :: "buzhash32 \<Rightarrow> byte list" where
  "buzhash32_window d = contents (bh32_window d) (bh32_oldest d)"

text \<open>The rotated table is only meaningful once a window is written; Reset leaves it stale.\<close>

definition buzhash32_inv :: "buzhash32 \<Rightarrow> bool" where
  "buzhash32_inv d \<longleftrightarrow>
     circ_ok (bh32_window d) (bh32_oldest d) \<and>
     bh32_sum d = buz_hash (bh32_bytehash d) (buzhash32_window d) \<and>
     (bh32_window d \<noteq> [] \<longrightarrow>
        bh32_rotBH d = buzhash32_rotated (bh32_bytehash d) (length (bh32_window d) mod 32))"

lemma buzhash32_absorb: "(\<lambda>v c. word_rotl (Suc 0) v XOR bh c) = buz_absorb bh"
  by (simp add: buz_absorb_def [abs_def])

lemma buzhash32_fold:
  "fold (\<lambda>c v. word_rotl (Suc 0) v XOR bh c) ys (fold (\<lambda>c v. word_rotl (Suc 0) v XOR bh c) xs 0) =
   buz_hash bh (xs @ ys)"
  by (simp add: buz_hash_def foldl_conv_fold buz_absorb_def [abs_def])

lemma buzhash32_step_eq: "buzhash32_step = buz_roll_step"
  by (intro ext) (simp add: buzhash32_step_def buz_roll_step_def)

lemma buzhash32_rotated_eq:
  "buzhash32_rotated bh (w mod 32) = (\<lambda>b. word_rotl (w mod LENGTH(32)) (bh b))"
  by (simp add: buzhash32_rotated_def)

lemma buzhash32_New_inv:
  "buzhash32_inv (buzhash32_NewFromUint32Array b)"
  "buzhash32_window (buzhash32_NewFromUint32Array b) = []"
  by (simp_all add: buzhash32_inv_def buzhash32_window_def buzhash32_NewFromUint32Array_def buz_hash_def)

lemma buzhash32_Write_ok:
  assumes "buzhash32_inv d"
  shows "\<exists>d'. buzhash32_Write d xs = Some d' \<and> buzhash32_inv d' \<and>
    buzhash32_window d' = buzhash32_window d @ xs \<and> bh32_bytehash d' = bh32_bytehash d"
proof (cases "xs = []")
  case True
  then show ?thesis using assms by (simp add: buzhash32_Write_def)
next
  case False
  have le: "bh32_oldest d \<le> length (bh32_window d)"
    using assms by (simp add: buzhash32_inv_def circ_ok_le)
  show ?thesis
    using False le
    by (simp add: buzhash32_Write_def MoveLeft_contents buzhash32_inv_def Let_def
        buzhash32_window_def buzhash32_fold buzhash32_rotated_def)
qed

lemma buzhash32_Roll_ok:
  assumes inv: "buzhash32_inv d" and win: "buzhash32_window d = x # ys"
  shows "\<exists>d'. buzhash32_Roll d c = Some d' \<and> buzhash32_inv d' \<and>
    buzhash32_window d' = ys @ [c] \<and> bh32_bytehash d' = bh32_bytehash d"
proof -
  have ok: "circ_ok (bh32_window d) (bh32_oldest d)" and ne: "bh32_window d \<noteq> []"
    using inv win by (auto simp: buzhash32_inv_def buzhash32_window_def)
  obtain w' o' where p: "circ_push (bh32_window d) (bh32_oldest d) c = (w', o')"
    by fastforce
  note law = buz.roll_contents [OF ok ne p, of "bh32_bytehash d"]
  show ?thesis
    using inv win p law contents_push [OF ok ne p] circ_push_ok [OF ok p] length_circ_push [OF p] ok ne
    by (auto simp: buzhash32_Roll_def buzhash32_inv_def buzhash32_window_def buz_hash_def
        buz_roll_step_def buzhash32_rotated_def circ_push_def circ_ok_def idx_def Let_def)
qed

lemma buzhash32_Roll_empty: "buzhash32_inv d \<Longrightarrow> buzhash32_window d = [] \<Longrightarrow> buzhash32_Roll d c = None"
  by (simp add: buzhash32_Roll_def buzhash32_window_def idx_def)

definition buzhash32_iface :: "buzhash32 hash_iface" where
  "buzhash32_iface = \<lparr>h_Reset = (\<lambda>d. Some (buzhash32_Reset d)), h_Write = buzhash32_Write, h_Roll = buzhash32_Roll,
     h_Sum = buzhash32_Sum, h_Size = buzhash32_Size, h_BlockSize = buzhash32_BlockSize, h_Sum32 = Some buzhash32_Sum32, h_Sum64 = None,
     h_BatchRoll = Some buzhash32_BatchRoll, h_BatchBoundaries = Some buzhash32_BatchBoundaries\<rparr>"

lemma buzhash32_BatchRoll_windows:
  assumes w: "0 < w" "n + w = length data" and dst: "n < length dst"
  shows "buzhash32_BatchRoll d dst data (int w) =
    Some (map (\<lambda>i. ucast (buz_hash (bh32_bytehash d) (window_at w data i))) [0..<Suc n] @ drop (Suc n) dst)"
proof -
  define bh where "bh = bh32_bytehash d"
  define L where "L = \<lparr>ln_step = buzhash32_step bh (buzhash32_rotated bh (w mod 32)), ln_out = ucast,
      ln_leave = idx (take (Suc n) data), ln_enter = idx (drop w data)\<rparr>"
  have "roll_lanes L (\<lambda>off. warm_from (buz_absorb bh) data off 0 w 0) n dst =
      Some (map (\<lambda>i. ln_out L (foldl (buz_absorb bh) 0 (window_at w data i))) [0..<Suc n] @ drop (Suc n) dst)"
    using w by (intro buz.roll_lanes_window [OF w _ _ _ warm_from_window dst])
      (auto simp: L_def buzhash32_step_eq buzhash32_rotated_eq idx_def add.commute)
  then show ?thesis
    using w by (simp add: buzhash32_BatchRoll_def buzhash32_absorb L_def bh_def [symmetric] buz_hash_def
        nat_eq_diff [OF w(2)] go_slice_def Let_def nat_add_distrib del: upt_Suc)
qed

lemma buzhash32_BatchBoundaries_windows:
  assumes w: "0 < w" "n + w = length data" and ab: "n < length a" "n < length b"
  shows "boundaries_are msk (\<lambda>p. ucast (buz_hash (bh32_bytehash d) (window_at w data p))) n a b
    (buzhash32_BatchBoundaries d a b data (int w) msk)"
  using buz.hit_block_lanes_window [where bh = "bh32_bytehash d" and out = ucast and msk = msk,
      OF w warm_from_window ab] w
  by (simp add: buzhash32_BatchBoundaries_def buzhash32_absorb buzhash32_step_eq buzhash32_rotated_eq
      buz_hash_def nat_eq_diff [OF w(2)] go_slice_def Let_def nat_add_distrib del: upt_Suc)

interpretation buzhash32_digest: digest buzhash32_iface buzhash32_inv buzhash32_window
    "\<lambda>d xs. ucast (buz_hash (bh32_bytehash d) xs)" "\<lambda>_. True"
proof
  fix d xs x ys c w n data dst a b msk b'
  assume inv: "buzhash32_inv d"
  show sum: "core_sum buzhash32_iface d = ucast (buz_hash (bh32_bytehash d) (buzhash32_window d))"
    using inv by (simp add: core_sum_def buzhash32_iface_def buzhash32_Sum32_def buzhash32_inv_def)
  show "\<exists>bs. h_Sum buzhash32_iface d b' = b' @ bs \<and> int (length bs) = h_Size buzhash32_iface d \<and> be_value bs = ucast (buz_hash (bh32_bytehash d) (buzhash32_window d))"
    using sum by (simp add: core_sum_def buzhash32_iface_def buzhash32_Sum_def buzhash32_Size_def be_value_32 Let_def)
  show "\<exists>d'. h_Reset buzhash32_iface d = Some d' \<and> buzhash32_inv d' \<and> buzhash32_window d' = [] \<and>
      (\<lambda>xs. ucast (buz_hash (bh32_bytehash d') xs)) =
      (\<lambda>xs. ucast (buz_hash (bh32_bytehash d) xs) :: u64)"
    by (simp add: buzhash32_iface_def buzhash32_Reset_def buzhash32_inv_def buzhash32_window_def buz_hash_def)
  show "\<exists>d'. h_Write buzhash32_iface d xs = Some d' \<and> buzhash32_inv d' \<and>
      buzhash32_window d' = buzhash32_window d @ xs \<and>
      (\<lambda>xs. ucast (buz_hash (bh32_bytehash d') xs) :: u64) = (\<lambda>xs. ucast (buz_hash (bh32_bytehash d) xs))"
    using buzhash32_Write_ok [OF inv, of xs] by (auto simp: buzhash32_iface_def)
  show "\<exists>d'. h_Roll buzhash32_iface d c = Some d' \<and> buzhash32_inv d' \<and> buzhash32_window d' = ys @ [c] \<and>
      (\<lambda>xs. ucast (buz_hash (bh32_bytehash d') xs) :: u64) = (\<lambda>xs. ucast (buz_hash (bh32_bytehash d) xs))"
    if "buzhash32_window d = x # ys"
    using buzhash32_Roll_ok [OF inv that, of c] by (auto simp: buzhash32_iface_def)
  show "h_Roll buzhash32_iface d c = None" if "buzhash32_window d = []"
    using buzhash32_Roll_empty [OF inv that] by (simp add: buzhash32_iface_def)
  show "\<exists>br. h_BatchRoll buzhash32_iface = Some br \<and> br d dst data (int w) =
      Some (map (\<lambda>i. ucast (buz_hash (bh32_bytehash d) (window_at w data i))) [0..<Suc n] @ drop (Suc n) dst)"
    if "0 < w" "n + w = length data" "n < length dst"
    using buzhash32_BatchRoll_windows [OF that] by (simp add: buzhash32_iface_def)
  show "\<exists>brd. h_BatchBoundaries buzhash32_iface = Some brd \<and> boundaries_are msk (\<lambda>p. ucast (buz_hash (bh32_bytehash d) (window_at w data p))) n a b
      (brd d a b data (int w) msk)"
    if "0 < w" "n + w = length data" "n < length a" "n < length b"
    using buzhash32_BatchBoundaries_windows [OF that] by (simp add: buzhash32_iface_def)
qed

section \<open>GenerateHashes\<close>

lemma buzhash32_draw_new:
  "buzhash32_draw random used = Some (x, random') \<Longrightarrow> used x \<noteq> Some True"
  by (induction random used rule: buzhash32_draw.induct) (auto simp: Let_def split: if_splits)

text \<open>No value repeats, and none is one that was used before.\<close>

lemma buzhash32_fill_distinct:
  "buzhash32_fill n random used = Some res \<Longrightarrow>
   length res = n \<and> distinct res \<and> (\<forall>x \<in> set res. used x \<noteq> Some True)"
proof (induction n arbitrary: random used res)
  case 0
  then show ?case by simp
next
  case (Suc n)
  then obtain x random' rest where d: "buzhash32_draw random used = Some (x, random')"
    and f: "buzhash32_fill n random' (used(x \<mapsto> True)) = Some rest" and res: "res = x # rest"
    by (auto split: bind_splits)
  show ?case using Suc.IH [OF f] buzhash32_draw_new [OF d] by (auto simp: res split: if_splits)
qed

lemma buzhash32_GenerateHashes_inj:
  assumes "buzhash32_GenerateHashes random = Some table"
  shows "inj table"
proof -
  obtain res where f: "buzhash32_fill 256 random Map.empty = Some res"
    and t: "table = (\<lambda>i. res ! unat i)"
    using assms by (auto simp: buzhash32_GenerateHashes_def split: bind_splits)
  have "length res = 256" and d: "distinct res"
    using buzhash32_fill_distinct [OF f] by auto
  then have "unat i < length res" for i :: byte
    using unsigned_less [of i] by simp
  then show ?thesis
    unfolding t by (auto simp: inj_def nth_eq_iff_index_eq [OF d] intro: word_unat_eq_iff [THEN iffD2])
qed

text \<open>The search for an unused value ends as soon as the source has drawn enough distinct values.\<close>

lemma buzhash32_draw_ends:
  assumes "\<exists>r \<in> ucast ` set random. used r \<noteq> Some True"
  shows "\<exists>x random'. buzhash32_draw random used = Some (x, random') \<and>
    ucast ` set random - {r. used r = Some True} \<subseteq> insert x (ucast ` set random')"
  using assms
  by (induction random used rule: buzhash32_draw.induct) (auto simp: Let_def)

lemma buzhash32_fill_ends:
  "n \<le> card (ucast ` set random - {r. used r = Some True}) \<Longrightarrow> \<exists>res. buzhash32_fill n random used = Some res"
proof (induction n arbitrary: random used)
  case 0
  then show ?case by simp
next
  case (Suc n)
  let ?fresh = "\<lambda>random used. ucast ` set random - {r. used r = Some True} :: u32 set"
  have "?fresh random used \<noteq> {}"
    using Suc.prems by (metis card.empty not_less_eq_eq zero_le)
  then obtain x random' where d: "buzhash32_draw random used = Some (x, random')"
    and sub: "?fresh random used \<subseteq> insert x (ucast ` set random')"
    using buzhash32_draw_ends [of random used] by blast
  define T where "T = ?fresh random' (used(x \<mapsto> True))"
  have T: "finite T" by (simp add: T_def)
  have "?fresh random used \<subseteq> insert x T"
    using sub by (auto simp: T_def)
  then have "card (?fresh random used) \<le> card (insert x T)"
    using T by (intro card_mono) simp_all
  then have "n \<le> card T"
    using Suc.prems T by (simp add: card_insert_if split: if_splits)
  then obtain rest where "buzhash32_fill n random' (used(x \<mapsto> True)) = Some rest"
    using Suc.IH unfolding T_def by blast
  then show ?case using d by simp
qed

lemma buzhash32_GenerateHashes_ends:
  assumes "256 \<le> card (ucast ` set random :: u32 set)"
  shows "\<exists>table. buzhash32_GenerateHashes random = Some table"
  using buzhash32_fill_ends [of 256 random Map.empty] assms
  by (auto simp: buzhash32_GenerateHashes_def)

section \<open>Properties\<close>

lemma buzhash32_core_sum: "core_sum buzhash32_iface d = ucast (buzhash32_Sum32 d)"
  by (simp add: core_sum_def buzhash32_iface_def)

lemma buzhash32_WriteWindow_ok:
  "buzhash32_inv d \<Longrightarrow> buzhash32_WriteWindow buffer_Write buf d =
     Some (int (length (buzhash32_window d)), None, buf @ buzhash32_window d)"
  by (simp add: buzhash32_WriteWindow_def buzhash32_inv_def buzhash32_window_def window_Write_buffer)

text \<open>C23: Any sequence of calls of \<open>Reset\<close>, \<open>Write\<close> and \<open>Roll\<close> on a new hash of buzhash32 panics exactly when it
  rolls on an empty window, and otherwise leaves the checksum of the bytes that the calls leave in the
  window, oldest byte first; \<open>WriteWindow\<close> writes exactly these bytes. \<open>Sum\<close> appends its \<open>Size\<close>
  bytes, most significant first.\<close>

theorem buzhash32_run:
  "case window_ops ops [] of
     None \<Rightarrow> run_ops buzhash32_iface ops (buzhash32_NewFromUint32Array a) = None
   | Some w \<Rightarrow> \<exists>d. run_ops buzhash32_iface ops (buzhash32_NewFromUint32Array a) = Some d \<and> buzhash32_Sum32 d = buz_hash a w \<and>
       buzhash32_Sum d pre = pre @ be_bytes (buzhash32_Size d) (ucast (buz_hash a w)) \<and>
       buzhash32_WriteWindow buffer_Write buf d = Some (int (length w), None, buf @ w)"
proof -
  define d0 where "d0 = buzhash32_NewFromUint32Array a"
  have d0: "buzhash32_inv d0" "buzhash32_window d0 = []" by (simp_all add: d0_def buzhash32_New_inv)
  show ?thesis
    using buzhash32_digest.run_ops_result [OF d0, of ops] buzhash32_WriteWindow_ok
    by (fastforce simp: buzhash32_core_sum buzhash32_Sum_bytes d0_def buzhash32_NewFromUint32Array_def split: option.splits)
qed

text \<open>C27: \<open>BatchRoll\<close> of buzhash32 stores the checksum of every window of the data, in order, and nothing else;
  \<open>BatchBoundaries\<close> reports exactly the windows whose checksum has no bit of the mask, in ascending
  order over its two buffers. No index leaves its slice.\<close>

theorem buzhash32_batch:
  assumes "buzhash32_inv d" and "0 < w" and "n + w = length data"
    and "n < length dst" and "n < length a" and "n < length b"
  shows "buzhash32_BatchRoll d dst data (int w) =
      Some (map (\<lambda>i. ucast (buz_hash (bh32_bytehash d) (window_at w data i))) [0..<Suc n] @ drop (Suc n) dst) \<and>
    boundaries_are msk (\<lambda>i. ucast (buz_hash (bh32_bytehash d) (window_at w data i))) n a b
      (buzhash32_BatchBoundaries d a b data (int w) msk)"
  using buzhash32_digest.batch_roll [OF assms(1) TrueI assms(2,3,4)]
    buzhash32_digest.boundaries [OF assms(1) TrueI assms(2,3,5,6), of msk]
  by (simp add: buzhash32_iface_def del: upt_Suc)

theorem buzhash32_batch_witness:
  "buzhash32_BatchRoll (buzhash32_NewFromUint32Array ucast) [0, 0, 0] [1, 2, 3, 4] 2 =
     Some (map (\<lambda>i. ucast (buz_hash (bh32_bytehash (buzhash32_NewFromUint32Array ucast)) (window_at 2 [1, 2, 3, 4] i))) [0..<Suc 2])"
  using buzhash32_batch [of "buzhash32_NewFromUint32Array ucast" 2 2 "[1, 2, 3, 4]" "[0, 0, 0]" "[0, 0, 0]" "[0, 0, 0]"]
  by (simp add: buzhash32_New_inv)

text \<open>\<open>GenerateHashes\<close> returns as soon as its random source has drawn 256 distinct values, and no two
  bytes get the same word.\<close>

theorem buzhash32_GenerateHashes_ok:
  assumes "256 \<le> card (ucast ` set random :: u32 set)"
  shows "\<exists>table. buzhash32_GenerateHashes random = Some table \<and> inj table"
  using buzhash32_GenerateHashes_ends [OF assms] buzhash32_GenerateHashes_inj by blast

theorem buzhash32_GenerateHashes_ok_witness:
  "\<exists>table. buzhash32_GenerateHashes (map word_of_nat [0..<256]) = Some table \<and> inj table"
proof (rule buzhash32_GenerateHashes_ok)
  have "inj_on (word_of_nat :: nat \<Rightarrow> u32) {..<256}"
    by (rule inj_onI) (simp add: word_of_nat_eq_iff take_bit_nat_eq_self)
  moreover have "(ucast ` set (map word_of_nat [0..<256] :: u64 list) :: u32 set) = word_of_nat ` {..<256}"
  proof -
    have "(ucast (word_of_nat k :: u64) :: u32) = word_of_nat k" for k
      by (rule bit_word_eqI) (simp add: bit_simps)
    then show ?thesis by (simp add: image_image atLeast0LessThan)
  qed
  ultimately show "256 \<le> card (ucast ` set (map word_of_nat [0..<256] :: u64 list) :: u32 set)"
    by (simp add: card_image)
qed

text \<open>The degenerate windows of the package comment: after writing a run of one byte whose length is
  a multiple of 32, the sum keeps nothing of the byte but the parity of its table word. It is zero
  for even multiples, and for odd ones all ones or zero: zero when the word has an even number of
  ones, which the comment does not say.\<close>

theorem buzhash32_degenerate:
  "\<exists>d. run_ops buzhash32_iface [OpWrite (replicate (m * 32) x)] (buzhash32_NewFromUint32Array table) = Some d \<and>
     buzhash32_Sum32 d = (if odd m then if odd (ones (table x)) then - 1 else 0 else 0)"
proof -
  define d0 where "d0 = buzhash32_NewFromUint32Array table"
  have d0: "buzhash32_inv d0" "buzhash32_window d0 = []" "bh32_bytehash d0 = table"
    by (simp_all add: d0_def buzhash32_New_inv) (simp add: buzhash32_NewFromUint32Array_def)
  show ?thesis
    using buzhash32_digest.run_ops_result [OF d0(1,2), of "[OpWrite (replicate (m * 32) x)]"]
      buz_hash_run [of table m x]
    by (auto simp: buzhash32_core_sum d0(3) parity_word_def d0_def [symmetric])
qed

end
