(* ===== verification/Buzhash64.thy ===== *)
theory Buzhash64
  imports Buz_Law
begin

text \<open>
  buzhash64/buzhash64.go: the cyclic polynomial hash on 64-bit words. \<open>buzhash64\<close> is the struct
  \<open>Buzhash64\<close>: the table \<open>bytehash\<close>, the cached table \<open>rotBH\<close> of the same words rotated by
  the window length, the sum and the circular buffer. The random source of \<open>GenerateHashes\<close> is a
  parameter: the list of its draws.
\<close>

section \<open>The table of byte hashes\<close>

text \<open>\<open>x := uint64(random.Int63()); for used[x] { x = ... }\<close>: the first draw not yet used, and the
  draws after it; \<open>None\<close> when the draws end before one is found.\<close>

fun buzhash64_draw :: "u64 list \<Rightarrow> (u64 \<rightharpoonup> bool) \<Rightarrow> (u64 \<times> u64 list) option" where
  "buzhash64_draw [] used = None"
| "buzhash64_draw (r # random) used =
     (let x = r in if used x = Some True then buzhash64_draw random used else Some (x, random))"

primrec buzhash64_fill :: "nat \<Rightarrow> u64 list \<Rightarrow> (u64 \<rightharpoonup> bool) \<Rightarrow> u64 list option" where
  "buzhash64_fill 0 random used = Some []"
| "buzhash64_fill (Suc n) random used = do {
     (x, random) \<leftarrow> buzhash64_draw random used;
     res \<leftarrow> buzhash64_fill n random (used(x \<mapsto> True));
     Some (x # res)
   }"

definition buzhash64_GenerateHashes :: "u64 list \<Rightarrow> u64 byte_table option" where
  "buzhash64_GenerateHashes random = do {
     res \<leftarrow> buzhash64_fill 256 random Map.empty;
     Some (\<lambda>i. res ! unat i)
   }"

section \<open>The digest\<close>

record buzhash64 =
  bh64_sum :: u64
  bh64_nRotate :: nat
  bh64_window :: "byte list"
  bh64_oldest :: nat
  bh64_bytehash :: "u64 byte_table"
  bh64_rotBH :: "u64 byte_table"

definition buzhash64_Reset :: "buzhash64 \<Rightarrow> buzhash64" where
  "buzhash64_Reset d = d\<lparr>bh64_window := [], bh64_oldest := 0, bh64_sum := 0\<rparr>"

definition buzhash64_NewFromUint64Array :: "u64 byte_table \<Rightarrow> buzhash64" where
  "buzhash64_NewFromUint64Array b =
     \<lparr>bh64_sum = 0, bh64_nRotate = 0, bh64_window = [], bh64_oldest = 0,
      bh64_bytehash = b, bh64_rotBH = (\<lambda>_. 0)\<rparr>"

text \<open>\<open>New()\<close> uses the table \<open>defaultHashes\<close>, which \<open>init\<close> fills with \<open>GenerateHashes(1)\<close>.\<close>

definition buzhash64_New :: "u64 list \<Rightarrow> buzhash64 option" where
  "buzhash64_New random = do {
     defaultHashes \<leftarrow> buzhash64_GenerateHashes random;
     Some (buzhash64_NewFromUint64Array defaultHashes)
   }"

definition buzhash64_Write :: "buzhash64 \<Rightarrow> byte list \<Rightarrow> buzhash64 option" where
  "buzhash64_Write d data =
     (if length data = 0 then Some d
      else do {
        window \<leftarrow> (if bh64_oldest d \<noteq> 0 then MoveLeft (bh64_window d) (bh64_oldest d)
                   else Some (bh64_window d));
        let window = window @ data;
        let sum = fold (\<lambda>c sum. word_rotl 1 sum XOR bh64_bytehash d c) window 0;
        let nRotate = length window mod 64;
        Some (d\<lparr>bh64_window := window, bh64_oldest := 0, bh64_sum := sum, bh64_nRotate := nRotate,
                 bh64_rotBH := (\<lambda>i. word_rotl nRotate (bh64_bytehash d i))\<rparr>)
      })"

definition buzhash64_Sum64 :: "buzhash64 \<Rightarrow> u64" where
  "buzhash64_Sum64 d = bh64_sum d"

definition buzhash64_Sum :: "buzhash64 \<Rightarrow> byte list \<Rightarrow> byte list" where
  "buzhash64_Sum d b =
     (let v = buzhash64_Sum64 d in
      b @ [ucast (drop_bit 56 v), ucast (drop_bit 48 v), ucast (drop_bit 40 v), ucast (drop_bit 32 v),
          ucast (drop_bit 24 v), ucast (drop_bit 16 v), ucast (drop_bit 8 v), ucast v])"

definition buzhash64_Size :: "buzhash64 \<Rightarrow> int" where
  "buzhash64_Size d = 8"

definition buzhash64_BlockSize :: "buzhash64 \<Rightarrow> int" where
  "buzhash64_BlockSize d = 1"

lemma buzhash64_Sum_bytes: "buzhash64_Sum d b = b @ be_bytes (buzhash64_Size d) (buzhash64_Sum64 d)"
  by (simp add: buzhash64_Sum_def buzhash64_Size_def be_bytes_64 Let_def)

definition buzhash64_Roll :: "buzhash64 \<Rightarrow> byte \<Rightarrow> buzhash64 option" where
  "buzhash64_Roll d c = do {
     let hn = bh64_bytehash d c;
     leave \<leftarrow> idx (bh64_window d) (bh64_oldest d);
     let h0 = bh64_rotBH d leave;
     let window = (bh64_window d)[bh64_oldest d := c];
     let oldest = bh64_oldest d + 1;
     let oldest = (if length window \<le> oldest then 0 else oldest);
     Some (d\<lparr>bh64_window := window, bh64_oldest := oldest,
              bh64_sum := word_rotl 1 (bh64_sum d) XOR h0 XOR hn\<rparr>)
   }"

definition buzhash64_WriteWindow ::
    "'w writer \<Rightarrow> 'w \<Rightarrow> buzhash64 \<Rightarrow> (int \<times> gerror option \<times> 'w) option" where
  "buzhash64_WriteWindow wr w d = window_Write wr w (bh64_window d) (bh64_oldest d)"

text \<open>\<open>for i, h := range bh { rotBH[i] = RotateLeft64(h, nRotate) }\<close>\<close>

definition buzhash64_rotated :: "u64 byte_table \<Rightarrow> nat \<Rightarrow> u64 byte_table" where
  "buzhash64_rotated bh nRotate = (\<lambda>i. word_rotl nRotate (bh i))"

text \<open>A lane step \<open>v = RotateLeft64(v, 1) ^ rotBH[leave] ^ bh[enter]\<close>.\<close>

definition buzhash64_step :: "u64 byte_table \<Rightarrow> u64 byte_table \<Rightarrow> u64 \<Rightarrow> byte \<Rightarrow> byte \<Rightarrow> u64" where
  "buzhash64_step bh rotBH v leave enter = word_rotl 1 v XOR rotBH leave XOR bh enter"

definition buzhash64_BatchRoll :: "buzhash64 \<Rightarrow> u64 list \<Rightarrow> byte list \<Rightarrow> int \<Rightarrow> u64 list option" where
  "buzhash64_BatchRoll d dst data window =
     (if window \<le> 0 \<or> int (length data) < window then Some dst
      else
        let w = nat window; bh = bh64_bytehash d; rotBH = buzhash64_rotated bh (w mod 64);
            n = length data - w in do {
          leaving \<leftarrow> go_slice data 0 (int (n + 1));
          entering \<leftarrow> go_slice data (int w) (int (length data));
          roll_lanes
            \<lparr>ln_step = buzhash64_step bh rotBH, ln_out = (\<lambda>v. v),
             ln_leave = idx leaving, ln_enter = idx entering\<rparr>
            (\<lambda>off. warm_from (\<lambda>v c. word_rotl 1 v XOR bh c) data off 0 w 0) n dst
        })"

definition buzhash64_BatchBoundaries :: "buzhash64 \<Rightarrow> i32 list \<Rightarrow> i32 list \<Rightarrow> byte list \<Rightarrow> int \<Rightarrow> u64 \<Rightarrow>
    (i32 list \<times> i32 list \<times> nat \<times> nat) option" where
  "buzhash64_BatchBoundaries d a b data window msk =
     (if window \<le> 0 \<or> int (length data) < window then Some (a, b, 0, 0)
      else
        let w = nat window; bh = bh64_bytehash d; rotBH = buzhash64_rotated bh (w mod 64);
            n = length data - w in do {
          leaving \<leftarrow> go_slice data 0 (int (n + 1));
          entering \<leftarrow> go_slice data (int w) (int (length data));
          hit_block_lanes (buzhash64_step bh rotBH) (\<lambda>v. v) leaving entering
            (\<lambda>off. warm_from (\<lambda>v c. word_rotl 1 v XOR bh c) data off 0 w 0) n msk a b
        })"

section \<open>The digest is a rolling hash of its window\<close>

definition buzhash64_window :: "buzhash64 \<Rightarrow> byte list" where
  "buzhash64_window d = contents (bh64_window d) (bh64_oldest d)"

text \<open>The rotated table is only meaningful once a window is written; Reset leaves it stale.\<close>

definition buzhash64_inv :: "buzhash64 \<Rightarrow> bool" where
  "buzhash64_inv d \<longleftrightarrow>
     circ_ok (bh64_window d) (bh64_oldest d) \<and>
     bh64_sum d = buz_hash (bh64_bytehash d) (buzhash64_window d) \<and>
     (bh64_window d \<noteq> [] \<longrightarrow>
        bh64_rotBH d = buzhash64_rotated (bh64_bytehash d) (length (bh64_window d) mod 64))"

lemma buzhash64_absorb: "(\<lambda>v c. word_rotl (Suc 0) v XOR bh c) = buz_absorb bh"
  by (simp add: buz_absorb_def [abs_def])

lemma buzhash64_fold:
  "fold (\<lambda>c v. word_rotl (Suc 0) v XOR bh c) ys (fold (\<lambda>c v. word_rotl (Suc 0) v XOR bh c) xs 0) =
   buz_hash bh (xs @ ys)"
  by (simp add: buz_hash_def foldl_conv_fold buz_absorb_def [abs_def])

lemma buzhash64_step_eq: "buzhash64_step = buz_roll_step"
  by (intro ext) (simp add: buzhash64_step_def buz_roll_step_def)

lemma buzhash64_rotated_eq:
  "buzhash64_rotated bh (w mod 64) = (\<lambda>b. word_rotl (w mod LENGTH(64)) (bh b))"
  by (simp add: buzhash64_rotated_def)

lemma buzhash64_New_inv:
  "buzhash64_inv (buzhash64_NewFromUint64Array b)"
  "buzhash64_window (buzhash64_NewFromUint64Array b) = []"
  by (simp_all add: buzhash64_inv_def buzhash64_window_def buzhash64_NewFromUint64Array_def buz_hash_def)

lemma buzhash64_Write_ok:
  assumes "buzhash64_inv d"
  shows "\<exists>d'. buzhash64_Write d xs = Some d' \<and> buzhash64_inv d' \<and>
    buzhash64_window d' = buzhash64_window d @ xs \<and> bh64_bytehash d' = bh64_bytehash d"
proof (cases "xs = []")
  case True
  then show ?thesis using assms by (simp add: buzhash64_Write_def)
next
  case False
  have le: "bh64_oldest d \<le> length (bh64_window d)"
    using assms by (simp add: buzhash64_inv_def circ_ok_le)
  show ?thesis
    using False le
    by (simp add: buzhash64_Write_def MoveLeft_contents buzhash64_inv_def Let_def
        buzhash64_window_def buzhash64_fold buzhash64_rotated_def)
qed

lemma buzhash64_Roll_ok:
  assumes inv: "buzhash64_inv d" and win: "buzhash64_window d = x # ys"
  shows "\<exists>d'. buzhash64_Roll d c = Some d' \<and> buzhash64_inv d' \<and>
    buzhash64_window d' = ys @ [c] \<and> bh64_bytehash d' = bh64_bytehash d"
proof -
  have ok: "circ_ok (bh64_window d) (bh64_oldest d)" and ne: "bh64_window d \<noteq> []"
    using inv win by (auto simp: buzhash64_inv_def buzhash64_window_def)
  obtain w' o' where p: "circ_push (bh64_window d) (bh64_oldest d) c = (w', o')"
    by fastforce
  note law = buz.roll_contents [OF ok ne p, of "bh64_bytehash d"]
  show ?thesis
    using inv win p law contents_push [OF ok ne p] circ_push_ok [OF ok p] length_circ_push [OF p] ok ne
    by (auto simp: buzhash64_Roll_def buzhash64_inv_def buzhash64_window_def buz_hash_def
        buz_roll_step_def buzhash64_rotated_def circ_push_def circ_ok_def idx_def Let_def)
qed

lemma buzhash64_Roll_empty: "buzhash64_inv d \<Longrightarrow> buzhash64_window d = [] \<Longrightarrow> buzhash64_Roll d c = None"
  by (simp add: buzhash64_Roll_def buzhash64_window_def idx_def)

definition buzhash64_iface :: "buzhash64 hash_iface" where
  "buzhash64_iface = \<lparr>h_Reset = (\<lambda>d. Some (buzhash64_Reset d)), h_Write = buzhash64_Write, h_Roll = buzhash64_Roll,
     h_Sum = buzhash64_Sum, h_Size = buzhash64_Size, h_BlockSize = buzhash64_BlockSize, h_Sum32 = None, h_Sum64 = Some buzhash64_Sum64,
     h_BatchRoll = Some buzhash64_BatchRoll, h_BatchBoundaries = Some buzhash64_BatchBoundaries\<rparr>"

lemma buzhash64_BatchRoll_windows:
  assumes w: "0 < w" "n + w = length data" and dst: "n < length dst"
  shows "buzhash64_BatchRoll d dst data (int w) =
    Some (map (\<lambda>i. (buz_hash (bh64_bytehash d) (window_at w data i))) [0..<Suc n] @ drop (Suc n) dst)"
proof -
  define bh where "bh = bh64_bytehash d"
  define L where "L = \<lparr>ln_step = buzhash64_step bh (buzhash64_rotated bh (w mod 64)), ln_out = (\<lambda>v. v),
      ln_leave = idx (take (Suc n) data), ln_enter = idx (drop w data)\<rparr>"
  have "roll_lanes L (\<lambda>off. warm_from (buz_absorb bh) data off 0 w 0) n dst =
      Some (map (\<lambda>i. ln_out L (foldl (buz_absorb bh) 0 (window_at w data i))) [0..<Suc n] @ drop (Suc n) dst)"
    using w by (intro buz.roll_lanes_window [OF w _ _ _ warm_from_window dst])
      (auto simp: L_def buzhash64_step_eq buzhash64_rotated_eq idx_def add.commute)
  then show ?thesis
    using w by (simp add: buzhash64_BatchRoll_def buzhash64_absorb L_def bh_def [symmetric] buz_hash_def
        nat_eq_diff [OF w(2)] go_slice_def Let_def nat_add_distrib del: upt_Suc)
qed

lemma buzhash64_BatchBoundaries_windows:
  assumes w: "0 < w" "n + w = length data" and ab: "n < length a" "n < length b"
  shows "boundaries_are msk (\<lambda>p. (buz_hash (bh64_bytehash d) (window_at w data p))) n a b
    (buzhash64_BatchBoundaries d a b data (int w) msk)"
  using buz.hit_block_lanes_window [where bh = "bh64_bytehash d" and out = "\<lambda>v. v" and msk = msk,
      OF w warm_from_window ab] w
  by (simp add: buzhash64_BatchBoundaries_def buzhash64_absorb buzhash64_step_eq buzhash64_rotated_eq
      buz_hash_def nat_eq_diff [OF w(2)] go_slice_def Let_def nat_add_distrib del: upt_Suc)

interpretation buzhash64_digest: digest buzhash64_iface buzhash64_inv buzhash64_window
    "\<lambda>d xs. (buz_hash (bh64_bytehash d) xs)" "\<lambda>_. True"
proof
  fix d xs x ys c w n data dst a b msk b'
  assume inv: "buzhash64_inv d"
  show sum: "core_sum buzhash64_iface d = (buz_hash (bh64_bytehash d) (buzhash64_window d))"
    using inv by (simp add: core_sum_def buzhash64_iface_def buzhash64_Sum64_def buzhash64_inv_def)
  show "\<exists>bs. h_Sum buzhash64_iface d b' = b' @ bs \<and> int (length bs) = h_Size buzhash64_iface d \<and> be_value bs = (buz_hash (bh64_bytehash d) (buzhash64_window d))"
    using sum by (simp add: core_sum_def buzhash64_iface_def buzhash64_Sum_def buzhash64_Size_def be_value_64 Let_def)
  show "\<exists>d'. h_Reset buzhash64_iface d = Some d' \<and> buzhash64_inv d' \<and> buzhash64_window d' = [] \<and>
      (\<lambda>xs. (buz_hash (bh64_bytehash d') xs)) =
      (\<lambda>xs. (buz_hash (bh64_bytehash d) xs) :: u64)"
    by (simp add: buzhash64_iface_def buzhash64_Reset_def buzhash64_inv_def buzhash64_window_def buz_hash_def)
  show "\<exists>d'. h_Write buzhash64_iface d xs = Some d' \<and> buzhash64_inv d' \<and>
      buzhash64_window d' = buzhash64_window d @ xs \<and>
      (\<lambda>xs. (buz_hash (bh64_bytehash d') xs) :: u64) = (\<lambda>xs. (buz_hash (bh64_bytehash d) xs))"
    using buzhash64_Write_ok [OF inv, of xs] by (auto simp: buzhash64_iface_def)
  show "\<exists>d'. h_Roll buzhash64_iface d c = Some d' \<and> buzhash64_inv d' \<and> buzhash64_window d' = ys @ [c] \<and>
      (\<lambda>xs. (buz_hash (bh64_bytehash d') xs) :: u64) = (\<lambda>xs. (buz_hash (bh64_bytehash d) xs))"
    if "buzhash64_window d = x # ys"
    using buzhash64_Roll_ok [OF inv that, of c] by (auto simp: buzhash64_iface_def)
  show "h_Roll buzhash64_iface d c = None" if "buzhash64_window d = []"
    using buzhash64_Roll_empty [OF inv that] by (simp add: buzhash64_iface_def)
  show "\<exists>br. h_BatchRoll buzhash64_iface = Some br \<and> br d dst data (int w) =
      Some (map (\<lambda>i. (buz_hash (bh64_bytehash d) (window_at w data i))) [0..<Suc n] @ drop (Suc n) dst)"
    if "0 < w" "n + w = length data" "n < length dst"
    using buzhash64_BatchRoll_windows [OF that] by (simp add: buzhash64_iface_def)
  show "\<exists>brd. h_BatchBoundaries buzhash64_iface = Some brd \<and> boundaries_are msk (\<lambda>p. (buz_hash (bh64_bytehash d) (window_at w data p))) n a b
      (brd d a b data (int w) msk)"
    if "0 < w" "n + w = length data" "n < length a" "n < length b"
    using buzhash64_BatchBoundaries_windows [OF that] by (simp add: buzhash64_iface_def)
qed

section \<open>GenerateHashes\<close>

lemma buzhash64_draw_new:
  "buzhash64_draw random used = Some (x, random') \<Longrightarrow> used x \<noteq> Some True"
  by (induction random used rule: buzhash64_draw.induct) (auto simp: Let_def split: if_splits)

text \<open>No value repeats, and none is one that was used before.\<close>

lemma buzhash64_fill_distinct:
  "buzhash64_fill n random used = Some res \<Longrightarrow>
   length res = n \<and> distinct res \<and> (\<forall>x \<in> set res. used x \<noteq> Some True)"
proof (induction n arbitrary: random used res)
  case 0
  then show ?case by simp
next
  case (Suc n)
  then obtain x random' rest where d: "buzhash64_draw random used = Some (x, random')"
    and f: "buzhash64_fill n random' (used(x \<mapsto> True)) = Some rest" and res: "res = x # rest"
    by (auto split: bind_splits)
  show ?case using Suc.IH [OF f] buzhash64_draw_new [OF d] by (auto simp: res split: if_splits)
qed

lemma buzhash64_GenerateHashes_inj:
  assumes "buzhash64_GenerateHashes random = Some table"
  shows "inj table"
proof -
  obtain res where f: "buzhash64_fill 256 random Map.empty = Some res"
    and t: "table = (\<lambda>i. res ! unat i)"
    using assms by (auto simp: buzhash64_GenerateHashes_def split: bind_splits)
  have "length res = 256" and d: "distinct res"
    using buzhash64_fill_distinct [OF f] by auto
  then have "unat i < length res" for i :: byte
    using unsigned_less [of i] by simp
  then show ?thesis
    unfolding t by (auto simp: inj_def nth_eq_iff_index_eq [OF d] intro: word_unat_eq_iff [THEN iffD2])
qed

text \<open>The search for an unused value ends as soon as the source has drawn enough distinct values.\<close>

lemma buzhash64_draw_ends:
  assumes "\<exists>r \<in> set random. used r \<noteq> Some True"
  shows "\<exists>x random'. buzhash64_draw random used = Some (x, random') \<and>
    set random - {r. used r = Some True} \<subseteq> insert x (set random')"
  using assms
  by (induction random used rule: buzhash64_draw.induct) (auto simp: Let_def)

lemma buzhash64_fill_ends:
  "n \<le> card (set random - {r. used r = Some True}) \<Longrightarrow> \<exists>res. buzhash64_fill n random used = Some res"
proof (induction n arbitrary: random used)
  case 0
  then show ?case by simp
next
  case (Suc n)
  let ?fresh = "\<lambda>random used. set random - {r. used r = Some True} :: u64 set"
  have "?fresh random used \<noteq> {}"
    using Suc.prems by (metis card.empty not_less_eq_eq zero_le)
  then obtain x random' where d: "buzhash64_draw random used = Some (x, random')"
    and sub: "?fresh random used \<subseteq> insert x (set random')"
    using buzhash64_draw_ends [of random used] by blast
  define T where "T = ?fresh random' (used(x \<mapsto> True))"
  have T: "finite T" by (simp add: T_def)
  have "?fresh random used \<subseteq> insert x T"
    using sub by (auto simp: T_def)
  then have "card (?fresh random used) \<le> card (insert x T)"
    using T by (intro card_mono) simp_all
  then have "n \<le> card T"
    using Suc.prems T by (simp add: card_insert_if split: if_splits)
  then obtain rest where "buzhash64_fill n random' (used(x \<mapsto> True)) = Some rest"
    using Suc.IH unfolding T_def by blast
  then show ?case using d by simp
qed

lemma buzhash64_GenerateHashes_ends:
  assumes "256 \<le> card (set random :: u64 set)"
  shows "\<exists>table. buzhash64_GenerateHashes random = Some table"
  using buzhash64_fill_ends [of 256 random Map.empty] assms
  by (auto simp: buzhash64_GenerateHashes_def)

section \<open>Properties\<close>

lemma buzhash64_core_sum: "core_sum buzhash64_iface d = buzhash64_Sum64 d"
  by (simp add: core_sum_def buzhash64_iface_def)

lemma buzhash64_WriteWindow_ok:
  "buzhash64_inv d \<Longrightarrow> buzhash64_WriteWindow buffer_Write buf d =
     Some (int (length (buzhash64_window d)), None, buf @ buzhash64_window d)"
  by (simp add: buzhash64_WriteWindow_def buzhash64_inv_def buzhash64_window_def window_Write_buffer)

text \<open>C18: Any sequence of calls of \<open>Reset\<close>, \<open>Write\<close> and \<open>Roll\<close> on a new hash of buzhash64 panics exactly when it
  rolls on an empty window, and otherwise leaves the checksum of the bytes that the calls leave in the
  window, oldest byte first; \<open>WriteWindow\<close> writes exactly these bytes. \<open>Sum\<close> appends its \<open>Size\<close>
  bytes, most significant first.\<close>

theorem buzhash64_run:
  "case window_ops ops [] of
     None \<Rightarrow> run_ops buzhash64_iface ops (buzhash64_NewFromUint64Array a) = None
   | Some w \<Rightarrow> \<exists>d. run_ops buzhash64_iface ops (buzhash64_NewFromUint64Array a) = Some d \<and> buzhash64_Sum64 d = buz_hash a w \<and>
       buzhash64_Sum d pre = pre @ be_bytes (buzhash64_Size d) (buz_hash a w) \<and>
       buzhash64_WriteWindow buffer_Write buf d = Some (int (length w), None, buf @ w)"
proof -
  define d0 where "d0 = buzhash64_NewFromUint64Array a"
  have d0: "buzhash64_inv d0" "buzhash64_window d0 = []" by (simp_all add: d0_def buzhash64_New_inv)
  show ?thesis
    using buzhash64_digest.run_ops_result [OF d0, of ops] buzhash64_WriteWindow_ok
    by (fastforce simp: buzhash64_core_sum buzhash64_Sum_bytes d0_def buzhash64_NewFromUint64Array_def split: option.splits)
qed

text \<open>C28: \<open>BatchRoll\<close> of buzhash64 stores the checksum of every window of the data, in order, and nothing else;
  \<open>BatchBoundaries\<close> reports exactly the windows whose checksum has no bit of the mask, in ascending
  order over its two buffers. No index leaves its slice.\<close>

theorem buzhash64_batch:
  assumes "buzhash64_inv d" and "0 < w" and "n + w = length data"
    and "n < length dst" and "n < length a" and "n < length b"
  shows "buzhash64_BatchRoll d dst data (int w) =
      Some (map (\<lambda>i. buz_hash (bh64_bytehash d) (window_at w data i)) [0..<Suc n] @ drop (Suc n) dst) \<and>
    boundaries_are msk (\<lambda>i. buz_hash (bh64_bytehash d) (window_at w data i)) n a b
      (buzhash64_BatchBoundaries d a b data (int w) msk)"
  using buzhash64_digest.batch_roll [OF assms(1) TrueI assms(2,3,4)]
    buzhash64_digest.boundaries [OF assms(1) TrueI assms(2,3,5,6), of msk]
  by (simp add: buzhash64_iface_def del: upt_Suc)

theorem buzhash64_batch_witness:
  "buzhash64_BatchRoll (buzhash64_NewFromUint64Array ucast) [0, 0, 0] [1, 2, 3, 4] 2 =
     Some (map (\<lambda>i. buz_hash (bh64_bytehash (buzhash64_NewFromUint64Array ucast)) (window_at 2 [1, 2, 3, 4] i)) [0..<Suc 2])"
  using buzhash64_batch [of "buzhash64_NewFromUint64Array ucast" 2 2 "[1, 2, 3, 4]" "[0, 0, 0]" "[0, 0, 0]" "[0, 0, 0]"]
  by (simp add: buzhash64_New_inv)

text \<open>\<open>GenerateHashes\<close> returns as soon as its random source has drawn 256 distinct values, and no two
  bytes get the same word.\<close>

theorem buzhash64_GenerateHashes_ok:
  assumes "256 \<le> card (set random)"
  shows "\<exists>table. buzhash64_GenerateHashes random = Some table \<and> inj table"
  using buzhash64_GenerateHashes_ends [OF assms] buzhash64_GenerateHashes_inj by blast

theorem buzhash64_GenerateHashes_ok_witness:
  "\<exists>table. buzhash64_GenerateHashes (map word_of_nat [0..<256]) = Some table \<and> inj table"
proof (rule buzhash64_GenerateHashes_ok)
  have "inj_on (word_of_nat :: nat \<Rightarrow> u64) {..<256}"
    by (rule inj_onI) (simp add: word_of_nat_eq_iff take_bit_nat_eq_self)
  then show "256 \<le> card (set (map word_of_nat [0..<256] :: u64 list))"
    by (simp add: card_image atLeast0LessThan)
qed

end
