(* ===== verification/Gearhash64.thy ===== *)
theory Gearhash64
  imports Hash_Iface
begin

text \<open>
  gearhash64/gearhash64.go: the Gear hash on 64-bit words. \<open>gearhash64\<close> is the struct
  \<open>GearHash64\<close>: the table \<open>gear\<close>, the cached table \<open>shiftedGear\<close> of the same words
  shifted by the window length, the sum and the circular buffer. The random source of
  \<open>GenerateHashes\<close> is a parameter: the list of its draws.
\<close>

section \<open>The digest\<close>

text \<open>\<open>for i := range res { res[i] = r.Uint64() }\<close>; \<open>None\<close> when the draws end.\<close>

definition gearhash64_GenerateHashes :: "u64 list \<Rightarrow> u64 byte_table option" where
  "gearhash64_GenerateHashes random =
     (if 256 \<le> length random then Some (\<lambda>i. random ! unat i) else None)"

record gearhash64 =
  gh64_sum :: u64
  gh64_window :: "byte list"
  gh64_oldest :: nat
  gh64_gear :: "u64 byte_table"
  gh64_shiftedGear :: "u64 byte_table"

definition gearhash64_Reset :: "gearhash64 \<Rightarrow> gearhash64" where
  "gearhash64_Reset d = d\<lparr>gh64_window := [], gh64_oldest := 0, gh64_sum := 0\<rparr>"

definition gearhash64_NewFromUint64Array :: "u64 byte_table \<Rightarrow> gearhash64" where
  "gearhash64_NewFromUint64Array b =
     \<lparr>gh64_sum = 0, gh64_window = [], gh64_oldest = 0,
      gh64_gear = b, gh64_shiftedGear = (\<lambda>_. 0)\<rparr>"

text \<open>\<open>New()\<close> uses the table \<open>defaultHashes\<close>, which \<open>init\<close> fills with \<open>GenerateHashes(1)\<close>.\<close>

definition gearhash64_New :: "u64 list \<Rightarrow> gearhash64 option" where
  "gearhash64_New random = do {
     defaultHashes \<leftarrow> gearhash64_GenerateHashes random;
     Some (gearhash64_NewFromUint64Array defaultHashes)
   }"

text \<open>\<open>if w < 64 { for i, h := range g { shiftedGear[i] = h << w } }\<close>, and all zero otherwise.\<close>

definition gearhash64_shifted :: "u64 byte_table \<Rightarrow> nat \<Rightarrow> u64 byte_table" where
  "gearhash64_shifted g w = (\<lambda>i. if w < 64 then push_bit w (g i) else 0)"

definition gearhash64_Write :: "gearhash64 \<Rightarrow> byte list \<Rightarrow> gearhash64 option" where
  "gearhash64_Write d data =
     (if length data = 0 then Some d
      else do {
        window \<leftarrow> (if gh64_oldest d \<noteq> 0 then MoveLeft (gh64_window d) (gh64_oldest d)
                   else Some (gh64_window d));
        let window = window @ data;
        let sum = fold (\<lambda>c sum. push_bit 1 sum + gh64_gear d c) window 0;
        Some (d\<lparr>gh64_window := window, gh64_oldest := 0, gh64_sum := sum,
                 gh64_shiftedGear := gearhash64_shifted (gh64_gear d) (length window)\<rparr>)
      })"

definition gearhash64_Sum64 :: "gearhash64 \<Rightarrow> u64" where
  "gearhash64_Sum64 d = gh64_sum d"

definition gearhash64_Sum :: "gearhash64 \<Rightarrow> byte list \<Rightarrow> byte list" where
  "gearhash64_Sum d b =
     (let v = gearhash64_Sum64 d in
      b @ [ucast (drop_bit 56 v), ucast (drop_bit 48 v), ucast (drop_bit 40 v), ucast (drop_bit 32 v),
          ucast (drop_bit 24 v), ucast (drop_bit 16 v), ucast (drop_bit 8 v), ucast v])"

definition gearhash64_Size :: "gearhash64 \<Rightarrow> int" where
  "gearhash64_Size d = 8"

definition gearhash64_BlockSize :: "gearhash64 \<Rightarrow> int" where
  "gearhash64_BlockSize d = 1"

lemma gearhash64_Sum_bytes: "gearhash64_Sum d b = b @ be_bytes (gearhash64_Size d) (gearhash64_Sum64 d)"
  by (simp add: gearhash64_Sum_def gearhash64_Size_def be_bytes_64 Let_def)

definition gearhash64_Roll :: "gearhash64 \<Rightarrow> byte \<Rightarrow> gearhash64 option" where
  "gearhash64_Roll d c = do {
     let hn = gh64_gear d c;
     leave \<leftarrow> idx (gh64_window d) (gh64_oldest d);
     let h0 = gh64_shiftedGear d leave;
     let window = (gh64_window d)[gh64_oldest d := c];
     let oldest = gh64_oldest d + 1;
     let oldest = (if length window \<le> oldest then 0 else oldest);
     Some (d\<lparr>gh64_window := window, gh64_oldest := oldest,
              gh64_sum := push_bit 1 (gh64_sum d) - h0 + hn\<rparr>)
   }"

definition gearhash64_WriteWindow ::
    "'w writer \<Rightarrow> 'w \<Rightarrow> gearhash64 \<Rightarrow> (int \<times> gerror option \<times> 'w) option" where
  "gearhash64_WriteWindow wr w d = window_Write wr w (gh64_window d) (gh64_oldest d)"

text \<open>A lane step \<open>v = (v << 1) - shiftedGear[leave] + g[enter]\<close>.\<close>

definition gearhash64_step :: "u64 byte_table \<Rightarrow> u64 byte_table \<Rightarrow> u64 \<Rightarrow> byte \<Rightarrow> byte \<Rightarrow> u64" where
  "gearhash64_step g shiftedGear v leave enter = push_bit 1 v - shiftedGear leave + g enter"

definition gearhash64_absorb :: "u64 byte_table \<Rightarrow> u64 \<Rightarrow> byte \<Rightarrow> u64" where
  "gearhash64_absorb g v c = push_bit 1 v + g c"

definition gearhash64_BatchRoll :: "gearhash64 \<Rightarrow> u64 list \<Rightarrow> byte list \<Rightarrow> int \<Rightarrow> u64 list option" where
  "gearhash64_BatchRoll d dst data window =
     (if window \<le> 0 \<or> int (length data) < window then Some dst
      else
        let w = nat window; g = gh64_gear d; shiftedGear = gearhash64_shifted g w;
            n = length data - w in do {
          leaving \<leftarrow> go_slice data 0 (int (n + 1));
          entering \<leftarrow> go_slice data (int w) (int (length data));
          roll_lanes
            \<lparr>ln_step = gearhash64_step g shiftedGear, ln_out = (\<lambda>v. v),
             ln_leave = idx leaving, ln_enter = idx entering\<rparr>
            (\<lambda>off. warm_from (gearhash64_absorb g) data off 0 w 0) n dst
        })"

definition gearhash64_BatchBoundaries :: "gearhash64 \<Rightarrow> i32 list \<Rightarrow> i32 list \<Rightarrow> byte list \<Rightarrow> int \<Rightarrow> u64 \<Rightarrow>
    (i32 list \<times> i32 list \<times> nat \<times> nat) option" where
  "gearhash64_BatchBoundaries d a b data window msk =
     (if window \<le> 0 \<or> int (length data) < window then Some (a, b, 0, 0)
      else
        let w = nat window; g = gh64_gear d; shiftedGear = gearhash64_shifted g w;
            n = length data - w in do {
          leaving \<leftarrow> go_slice data 0 (int (n + 1));
          entering \<leftarrow> go_slice data (int w) (int (length data));
          hit_block_lanes (gearhash64_step g shiftedGear) (\<lambda>v. v) leaving entering
            (\<lambda>off. warm_from (gearhash64_absorb g) data off 0 w 0) n msk a b
        })"

section \<open>The rolling law\<close>

definition gearhash64_hash :: "u64 byte_table \<Rightarrow> byte list \<Rightarrow> u64" where
  "gearhash64_hash g xs = foldl (gearhash64_absorb g) 0 xs"

lemma gearhash64_absorb_shift:
  "foldl (gearhash64_absorb g) v xs = push_bit (length xs) v + foldl (gearhash64_absorb g) 0 xs"
proof (induction xs rule: rev_induct)
  case Nil
  then show ?case by simp
next
  case (snoc x xs)
  then show ?case by (simp add: gearhash64_absorb_def push_bit_eq_mult algebra_simps)
qed

lemma gearhash64_shifted_push: "gearhash64_shifted g w c = push_bit w (g c)"
  by (auto simp: gearhash64_shifted_def bit_eq_iff bit_simps)

text \<open>The closed form of the package comment: \<open>gear[b0]<<(w-1) + ... + gear[b(w-1)]\<close>.\<close>

lemma gearhash64_hash_sum:
  "gearhash64_hash g xs = (\<Sum>i<length xs. push_bit (length xs - 1 - i) (g (xs ! i)))"
proof (induction xs)
  case Nil
  then show ?case by (simp add: gearhash64_hash_def)
next
  case (Cons x xs)
  have "gearhash64_hash g (x # xs) = push_bit (length xs) (g x) + gearhash64_hash g xs"
    using gearhash64_absorb_shift [of g "g x" xs] by (simp add: gearhash64_hash_def gearhash64_absorb_def)
  then show ?case using Cons.IH by (simp add: sum.lessThan_Suc_shift del: sum.lessThan_Suc)
qed

interpretation gear: rolling_hash 0 "gearhash64_absorb g" "\<lambda>w. gearhash64_step g (gearhash64_shifted g w)" for g
proof
  fix xs x y
  show "gearhash64_step g (gearhash64_shifted g (Suc (length xs))) (foldl (gearhash64_absorb g) 0 (x # xs)) x y =
      foldl (gearhash64_absorb g) 0 (xs @ [y])"
    using gearhash64_absorb_shift [of g "g x" xs]
    by (simp add: gearhash64_step_def gearhash64_absorb_def gearhash64_shifted_push push_bit_eq_mult
        algebra_simps)
qed

section \<open>The digest is a rolling hash of its window\<close>

definition gearhash64_window :: "gearhash64 \<Rightarrow> byte list" where
  "gearhash64_window d = contents (gh64_window d) (gh64_oldest d)"

text \<open>The shifted table is only meaningful once a window is written; Reset leaves it stale.\<close>

definition gearhash64_inv :: "gearhash64 \<Rightarrow> bool" where
  "gearhash64_inv d \<longleftrightarrow>
     circ_ok (gh64_window d) (gh64_oldest d) \<and>
     gh64_sum d = gearhash64_hash (gh64_gear d) (gearhash64_window d) \<and>
     (gh64_window d \<noteq> [] \<longrightarrow>
        gh64_shiftedGear d = gearhash64_shifted (gh64_gear d) (length (gh64_window d)))"

lemma gearhash64_fold:
  "fold (\<lambda>c v. v * 2 + g c) ys (fold (\<lambda>c v. v * 2 + g c) xs 0) =
   gearhash64_hash g (xs @ ys)"
  by (simp add: gearhash64_hash_def foldl_conv_fold gearhash64_absorb_def [abs_def])

lemma gearhash64_New_inv:
  "gearhash64_inv (gearhash64_NewFromUint64Array b)"
  "gearhash64_window (gearhash64_NewFromUint64Array b) = []"
  by (simp_all add: gearhash64_inv_def gearhash64_window_def gearhash64_NewFromUint64Array_def gearhash64_hash_def)

lemma gearhash64_Write_ok:
  assumes "gearhash64_inv d"
  shows "\<exists>d'. gearhash64_Write d xs = Some d' \<and> gearhash64_inv d' \<and>
    gearhash64_window d' = gearhash64_window d @ xs \<and> gh64_gear d' = gh64_gear d"
proof (cases "xs = []")
  case True
  then show ?thesis using assms by (simp add: gearhash64_Write_def)
next
  case False
  have le: "gh64_oldest d \<le> length (gh64_window d)"
    using assms by (simp add: gearhash64_inv_def circ_ok_le)
  show ?thesis
    using False le
    by (simp add: gearhash64_Write_def MoveLeft_contents gearhash64_inv_def Let_def
        gearhash64_window_def gearhash64_fold)
qed

lemma gearhash64_Roll_ok:
  assumes inv: "gearhash64_inv d" and win: "gearhash64_window d = x # ys"
  shows "\<exists>d'. gearhash64_Roll d c = Some d' \<and> gearhash64_inv d' \<and>
    gearhash64_window d' = ys @ [c] \<and> gh64_gear d' = gh64_gear d"
proof -
  have ok: "circ_ok (gh64_window d) (gh64_oldest d)" and ne: "gh64_window d \<noteq> []"
    using inv win by (auto simp: gearhash64_inv_def gearhash64_window_def)
  obtain w' o' where p: "circ_push (gh64_window d) (gh64_oldest d) c = (w', o')"
    by fastforce
  note law = gear.roll_contents [OF ok ne p, of "gh64_gear d"]
  show ?thesis
    using inv win p law contents_push [OF ok ne p] circ_push_ok [OF ok p] length_circ_push [OF p] ok ne
    by (auto simp: gearhash64_Roll_def gearhash64_inv_def gearhash64_window_def gearhash64_hash_def
        gearhash64_step_def circ_push_def circ_ok_def idx_def Let_def)
qed

lemma gearhash64_Roll_empty: "gearhash64_inv d \<Longrightarrow> gearhash64_window d = [] \<Longrightarrow> gearhash64_Roll d c = None"
  by (simp add: gearhash64_Roll_def gearhash64_window_def idx_def)

definition gearhash64_iface :: "gearhash64 hash_iface" where
  "gearhash64_iface = \<lparr>h_Reset = (\<lambda>d. Some (gearhash64_Reset d)), h_Write = gearhash64_Write, h_Roll = gearhash64_Roll,
     h_Sum = gearhash64_Sum, h_Size = gearhash64_Size, h_BlockSize = gearhash64_BlockSize, h_Sum32 = None, h_Sum64 = Some gearhash64_Sum64,
     h_BatchRoll = Some gearhash64_BatchRoll, h_BatchBoundaries = Some gearhash64_BatchBoundaries\<rparr>"

lemma gearhash64_BatchRoll_windows:
  assumes w: "0 < w" "n + w = length data" and dst: "n < length dst"
  shows "gearhash64_BatchRoll d dst data (int w) =
    Some (map (\<lambda>i. (gearhash64_hash (gh64_gear d) (window_at w data i))) [0..<Suc n] @ drop (Suc n) dst)"
proof -
  define g where "g = gh64_gear d"
  define L where "L = \<lparr>ln_step = gearhash64_step g (gearhash64_shifted g w), ln_out = (\<lambda>v. v),
      ln_leave = idx (take (Suc n) data), ln_enter = idx (drop w data)\<rparr>"
  have "roll_lanes L (\<lambda>off. warm_from (gearhash64_absorb g) data off 0 w 0) n dst =
      Some (map (\<lambda>i. ln_out L (foldl (gearhash64_absorb g) 0 (window_at w data i))) [0..<Suc n] @ drop (Suc n) dst)"
    using w by (intro gear.roll_lanes_window [OF w _ _ _ warm_from_window dst])
      (auto simp: L_def idx_def add.commute)
  then show ?thesis
    using w by (simp add: gearhash64_BatchRoll_def L_def g_def [symmetric] gearhash64_hash_def
        nat_eq_diff [OF w(2)] go_slice_def Let_def nat_add_distrib del: upt_Suc)
qed

lemma gearhash64_BatchBoundaries_windows:
  assumes w: "0 < w" "n + w = length data" and ab: "n < length a" "n < length b"
  shows "boundaries_are msk (\<lambda>p. (gearhash64_hash (gh64_gear d) (window_at w data p))) n a b
    (gearhash64_BatchBoundaries d a b data (int w) msk)"
  using gear.hit_block_lanes_window [where g = "gh64_gear d" and out = "\<lambda>v. v" and msk = msk,
      OF w warm_from_window ab] w
  by (simp add: gearhash64_BatchBoundaries_def
      gearhash64_hash_def nat_eq_diff [OF w(2)] go_slice_def Let_def nat_add_distrib del: upt_Suc)

interpretation gearhash64_digest: digest gearhash64_iface gearhash64_inv gearhash64_window
    "\<lambda>d xs. (gearhash64_hash (gh64_gear d) xs)" "\<lambda>_. True"
proof
  fix d xs x ys c w n data dst a b msk b'
  assume inv: "gearhash64_inv d"
  show sum: "core_sum gearhash64_iface d = (gearhash64_hash (gh64_gear d) (gearhash64_window d))"
    using inv by (simp add: core_sum_def gearhash64_iface_def gearhash64_Sum64_def gearhash64_inv_def)
  show "\<exists>bs. h_Sum gearhash64_iface d b' = b' @ bs \<and> int (length bs) = h_Size gearhash64_iface d \<and> be_value bs = (gearhash64_hash (gh64_gear d) (gearhash64_window d))"
    using sum by (simp add: core_sum_def gearhash64_iface_def gearhash64_Sum_def gearhash64_Size_def be_value_64 Let_def)
  show "\<exists>d'. h_Reset gearhash64_iface d = Some d' \<and> gearhash64_inv d' \<and> gearhash64_window d' = [] \<and>
      (\<lambda>xs. (gearhash64_hash (gh64_gear d') xs)) =
      (\<lambda>xs. (gearhash64_hash (gh64_gear d) xs) :: u64)"
    by (simp add: gearhash64_iface_def gearhash64_Reset_def gearhash64_inv_def gearhash64_window_def gearhash64_hash_def)
  show "\<exists>d'. h_Write gearhash64_iface d xs = Some d' \<and> gearhash64_inv d' \<and>
      gearhash64_window d' = gearhash64_window d @ xs \<and>
      (\<lambda>xs. (gearhash64_hash (gh64_gear d') xs) :: u64) = (\<lambda>xs. (gearhash64_hash (gh64_gear d) xs))"
    using gearhash64_Write_ok [OF inv, of xs] by (auto simp: gearhash64_iface_def)
  show "\<exists>d'. h_Roll gearhash64_iface d c = Some d' \<and> gearhash64_inv d' \<and> gearhash64_window d' = ys @ [c] \<and>
      (\<lambda>xs. (gearhash64_hash (gh64_gear d') xs) :: u64) = (\<lambda>xs. (gearhash64_hash (gh64_gear d) xs))"
    if "gearhash64_window d = x # ys"
    using gearhash64_Roll_ok [OF inv that, of c] by (auto simp: gearhash64_iface_def)
  show "h_Roll gearhash64_iface d c = None" if "gearhash64_window d = []"
    using gearhash64_Roll_empty [OF inv that] by (simp add: gearhash64_iface_def)
  show "\<exists>br. h_BatchRoll gearhash64_iface = Some br \<and> br d dst data (int w) =
      Some (map (\<lambda>i. (gearhash64_hash (gh64_gear d) (window_at w data i))) [0..<Suc n] @ drop (Suc n) dst)"
    if "0 < w" "n + w = length data" "n < length dst"
    using gearhash64_BatchRoll_windows [OF that] by (simp add: gearhash64_iface_def)
  show "\<exists>brd. h_BatchBoundaries gearhash64_iface = Some brd \<and> boundaries_are msk (\<lambda>p. (gearhash64_hash (gh64_gear d) (window_at w data p))) n a b
      (brd d a b data (int w) msk)"
    if "0 < w" "n + w = length data" "n < length a" "n < length b"
    using gearhash64_BatchBoundaries_windows [OF that] by (simp add: gearhash64_iface_def)
qed

lemma gearhash64_hash_last:
  assumes "64 \<le> length u"
  shows "gearhash64_hash g (v @ u) = gearhash64_hash g u"
proof -
  have "gearhash64_hash g (v @ u) = push_bit (length u) (gearhash64_hash g v) + gearhash64_hash g u"
    using gearhash64_absorb_shift [of g "gearhash64_hash g v" u] by (simp add: gearhash64_hash_def)
  moreover have "push_bit (length u) (gearhash64_hash g v) = 0"
    using assms by (intro bit_word_eqI) (simp add: bit_simps)
  ultimately show ?thesis by simp
qed

section \<open>Properties\<close>

lemma gearhash64_core_sum: "core_sum gearhash64_iface d = gearhash64_Sum64 d"
  by (simp add: core_sum_def gearhash64_iface_def)

lemma gearhash64_WriteWindow_ok:
  "gearhash64_inv d \<Longrightarrow> gearhash64_WriteWindow buffer_Write buf d =
     Some (int (length (gearhash64_window d)), None, buf @ gearhash64_window d)"
  by (simp add: gearhash64_WriteWindow_def gearhash64_inv_def gearhash64_window_def window_Write_buffer)

text \<open>C24: Any sequence of calls of \<open>Reset\<close>, \<open>Write\<close> and \<open>Roll\<close> on a new hash of gearhash64 panics exactly when it
  rolls on an empty window, and otherwise leaves the checksum of the bytes that the calls leave in the
  window, oldest byte first; \<open>WriteWindow\<close> writes exactly these bytes. \<open>Sum\<close> appends its \<open>Size\<close>
  bytes, most significant first.\<close>

theorem gearhash64_run:
  "case window_ops ops [] of
     None \<Rightarrow> run_ops gearhash64_iface ops (gearhash64_NewFromUint64Array a) = None
   | Some w \<Rightarrow> \<exists>d. run_ops gearhash64_iface ops (gearhash64_NewFromUint64Array a) = Some d \<and> gearhash64_Sum64 d = gearhash64_hash a w \<and>
       gearhash64_Sum d pre = pre @ be_bytes (gearhash64_Size d) (gearhash64_hash a w) \<and>
       gearhash64_WriteWindow buffer_Write buf d = Some (int (length w), None, buf @ w)"
proof -
  define d0 where "d0 = gearhash64_NewFromUint64Array a"
  have d0: "gearhash64_inv d0" "gearhash64_window d0 = []" by (simp_all add: d0_def gearhash64_New_inv)
  show ?thesis
    using gearhash64_digest.run_ops_result [OF d0, of ops] gearhash64_WriteWindow_ok
    by (fastforce simp: gearhash64_core_sum gearhash64_Sum_bytes d0_def gearhash64_NewFromUint64Array_def split: option.splits)
qed

text \<open>C16: \<open>BatchRoll\<close> of gearhash64 stores the checksum of every window of the data, in order, and nothing else;
  \<open>BatchBoundaries\<close> reports exactly the windows whose checksum has no bit of the mask, in ascending
  order over its two buffers. No index leaves its slice.\<close>

theorem gearhash64_batch:
  assumes "gearhash64_inv d" and "0 < w" and "n + w = length data"
    and "n < length dst" and "n < length a" and "n < length b"
  shows "gearhash64_BatchRoll d dst data (int w) =
      Some (map (\<lambda>i. gearhash64_hash (gh64_gear d) (window_at w data i)) [0..<Suc n] @ drop (Suc n) dst) \<and>
    boundaries_are msk (\<lambda>i. gearhash64_hash (gh64_gear d) (window_at w data i)) n a b
      (gearhash64_BatchBoundaries d a b data (int w) msk)"
  using gearhash64_digest.batch_roll [OF assms(1) TrueI assms(2,3,4)]
    gearhash64_digest.boundaries [OF assms(1) TrueI assms(2,3,5,6), of msk]
  by (simp add: gearhash64_iface_def del: upt_Suc)

theorem gearhash64_batch_witness:
  "gearhash64_BatchRoll (gearhash64_NewFromUint64Array ucast) [0, 0, 0] [1, 2, 3, 4] 2 =
     Some (map (\<lambda>i. gearhash64_hash (gh64_gear (gearhash64_NewFromUint64Array ucast)) (window_at 2 [1, 2, 3, 4] i)) [0..<Suc 2])"
  using gearhash64_batch [of "gearhash64_NewFromUint64Array ucast" 2 2 "[1, 2, 3, 4]" "[0, 0, 0]" "[0, 0, 0]" "[0, 0, 0]"]
  by (simp add: gearhash64_New_inv)

text \<open>The closed form of the package comment: the checksum of a window \<open>w\<close> is the sum of the table words of its bytes, each shifted by its distance from the end.
  Two windows that agree on their last 64 bytes have the same sum.\<close>

theorem gearhash64_closed_form:
  "gearhash64_hash g w = (\<Sum>i<length w. push_bit (length w - 1 - i) (g (w ! i)))
   \<and> (64 \<le> length u \<longrightarrow> gearhash64_hash g (v @ u) = gearhash64_hash g (w @ u))"
  using gearhash64_hash_sum [of g w] gearhash64_hash_last [of u g] by simp

theorem gearhash64_closed_form_witness:
  "gearhash64_hash ucast ([1, 2] @ replicate 64 3) = gearhash64_hash ucast ([7] @ replicate 64 3)"
  using gearhash64_closed_form [of ucast "[7]" "replicate 64 3" "[1, 2]"] by simp

end
