(* ===== verification/Adler32.thy ===== *)
theory Adler32
  imports Hash_Iface
begin

text \<open>
  adler32/adler32.go: the rolling version of Adler-32. \<open>adler32\<close> is the struct \<open>Adler32\<close>: the
  two running sums \<open>a\<close> and \<open>b\<close>, the window length \<open>n\<close> modulo \<open>Mod\<close>, and the circular buffer.
  \<open>Write\<close> delegates to the standard library's \<open>hash/adler32\<close>, whose checksum is
  \<open>vanilla_Sum32\<close>; it is reset before every use, so its state is not part of the model. All
  arithmetic is \<open>uint32\<close> and wraps: the lengths are converted to \<open>uint32\<close> before they are
  reduced, so the rolling law needs windows shorter than \<open>2^32\<close> bytes.
\<close>

section \<open>The digest\<close>

abbreviation Mod :: u32 where "Mod \<equiv> 65521"

record adler32 =
  ad32_a :: u32
  ad32_b :: u32
  ad32_n :: u32
  ad32_window :: "byte list"
  ad32_oldest :: nat

definition adler32_Reset :: "adler32 \<Rightarrow> adler32" where
  "adler32_Reset d =
     d\<lparr>ad32_window := [], ad32_oldest := 0, ad32_a := 1, ad32_b := 0, ad32_n := 0\<rparr>"

definition adler32_New :: adler32 where
  "adler32_New = \<lparr>ad32_a = 1, ad32_b = 0, ad32_n = 0, ad32_window = [], ad32_oldest = 0\<rparr>"

text \<open>One byte: \<open>a = (a + c) % Mod; b = (b + a) % Mod\<close>.\<close>

fun adler32_absorb :: "u32 \<times> u32 \<Rightarrow> byte \<Rightarrow> u32 \<times> u32" where
  "adler32_absorb (a, b) c = (let a = (a + ucast c) mod Mod in (a, (b + a) mod Mod))"

text \<open>\<open>b<<16 | a\<close>\<close>

fun adler32_pack :: "u32 \<times> u32 \<Rightarrow> u32" where
  "adler32_pack (a, b) = push_bit 16 b OR a"

text \<open>The standard library's checksum of a byte slice.\<close>

definition vanilla_Sum32 :: "byte list \<Rightarrow> u32" where
  "vanilla_Sum32 xs = adler32_pack (foldl adler32_absorb (1, 0) xs)"

definition adler32_Write :: "adler32 \<Rightarrow> byte list \<Rightarrow> adler32 option" where
  "adler32_Write d data =
     (if length data = 0 then Some d
      else do {
        window \<leftarrow> (if ad32_oldest d \<noteq> 0 then MoveLeft (ad32_window d) (ad32_oldest d)
                   else Some (ad32_window d));
        let window = window @ data;
        let s = vanilla_Sum32 window;
        Some (d\<lparr>ad32_window := window, ad32_oldest := 0, ad32_a := s AND 0xffff,
                 ad32_b := drop_bit 16 s, ad32_n := word_of_nat (length window) mod Mod\<rparr>)
      })"

definition adler32_Sum32 :: "adler32 \<Rightarrow> u32" where
  "adler32_Sum32 d = adler32_pack (ad32_a d, ad32_b d)"

definition adler32_Sum :: "adler32 \<Rightarrow> byte list \<Rightarrow> byte list" where
  "adler32_Sum d b =
     (let v = adler32_Sum32 d in
      b @ [ucast (drop_bit 24 v), ucast (drop_bit 16 v), ucast (drop_bit 8 v), ucast v])"

definition adler32_Size :: "adler32 \<Rightarrow> int" where
  "adler32_Size d = 4"

definition adler32_BlockSize :: "adler32 \<Rightarrow> int" where
  "adler32_BlockSize d = 1"

lemma adler32_Sum_bytes: "adler32_Sum d b = b @ be_bytes (adler32_Size d) (ucast (adler32_Sum32 d))"
  by (simp add: adler32_Sum_def adler32_Size_def be_bytes_32 Let_def)

text \<open>The rolling step: \<open>a = (a + Mod + enter - leave) % Mod\<close> and
  \<open>b = (b + a + Mod - 1 - (n*leave)%Mod) % Mod\<close>.\<close>

fun adler32_roll_step :: "u32 \<Rightarrow> u32 \<times> u32 \<Rightarrow> byte \<Rightarrow> byte \<Rightarrow> u32 \<times> u32" where
  "adler32_roll_step n (a, b) leave enter =
     (let a = (a + Mod + ucast enter - ucast leave) mod Mod
      in (a, (b + a + Mod - 1 - (n * ucast leave) mod Mod) mod Mod))"

definition adler32_Roll :: "adler32 \<Rightarrow> byte \<Rightarrow> adler32 option" where
  "adler32_Roll d c = do {
     leave \<leftarrow> idx (ad32_window d) (ad32_oldest d);
     let window = (ad32_window d)[ad32_oldest d := c];
     let oldest = ad32_oldest d + 1;
     let oldest = (if length window \<le> oldest then 0 else oldest);
     let (a, b) = adler32_roll_step (ad32_n d) (ad32_a d, ad32_b d) leave c;
     Some (d\<lparr>ad32_window := window, ad32_oldest := oldest, ad32_a := a, ad32_b := b\<rparr>)
   }"

definition adler32_WriteWindow ::
    "'w writer \<Rightarrow> 'w \<Rightarrow> adler32 \<Rightarrow> (int \<times> gerror option \<times> 'w) option" where
  "adler32_WriteWindow wr w d = window_Write wr w (ad32_window d) (ad32_oldest d)"

text \<open>A lane over \<open>data\<close> with window \<open>w\<close>, where \<open>wmod := uint32(window) % Mod\<close>.\<close>

definition adler32_lane :: "nat \<Rightarrow> byte list \<Rightarrow> (u32 \<times> u32) lane" where
  "adler32_lane w data =
     (let wmod = word_of_nat w mod Mod in
      \<lparr>ln_step = adler32_roll_step wmod, ln_out = (\<lambda>v. ucast (adler32_pack v)),
       ln_leave = (\<lambda>i. idx data i), ln_enter = (\<lambda>i. idx data (i + w))\<rparr>)"

definition adler32_BatchRoll :: "adler32 \<Rightarrow> u64 list \<Rightarrow> byte list \<Rightarrow> int \<Rightarrow> u64 list option" where
  "adler32_BatchRoll d dst data window =
     (if window \<le> 0 \<or> int (length data) < window then Some dst
      else
        let w = nat window; n = length data - w
        in roll_lanes (adler32_lane w data)
             (\<lambda>off. warm_from adler32_absorb data off 0 w (1, 0)) n dst)"

definition adler32_BatchBoundaries :: "adler32 \<Rightarrow> i32 list \<Rightarrow> i32 list \<Rightarrow> byte list \<Rightarrow> int \<Rightarrow> u64 \<Rightarrow>
    (i32 list \<times> i32 list \<times> nat \<times> nat) option" where
  "adler32_BatchBoundaries d a b data window msk =
     (if window \<le> 0 \<or> int (length data) < window then Some (a, b, 0, 0)
      else
        let w = nat window; n = length data - w
        in hit_lanes (adler32_lane w data)
             (\<lambda>off. warm_from adler32_absorb data off 0 w (1, 0)) n msk a b)"

section \<open>The two sums as integers\<close>

fun adler_sums :: "byte list \<Rightarrow> int \<times> int" where
  "adler_sums [] = (1, 0)"
| "adler_sums (x # xs) =
     (case adler_sums xs of (a, b) \<Rightarrow> (a + uint x, b + 1 + int (Suc (length xs)) * uint x))"

lemma adler_sums_snoc:
  "adler_sums (xs @ [y]) =
     (case adler_sums xs of (a, b) \<Rightarrow> (a + uint y, b + a + uint y))"
  by (induction xs) (auto simp: algebra_simps split: prod.splits)

lemma adler_sums_slide:
  "adler_sums (xs @ [y]) =
     (case adler_sums (x # xs) of (a, b) \<Rightarrow>
        (a + uint y - uint x, b + (a + uint y - uint x) - 1 - int (Suc (length xs)) * uint x))"
  by (auto simp: adler_sums_snoc algebra_simps split: prod.splits)

text \<open>The pair of words holds the two sums modulo \<open>Mod\<close>.\<close>

definition adler_rep :: "u32 \<times> u32 \<Rightarrow> int \<times> int \<Rightarrow> bool" where
  "adler_rep v s \<longleftrightarrow> uint (fst v) = fst s mod 65521 \<and> uint (snd v) = snd s mod 65521"

lemma uint_byte_less: "uint (x :: byte) < 256"
  using uint_bounded [of x] by simp

lemma uint_ucast_byte [simp]: "uint (ucast (x :: byte) :: u32) = uint x"
  by (simp add: unsigned_ucast_eq take_bit_int_eq_self uint_byte_less order_less_trans [OF uint_byte_less])

lemma uint_Mod: "uint Mod = 65521"
  by simp

lemma mod_less_M: "(s :: int) mod 65521 < 65521" "0 \<le> (s :: int) mod 65521"
  by simp_all

lemma adler_rep_unique: "adler_rep v s \<Longrightarrow> adler_rep v' s \<Longrightarrow> v = v'"
  by (auto simp: adler_rep_def word_uint_eq_iff intro: prod_eqI)

lemma adler_rep_absorb:
  assumes "adler_rep v (a, b)"
  shows "adler_rep (adler32_absorb v c) (a + uint c, b + a + uint c)"
proof -
  obtain va vb where v: "v = (va, vb)" by fastforce
  have r: "uint va = a mod 65521" "uint vb = b mod 65521"
    using assms by (simp_all add: adler_rep_def v)
  have c: "0 \<le> uint c" "uint c < 256" using uint_byte_less by simp_all
  have "uint ((va + ucast c) mod Mod) = (a + uint c) mod 65521"
    using c r mod_less_M [of a]
    by (simp add: uint_mod_distrib uint_word_ariths mod_add_left_eq mod_pos_pos_trivial)
  moreover from this have "uint ((vb + (va + ucast c) mod Mod) mod Mod) = (b + a + uint c) mod 65521"
    using r mod_less_M [of b] mod_less_M [of "a + uint c"]
    by (simp add: uint_mod_distrib [of "_ + _" Mod] uint_word_ariths mod_add_eq mod_pos_pos_trivial add.assoc)
  ultimately show ?thesis by (simp add: adler_rep_def v Let_def)
qed

lemma adler_rep_hash: "adler_rep (foldl adler32_absorb (1, 0) xs) (adler_sums xs)"
proof (induction xs rule: rev_induct)
  case Nil
  then show ?case by (simp add: adler_rep_def)
next
  case (snoc x xs)
  then show ?case
    using adler_rep_absorb [of _ "fst (adler_sums xs)" "snd (adler_sums xs)" x]
    by (simp add: adler_sums_snoc split_beta)
qed

lemma mod_drop_a: "(a mod m + m + y - x) mod m = (a + y - x) mod (m :: int)"
  unfolding mod_eq_dvd_iff unfolding minus_mult_div_eq_mod [symmetric]
  by (rule dvdI [of _ _ "1 - a div m"]) (simp add: algebra_simps)

lemma mod_drop_b: "(b mod m + c mod m + m - 1 - d mod m) mod m = (b + c - 1 - d) mod (m :: int)"
  unfolding mod_eq_dvd_iff unfolding minus_mult_div_eq_mod [symmetric]
  by (rule dvdI [of _ _ "1 - b div m - c div m + d div m"]) (simp add: algebra_simps)

lemma adler_rep_roll:
  assumes "adler_rep v (a, b)" and n: "uint n = k mod 65521"
  shows "adler_rep (adler32_roll_step n v x y)
    (a + uint y - uint x, b + (a + uint y - uint x) - 1 - k * uint x)"
proof -
  obtain va vb where v: "v = (va, vb)" by fastforce
  have r: "uint va = a mod 65521" "uint vb = b mod 65521"
    using assms(1) by (simp_all add: adler_rep_def v)
  have bytes: "0 \<le> uint x" "uint x < 256" "0 \<le> uint y" "uint y < 256"
    using uint_byte_less by simp_all
  define a' where "a' = (va + Mod + ucast y - ucast x) mod Mod"
  have "uint (va + Mod + ucast y - ucast x) = a mod 65521 + 65521 + uint y - uint x"
    by (simp add: uint_word_ariths mod_simps r)
      (intro mod_pos_pos_trivial; use bytes mod_less_M [of a] in linarith)
  then have a': "uint a' = (a + uint y - uint x) mod 65521"
    by (simp add: a'_def uint_mod_distrib mod_drop_a)
  have "0 \<le> k mod 65521 * uint x" "k mod 65521 * uint x \<le> 65520 * 255"
    using bytes mod_less_M [of k] mult_mono [of "k mod 65521" 65520 "uint x" 255] by simp_all
  then have nx: "uint ((n * ucast x) mod Mod) = (k * uint x) mod 65521"
    by (simp add: uint_mod_distrib uint_word_ariths n mod_pos_pos_trivial mod_mult_left_eq)
  have "uint (vb + a' + Mod - 1 - (n * ucast x) mod Mod) =
      b mod 65521 + (a + uint y - uint x) mod 65521 + 65521 - 1 - (k * uint x) mod 65521"
    using mod_less_M [of b] mod_less_M [of "a + uint y - uint x"] mod_less_M [of "k * uint x"]
    by (simp add: uint_word_arith_bintrs r a' nx take_bit_eq_mod mod_simps mod_pos_pos_trivial)
  then have "uint ((vb + a' + Mod - 1 - (n * ucast x) mod Mod) mod Mod) =
      (b + (a + uint y - uint x) - 1 - k * uint x) mod 65521"
    by (simp only: uint_mod_distrib uint_Mod mod_drop_b)
  then show ?thesis using a' by (simp add: adler_rep_def v Let_def a'_def)
qed

section \<open>The rolling law\<close>

text \<open>The step of a window of \<open>w\<close> bytes, for any \<open>w\<close>: the code's \<open>uint32(window) % Mod\<close> is this
  weight when \<open>w\<close> fits in a \<open>uint32\<close>.\<close>

definition adler32_weight :: "nat \<Rightarrow> u32" where
  "adler32_weight w = word_of_nat (w mod 65521)"

lemma uint_adler32_weight: "uint (adler32_weight w) = int w mod 65521"
proof -
  have "w mod 65521 < 65521" by simp
  then have "w mod 65521 < 2 ^ 32" by (rule order_less_trans) simp
  then show ?thesis by (simp add: adler32_weight_def unsigned_of_nat take_bit_nat_eq_self zmod_int)
qed

lemma adler32_weight_code: "w < 2 ^ 32 \<Longrightarrow> word_of_nat w mod Mod = adler32_weight w"
  by (simp add: word_uint_eq_iff uint_adler32_weight uint_mod_distrib unsigned_of_nat take_bit_nat_eq_self zmod_int)

interpretation adler: rolling_hash "(1, 0)" adler32_absorb "\<lambda>w. adler32_roll_step (adler32_weight w)"
proof
  fix xs x y
  obtain a b where s: "adler_sums (x # xs) = (a, b)" by fastforce
  have "adler_rep (adler32_roll_step (adler32_weight (Suc (length xs)))
      (foldl adler32_absorb (1, 0) (x # xs)) x y) (adler_sums (xs @ [y]))"
    using adler_rep_roll [OF adler_rep_hash [of "x # xs", unfolded s] uint_adler32_weight, of "Suc (length xs)" x y]
      adler_sums_slide [of xs y x] s
    by simp
  then show "adler32_roll_step (adler32_weight (Suc (length xs))) (foldl adler32_absorb (1, 0) (x # xs)) x y =
      foldl adler32_absorb (1, 0) (xs @ [y])"
    by (rule adler_rep_unique) (rule adler_rep_hash)
qed

lemma adler32_fold_bounds:
  assumes "foldl adler32_absorb (1, 0) xs = (a, b)"
  shows "a < 2 ^ 16" "b < 2 ^ 16" "uint a < 65521" "uint b < 65521"
proof -
  have "uint a = fst (adler_sums xs) mod 65521" "uint b = snd (adler_sums xs) mod 65521"
    using adler_rep_hash [of xs] assms by (simp_all add: adler_rep_def)
  then show "uint a < 65521" "uint b < 65521" by simp_all
  then show "a < 2 ^ 16" "b < 2 ^ 16" by (simp_all add: word_less_def)
qed

text \<open>\<open>s&0xffff\<close> and \<open>s>>16\<close> take the packed sums apart again.\<close>

lemma adler32_unpack:
  assumes "a < 2 ^ 16" and "b < 2 ^ 16"
  shows "adler32_pack (a, b) AND 0xffff = a" and "drop_bit 16 (adler32_pack (a, b)) = b"
proof -
  have t: "take_bit 16 a = a" "take_bit 16 b = b"
    using assms by (simp_all add: word_uint_eq_iff unsigned_take_bit_eq take_bit_int_eq_self_iff word_less_def)
  have m: "0xffff = (mask 16 :: u32)" by (simp add: mask_eq_exp_minus_1)
  have a: "bit a n \<Longrightarrow> n < 16" and b: "bit b n \<Longrightarrow> n < 16" for n
    using arg_cong [OF t(1), of "\<lambda>w. bit w n"] arg_cong [OF t(2), of "\<lambda>w. bit w n"]
    by (simp_all add: bit_take_bit_iff)
  show "adler32_pack (a, b) AND 0xffff = a"
    unfolding m by (rule bit_eqI) (use a in \<open>auto simp: bit_simps\<close>)
  show "drop_bit 16 (adler32_pack (a, b)) = b"
    by (rule bit_eqI) (use a b in \<open>auto simp: bit_simps dest: bit_imp_le_length\<close>)
qed

section \<open>The digest is a rolling hash of its window\<close>

definition adler32_window :: "adler32 \<Rightarrow> byte list" where
  "adler32_window d = contents (ad32_window d) (ad32_oldest d)"

definition adler32_inv :: "adler32 \<Rightarrow> bool" where
  "adler32_inv d \<longleftrightarrow>
     circ_ok (ad32_window d) (ad32_oldest d) \<and>
     (ad32_a d, ad32_b d) = foldl adler32_absorb (1, 0) (adler32_window d) \<and>
     ad32_n d = adler32_weight (length (ad32_window d))"

lemma adler32_New_inv: "adler32_inv adler32_New" "adler32_window adler32_New = []"
  by (simp_all add: adler32_inv_def adler32_window_def adler32_New_def adler32_weight_def)

lemma adler32_Write_ok:
  assumes inv: "adler32_inv d" and fit: "length (adler32_window d @ xs) < 2 ^ 32"
  shows "\<exists>d'. adler32_Write d xs = Some d' \<and> adler32_inv d' \<and> adler32_window d' = adler32_window d @ xs"
proof (cases "xs = []")
  case True
  then show ?thesis using assms by (simp add: adler32_Write_def)
next
  case False
  have le: "ad32_oldest d \<le> length (ad32_window d)"
    using inv by (simp add: adler32_inv_def circ_ok_le)
  obtain a b where f: "foldl adler32_absorb (1, 0) (adler32_window d @ xs) = (a, b)" by fastforce
  have s: "vanilla_Sum32 (adler32_window d @ xs) AND 0xffff = a"
      "drop_bit 16 (vanilla_Sum32 (adler32_window d @ xs)) = b"
    using adler32_unpack [OF adler32_fold_bounds(1,2) [OF f]] by (simp_all only: vanilla_Sum32_def f)
  define win where "win = adler32_window d @ xs"
  define n where "n = (word_of_nat (length win) mod Mod :: u32)"
  have n: "n = adler32_weight (length win)"
    using adler32_weight_code fit by (simp only: n_def win_def)
  have "adler32_Write d xs = Some (d\<lparr>ad32_window := win, ad32_oldest := 0, ad32_a := a, ad32_b := b, ad32_n := n\<rparr>)"
    using False le s unfolding adler32_Write_def
    by (cases "ad32_oldest d = 0") (simp_all add: MoveLeft_contents Let_def n_def win_def adler32_window_def)
  then show ?thesis using f by (simp add: adler32_inv_def adler32_window_def n win_def)
qed

lemma adler32_Roll_ok:
  assumes inv: "adler32_inv d" and win: "adler32_window d = x # ys"
  shows "\<exists>d'. adler32_Roll d c = Some d' \<and> adler32_inv d' \<and> adler32_window d' = ys @ [c]"
proof -
  have ok: "circ_ok (ad32_window d) (ad32_oldest d)" and ne: "ad32_window d \<noteq> []"
    using inv win by (auto simp: adler32_inv_def adler32_window_def)
  obtain w' o' where p: "circ_push (ad32_window d) (ad32_oldest d) c = (w', o')"
    by fastforce
  note law = adler.roll_contents [OF ok ne p]
  obtain a b where ab: "foldl adler32_absorb (1, 0) (contents w' o') = (a, b)" by fastforce
  have "adler32_roll_step (ad32_n d) (ad32_a d, ad32_b d) (ad32_window d ! ad32_oldest d) c = (a, b)"
    using law inv ab by (simp add: adler32_inv_def adler32_window_def)
  then have "adler32_Roll d c = Some (d\<lparr>ad32_window := w', ad32_oldest := o', ad32_a := a, ad32_b := b\<rparr>)"
    using p ok ne unfolding adler32_Roll_def
    by (auto simp: circ_push_def circ_ok_def idx_def Let_def)
  then show ?thesis
    using inv win contents_push [OF ok ne p] circ_push_ok [OF ok p] length_circ_push [OF p] ab
    by (simp add: adler32_inv_def adler32_window_def)
qed

lemma adler32_Roll_empty: "adler32_inv d \<Longrightarrow> adler32_window d = [] \<Longrightarrow> adler32_Roll d c = None"
  by (simp add: adler32_Roll_def adler32_window_def idx_def)

text \<open>The rolling checksum is the standard library's checksum of the window.\<close>

lemma adler32_Sum32_vanilla: "adler32_inv d \<Longrightarrow> adler32_Sum32 d = vanilla_Sum32 (adler32_window d)"
  by (simp add: adler32_Sum32_def vanilla_Sum32_def adler32_inv_def)

lemma adler32_lane_step:
  "w < 2 ^ 32 \<Longrightarrow> ln_step (adler32_lane w data) = adler32_roll_step (adler32_weight w)"
  unfolding adler32_lane_def Let_def by (simp only: adler32_weight_code lane.simps)

lemma adler32_lane_out [simp]: "ln_out (adler32_lane w data) = (\<lambda>v. ucast (adler32_pack v))"
  by (simp add: adler32_lane_def)

lemma adler32_lane_reads:
  assumes "n + w = length data" and "i < n"
  shows "ln_leave (adler32_lane w data) i = Some (data ! i)"
    and "ln_enter (adler32_lane w data) i = Some (data ! (i + w))"
  using assms by (auto simp: adler32_lane_def idx_def)

definition adler32_iface :: "adler32 hash_iface" where
  "adler32_iface = \<lparr>h_Reset = (\<lambda>d. Some (adler32_Reset d)), h_Write = adler32_Write, h_Roll = adler32_Roll,
     h_Sum = adler32_Sum, h_Size = adler32_Size, h_BlockSize = adler32_BlockSize, h_Sum32 = Some adler32_Sum32, h_Sum64 = None,
     h_BatchRoll = Some adler32_BatchRoll, h_BatchBoundaries = Some adler32_BatchBoundaries\<rparr>"

interpretation adler32_digest: digest adler32_iface adler32_inv adler32_window
    "\<lambda>d xs. ucast (vanilla_Sum32 xs)" "\<lambda>n. n < 2 ^ 32"
proof
  fix d xs x ys c w n data dst a b msk b'
  assume inv: "adler32_inv d"
  show sum: "core_sum adler32_iface d = ucast (vanilla_Sum32 (adler32_window d))"
    using inv by (simp add: core_sum_def adler32_iface_def adler32_Sum32_vanilla)
  show "\<exists>bs. h_Sum adler32_iface d b' = b' @ bs \<and> int (length bs) = h_Size adler32_iface d \<and> be_value bs = ucast (vanilla_Sum32 (adler32_window d))"
    using sum by (simp add: core_sum_def adler32_iface_def adler32_Sum_def adler32_Size_def be_value_32 Let_def)
  show "\<exists>d'. h_Reset adler32_iface d = Some d' \<and> adler32_inv d' \<and> adler32_window d' = [] \<and>
      (\<lambda>xs. ucast (vanilla_Sum32 xs)) = (\<lambda>xs. ucast (vanilla_Sum32 xs) :: u64)"
    by (simp add: adler32_iface_def adler32_Reset_def adler32_inv_def adler32_window_def adler32_weight_def)
  show "\<exists>d'. h_Write adler32_iface d xs = Some d' \<and> adler32_inv d' \<and>
      adler32_window d' = adler32_window d @ xs \<and>
      (\<lambda>xs. ucast (vanilla_Sum32 xs)) = (\<lambda>xs. ucast (vanilla_Sum32 xs) :: u64)"
    if "length (adler32_window d @ xs) < 2 ^ 32"
    using adler32_Write_ok [OF inv that] by (simp add: adler32_iface_def)
  show "\<exists>d'. h_Roll adler32_iface d c = Some d' \<and> adler32_inv d' \<and> adler32_window d' = ys @ [c] \<and>
      (\<lambda>xs. ucast (vanilla_Sum32 xs)) = (\<lambda>xs. ucast (vanilla_Sum32 xs) :: u64)"
    if "adler32_window d = x # ys"
    using adler32_Roll_ok [OF inv that, of c] by (simp add: adler32_iface_def)
  show "h_Roll adler32_iface d c = None" if "adler32_window d = []"
    using adler32_Roll_empty [OF inv that] by (simp add: adler32_iface_def)
  show "\<exists>br. h_BatchRoll adler32_iface = Some br \<and> br d dst data (int w) =
      Some (map (\<lambda>i. ucast (vanilla_Sum32 (window_at w data i))) [0..<Suc n] @ drop (Suc n) dst)"
    if fit: "w < 2 ^ 32" and w: "0 < w" "n + w = length data" and dst: "n < length dst"
    using adler.roll_lanes_window [OF w adler32_lane_step [OF fit] adler32_lane_reads [OF w(2)]
        warm_from_window dst] w
    by (simp add: adler32_iface_def adler32_BatchRoll_def Let_def vanilla_Sum32_def nat_eq_diff [OF w(2)] del: upt_Suc)
  show "\<exists>brd. h_BatchBoundaries adler32_iface = Some brd \<and> boundaries_are msk (\<lambda>p. ucast (vanilla_Sum32 (window_at w data p))) n a b
      (brd d a b data (int w) msk)"
    if fit: "w < 2 ^ 32" and w: "0 < w" "n + w = length data" and ab: "n < length a" "n < length b"
    using adler.hit_lanes_window [OF w adler32_lane_step [OF fit] adler32_lane_reads [OF w(2)]
        warm_from_window ab, of msk] w
    by (simp add: adler32_iface_def adler32_BatchBoundaries_def Let_def vanilla_Sum32_def nat_eq_diff [OF w(2)] del: upt_Suc)
qed

section \<open>Properties\<close>

lemma adler32_core_sum: "core_sum adler32_iface d = ucast (adler32_Sum32 d)"
  by (simp add: core_sum_def adler32_iface_def)

lemma adler32_WriteWindow_ok:
  "adler32_inv d \<Longrightarrow> adler32_WriteWindow buffer_Write buf d =
     Some (int (length (adler32_window d)), None, buf @ adler32_window d)"
  by (simp add: adler32_WriteWindow_def adler32_inv_def adler32_window_def window_Write_buffer)

text \<open>C17: As long as no window reaches 2^32 bytes, any sequence of calls of \<open>Reset\<close>, \<open>Write\<close> and \<open>Roll\<close> on a
  new rolling Adler-32 panics exactly when it rolls on an empty window, and otherwise \<open>Sum32\<close> is the
  checksum that the standard library computes for the bytes in the window, from scratch. \<open>Sum\<close> appends its \<open>Size\<close>
  bytes, most significant first.\<close>

theorem adler32_run:
  assumes "ops_fit (\<lambda>n. n < 2 ^ 32) ops []"
  shows "case window_ops ops [] of
     None \<Rightarrow> run_ops adler32_iface ops adler32_New = None
   | Some w \<Rightarrow> \<exists>d. run_ops adler32_iface ops adler32_New = Some d \<and> adler32_Sum32 d = vanilla_Sum32 w \<and>
       adler32_Sum d pre = pre @ be_bytes (adler32_Size d) (ucast (vanilla_Sum32 w)) \<and>
       adler32_WriteWindow buffer_Write buf d = Some (int (length w), None, buf @ w)"
  using adler32_digest.run_ops_result [OF adler32_New_inv assms] adler32_WriteWindow_ok
  by (fastforce simp: adler32_core_sum adler32_Sum_bytes split: option.splits)

theorem adler32_run_witness:
  "\<exists>d. run_ops adler32_iface [OpWrite [1, 2], OpRoll 3] adler32_New = Some d \<and>
     adler32_Sum32 d = vanilla_Sum32 [2, 3]"
  using adler32_run [of "[OpWrite [1, 2], OpRoll 3]" "[]"] by auto

text \<open>C29: \<open>BatchRoll\<close> of adler32 stores the standard checksum of every window of the data, in order, and
  nothing else; \<open>BatchBoundaries\<close> reports exactly the windows whose checksum has no bit of the mask, in
  ascending order over its two buffers. No index leaves its slice. The window has fewer than \<open>2^32\<close> bytes.\<close>

theorem adler32_batch:
  assumes "adler32_inv d" and "w < 2 ^ 32" and "0 < w" and "n + w = length data"
    and "n < length dst" and "n < length a" and "n < length b"
  shows "adler32_BatchRoll d dst data (int w) =
      Some (map (\<lambda>i. ucast (vanilla_Sum32 (window_at w data i))) [0..<Suc n] @ drop (Suc n) dst) \<and>
    boundaries_are msk (\<lambda>i. ucast (vanilla_Sum32 (window_at w data i))) n a b
      (adler32_BatchBoundaries d a b data (int w) msk)"
  using adler32_digest.batch_roll [OF assms(1-5)] adler32_digest.boundaries [OF assms(1-4,6,7), of msk]
  by (simp add: adler32_iface_def del: upt_Suc)

theorem adler32_batch_witness:
  "adler32_BatchRoll adler32_New [0, 0, 0] [1, 2, 3, 4] 2 =
     Some (map (\<lambda>i. ucast (vanilla_Sum32 (window_at 2 [1, 2, 3, 4] i))) [0..<Suc 2])"
  using adler32_batch [of adler32_New 2 2 "[1, 2, 3, 4]" "[0, 0, 0]" "[0, 0, 0]" "[0, 0, 0]"]
  by (simp add: adler32_New_inv)

text \<open>C36: A rolling Adler-32 keeps its representation: as long as no window reaches 2^32 bytes, after any sequence
  of calls that does not panic both running sums are reduced modulo 65521, \<open>n\<close> is the length of the window
  modulo 65521, \<open>oldest\<close> is an index of the window (0 when it is empty), and \<open>Sum32\<close> is made of the two sums
  side by side, so that it determines both.\<close>

theorem adler32_state_type:
  assumes "ops_fit (\<lambda>n. n < 2 ^ 32) ops []" and "run_ops adler32_iface ops adler32_New = Some d"
  shows "uint (ad32_a d) < 65521 \<and> uint (ad32_b d) < 65521 \<and>
    uint (ad32_n d) = int (length (ad32_window d)) mod 65521 \<and>
    (if ad32_window d = [] then ad32_oldest d = 0 else ad32_oldest d < length (ad32_window d)) \<and>
    adler32_Sum32 d AND 0xffff = ad32_a d \<and> drop_bit 16 (adler32_Sum32 d) = ad32_b d"
proof -
  have inv: "adler32_inv d"
    using adler32_digest.run_ops_result [OF adler32_New_inv assms(1)] assms(2) by (auto split: option.splits)
  then have sums: "foldl adler32_absorb (1, 0) (adler32_window d) = (ad32_a d, ad32_b d)"
    and circ: "circ_ok (ad32_window d) (ad32_oldest d)" and n: "ad32_n d = adler32_weight (length (ad32_window d))"
    by (simp_all add: adler32_inv_def)
  note small = adler32_fold_bounds [OF sums]
  have "adler32_Sum32 d = adler32_pack (ad32_a d, ad32_b d)" by (simp add: adler32_Sum32_def)
  then show ?thesis using small circ adler32_unpack [OF small(1,2)] by (auto simp: n uint_adler32_weight circ_ok_def)
qed

theorem adler32_state_type_witness:
  "\<exists>d. run_ops adler32_iface [OpWrite [255, 255], OpRoll 3] adler32_New = Some d \<and> uint (ad32_b d) < 65521 \<and>
    uint (ad32_n d) = 2"
proof -
  obtain d where d: "run_ops adler32_iface [OpWrite [255, 255], OpRoll 3] adler32_New = Some d" "adler32_inv d"
      "adler32_window d = [255, 3]"
    using adler32_digest.run_ops_result [OF adler32_New_inv, of "[OpWrite [255, 255], OpRoll 3]"] by auto
  have "length (ad32_window d) = 2" using arg_cong [OF d(3), of length] by (simp add: adler32_window_def)
  then show ?thesis using adler32_state_type [OF _ d(1)] d(1) by simp
qed

end
