(* ===== verification/Gf2.thy ===== *)
theory Gf2
  imports Go_Prelude
begin

text \<open>
  The ring of polynomials over the field with two elements, the mathematics behind rabinkarp64. A
  polynomial is the natural number whose bits are its coefficients; addition is exclusive or and
  multiplication is carry-less. \<open>gf2\<close> is an instance of the library's Euclidean rings, so that
  remainders, divisibility and coprimality come with their lemmas.
\<close>

section \<open>Degrees\<close>

text \<open>The number of bits of a natural number: one more than the degree of the polynomial.\<close>

fun nbits :: "nat \<Rightarrow> nat" where
  "nbits n = (if n = 0 then 0 else Suc (nbits (n div 2)))"

declare nbits.simps [simp del]

lemma nbits_0 [simp]: "nbits 0 = 0"
  by (simp add: nbits.simps)

lemma nbits_pos: "0 < n \<Longrightarrow> nbits n = Suc (nbits (n div 2))"
  by (subst nbits.simps) simp

lemma nbits_0_iff [simp]: "nbits n = 0 \<longleftrightarrow> n = 0"
  by (cases "n = 0") (simp_all add: nbits_pos)

lemma nbits_gt_0 [simp]: "0 < nbits n \<longleftrightarrow> 0 < n"
  using nbits_0_iff [of n] by linarith

lemma nbits_le_iff: "nbits n \<le> k \<longleftrightarrow> n < 2 ^ k"
proof (induction n arbitrary: k rule: nbits.induct)
  case (1 n)
  show ?case
  proof (cases "n = 0")
    case False
    show ?thesis
    proof (cases k)
      case 0
      then show ?thesis using False by simp
    next
      case (Suc m)
      have "nbits (n div 2) \<le> m \<longleftrightarrow> n div 2 < 2 ^ m" using False by (intro 1) simp
      then show ?thesis using False Suc by (simp add: nbits_pos) linarith
    qed
  qed simp
qed

lemma nbits_less: "n < 2 ^ nbits n"
  using nbits_le_iff [of n "nbits n"] by simp

lemma nbits_bit: "n \<noteq> 0 \<Longrightarrow> bit n (nbits n - 1)"
proof -
  assume n: "n \<noteq> 0"
  then have "0 < nbits n" by simp
  then have "\<not> nbits n \<le> nbits n - 1" by linarith
  then have "2 ^ (nbits n - 1) \<le> n" unfolding nbits_le_iff by simp
  moreover have "n < 2 ^ Suc (nbits n - 1)" using nbits_less [of n] n by simp
  ultimately have "n div 2 ^ (nbits n - 1) = 1"
    by (intro div_nat_eqI) simp_all
  then show ?thesis by (simp add: bit_iff_odd)
qed

lemma nbits_le_bits: "(\<And>i. k \<le> i \<Longrightarrow> \<not> bit n i) \<Longrightarrow> nbits n \<le> k"
proof (rule ccontr)
  assume no: "\<And>i. k \<le> i \<Longrightarrow> \<not> bit n i" and "\<not> nbits n \<le> k"
  then have "0 < nbits n" "k \<le> nbits n - 1" by linarith+
  then show False using nbits_bit [of n] no by simp
qed

lemma nbits_high: "nbits n \<le> i \<Longrightarrow> \<not> bit (n :: nat) i"
proof -
  assume "nbits n \<le> i"
  then have "n < 2 ^ i" by (simp add: nbits_le_iff [symmetric])
  then show ?thesis by (simp add: bit_iff_odd)
qed

lemma nbits_eqI: "bit n k \<Longrightarrow> (\<And>i. k < i \<Longrightarrow> \<not> bit n i) \<Longrightarrow> nbits n = Suc k"
proof (rule order_antisym)
  assume "bit n k" and no: "\<And>i. k < i \<Longrightarrow> \<not> bit n i"
  show "nbits n \<le> Suc k" by (rule nbits_le_bits) (use no in simp)
  show "Suc k \<le> nbits n" using \<open>bit n k\<close> nbits_high [of n k] by (meson not_less_eq_eq)
qed

lemma nbits_push: "n \<noteq> 0 \<Longrightarrow> nbits (push_bit k n) = nbits n + k"
proof -
  assume n: "n \<noteq> 0"
  have "nbits (push_bit k n) = Suc (nbits n - 1 + k)"
  proof (rule nbits_eqI)
    show "bit (push_bit k n) (nbits n - 1 + k)" using nbits_bit [OF n] by (simp add: bit_push_bit_iff)
    show "\<not> bit (push_bit k n) i" if "nbits n - 1 + k < i" for i
      using that nbits_high [of n "i - k"] by (simp add: bit_push_bit_iff)
  qed
  moreover have "0 < nbits n" using n by simp
  ultimately show ?thesis by linarith
qed

unbundle bit_operations_syntax

lemma nbits_xor_le: "nbits a \<le> k \<Longrightarrow> nbits b \<le> k \<Longrightarrow> nbits (a XOR b) \<le> k"
  by (rule nbits_le_bits) (auto simp: bit_xor_iff dest: nbits_high [OF order_trans])

lemma nbits_xor_less: "nbits a < nbits b \<Longrightarrow> nbits (a XOR b) = nbits b"
proof -
  assume l: "nbits a < nbits b"
  then have "0 < nbits b" by linarith
  then have "b \<noteq> 0" by simp
  have "nbits (a XOR b) = Suc (nbits b - 1)"
  proof (rule nbits_eqI)
    show "bit (a XOR b) (nbits b - 1)"
      using l nbits_bit [OF \<open>b \<noteq> 0\<close>] nbits_high [of a "nbits b - 1"] by (simp add: bit_xor_iff)
    show "\<not> bit (a XOR b) i" if "nbits b - 1 < i" for i
      using that l nbits_high [of a i] nbits_high [of b i] by (simp add: bit_xor_iff)
  qed
  then show ?thesis using l by simp
qed

text \<open>Two polynomials of the same degree cancel their leading terms.\<close>

lemma nbits_xor_cancel: "nbits a = nbits b \<Longrightarrow> a \<noteq> 0 \<Longrightarrow> nbits (a XOR b) < nbits a"
proof -
  assume e: "nbits a = nbits b" and a: "a \<noteq> 0"
  have "0 < nbits a" using a by simp
  then have "0 < nbits b" using e by linarith
  then have "b \<noteq> 0" by simp
  have "nbits (a XOR b) \<le> nbits a - 1"
  proof (rule nbits_le_bits)
    show "\<not> bit (a XOR b) i" if "nbits a - 1 \<le> i" for i
    proof (cases "i = nbits a - 1")
      case True
      then show ?thesis using nbits_bit [OF a] nbits_bit [OF \<open>b \<noteq> 0\<close>] e by (simp add: bit_xor_iff)
    next
      case False
      then show ?thesis using that e nbits_high [of a i] nbits_high [of b i] by (simp add: bit_xor_iff)
    qed
  qed
  moreover have "nbits a \<noteq> 0" using a by simp
  ultimately show ?thesis by linarith
qed

section \<open>Carry-less multiplication\<close>

fun clmul :: "nat \<Rightarrow> nat \<Rightarrow> nat" where
  "clmul a b = (if b = 0 then 0 else (if odd b then a else 0) XOR 2 * clmul a (b div 2))"

declare clmul.simps [simp del]

lemma clmul_0_right [simp]: "clmul a 0 = 0"
  by (simp add: clmul.simps)

lemma clmul_step: "clmul a b = (if odd b then a else 0) XOR 2 * clmul a (b div 2)"
  by (cases "b = 0") (simp_all add: clmul.simps)

lemma nat_double_xor: "2 * ((a :: nat) XOR b) = 2 * a XOR 2 * b"
  using push_bit_xor [of 1 a b] by (simp add: push_bit_eq_mult mult.commute)

lemma nat_xor_div_2: "((a :: nat) XOR b) div 2 = a div 2 XOR b div 2"
  using drop_bit_xor [of 1 a b] by (simp add: drop_bit_eq_div)

lemma nat_xor_parity: "odd ((a :: nat) XOR b) \<longleftrightarrow> odd a \<noteq> odd b"
  using bit_xor_iff [of a b 0] by (simp add: bit_0)

lemmas nat_xor_ac = xor.assoc xor.commute xor.left_commute

lemma clmul_0_left [simp]: "clmul 0 b = 0"
proof (induction b rule: nbits.induct)
  case (1 b)
  then show ?case by (cases "b = 0") (simp_all add: clmul_step [of 0 b])
qed

lemma clmul_1_right [simp]: "clmul a (Suc 0) = a"
  by (simp add: clmul.simps)

lemma clmul_1_left [simp]: "clmul (Suc 0) b = b"
proof (induction b rule: nbits.induct)
  case (1 b)
  show ?case
  proof (cases "b = 0")
    case False
    have "(if odd b then Suc 0 else 0) XOR 2 * (b div 2) = b"
      by (cases "odd b") (simp_all add: Suc_0_xor_eq)
    then show ?thesis using 1 False by (simp add: clmul_step [of "Suc 0" b])
  qed simp
qed

text \<open>Multiplication is linear in both arguments, commutative and associative.\<close>

lemma clmul_xor_left: "clmul (a XOR a') b = clmul a b XOR clmul a' b"
proof (induction b rule: nbits.induct)
  case (1 b)
  show ?case
  proof (cases "b = 0")
    case False
    then have "clmul (a XOR a') (b div 2) = clmul a (b div 2) XOR clmul a' (b div 2)" by (rule 1)
    then show ?thesis
      by (simp add: clmul_step [of "_ XOR _" b] clmul_step [of a b] clmul_step [of a' b] nat_double_xor nat_xor_ac)
  qed simp
qed

lemma clmul_xor_right: "clmul a (b XOR b') = clmul a b XOR clmul a b'"
proof (induction b arbitrary: b' rule: nbits.induct)
  case (1 b)
  show ?case
  proof (cases "b = 0")
    case False
    then have "clmul a (b div 2 XOR b' div 2) = clmul a (b div 2) XOR clmul a (b' div 2)" by (rule 1)
    then have "2 * clmul a ((b XOR b') div 2) = 2 * clmul a (b div 2) XOR 2 * clmul a (b' div 2)"
      by (simp only: nat_xor_div_2 nat_double_xor)
    moreover have "(if odd (b XOR b') then a else 0) = (if odd b then a else 0) XOR (if odd b' then a else 0)"
      by (auto simp: nat_xor_parity)
    ultimately show ?thesis
      unfolding clmul_step [of a "b XOR b'"] clmul_step [of a b] clmul_step [of a b'] by (simp only: nat_xor_ac)
  qed simp
qed

lemma clmul_double_left: "clmul (2 * a) b = 2 * clmul a b"
proof (induction b rule: nbits.induct)
  case (1 b)
  then show ?case
    by (cases "b = 0") (simp_all add: clmul_step [of "2 * a" b] clmul_step [of a b] nat_double_xor)
qed

lemma clmul_double_right: "clmul a (2 * b) = 2 * clmul a b"
  by (simp add: clmul_step [of a "2 * b"])

lemma nat_bits_split: "(n :: nat) = (if odd n then Suc 0 else 0) XOR 2 * (n div 2)"
  by (cases "odd n") (simp_all add: Suc_0_xor_eq)

lemma clmul_commute: "clmul a b = clmul b a"
proof (induction b rule: nbits.induct)
  case (1 b)
  show ?case
  proof (cases "b = 0")
    case False
    have "clmul b a = clmul (if odd b then Suc 0 else 0) a XOR 2 * clmul (b div 2) a"
      by (subst nat_bits_split [of b]) (simp only: clmul_xor_left clmul_double_left)
    then show ?thesis using 1 [OF False] by (simp add: clmul_step [of a b])
  qed simp
qed

lemma clmul_assoc: "clmul (clmul a b) c = clmul a (clmul b c)"
proof (induction c rule: nbits.induct)
  case (1 c)
  show ?case
  proof (cases "c = 0")
    case False
    then show ?thesis
      using 1 [OF False]
      by (simp add: clmul_step [of "clmul a b" c] clmul_step [of b c] clmul_xor_right clmul_double_right)
  qed simp
qed

lemma clmul_push_right: "clmul a (push_bit k b) = push_bit k (clmul a b)"
proof (induction k)
  case (Suc k)
  have "clmul a (2 * push_bit k b) = 2 * push_bit k (clmul a b)" by (simp only: clmul_double_right Suc)
  then show ?case by (simp add: push_bit_eq_mult mult.left_commute [of _ 2])
qed simp

text \<open>The degree of a product.\<close>

lemma nbits_clmul: "a \<noteq> 0 \<Longrightarrow> b \<noteq> 0 \<Longrightarrow> Suc (nbits (clmul a b)) = nbits a + nbits b"
proof (induction b rule: nbits.induct)
  case (1 b)
  show ?case
  proof (cases "b div 2 = 0")
    case True
    then have "b = Suc 0" using 1(3) by auto
    then show ?thesis by (simp add: nbits_pos)
  next
    case False
    have ih: "Suc (nbits (clmul a (b div 2))) = nbits a + nbits (b div 2)" using 1 False by simp
    have pos: "0 < nbits (b div 2)" "0 < nbits a" using False 1(2) by simp_all
    then have "0 < nbits (clmul a (b div 2))" using ih by linarith
    then have nz: "clmul a (b div 2) \<noteq> 0" by simp
    have two: "nbits (2 * clmul a (b div 2)) = Suc (nbits (clmul a (b div 2)))"
      using nz by (simp add: nbits_pos)
    have "nbits (if odd b then a else 0) < nbits (2 * clmul a (b div 2))"
      using two ih pos by simp
    then have "nbits (clmul a b) = nbits (2 * clmul a (b div 2))"
      unfolding clmul_step [of a b] by (rule nbits_xor_less)
    then show ?thesis using two ih 1(3) by (simp add: nbits_pos [of b])
  qed
qed

lemma clmul_eq_0_iff: "clmul a b = 0 \<longleftrightarrow> a = 0 \<or> b = 0"
proof -
  have False if "clmul a b = 0" "a \<noteq> 0" "b \<noteq> 0"
  proof -
    have "0 < nbits a" "0 < nbits b" using that by simp_all
    moreover have "Suc 0 = nbits a + nbits b" using nbits_clmul [OF that(2,3)] that(1) by simp
    ultimately show False by linarith
  qed
  then show ?thesis by auto
qed

section \<open>Division\<close>

text \<open>Long division: the quotient and the remainder.\<close>

function cldivmod :: "nat \<Rightarrow> nat \<Rightarrow> nat \<times> nat" where
  "cldivmod a d =
     (if d = 0 \<or> nbits a < nbits d then (0, a)
      else let k = nbits a - nbits d; (q, r) = cldivmod (a XOR push_bit k d) d in (q XOR push_bit k 1, r))"
  by pat_completeness auto
termination
proof (relation "measure (\<lambda>(a, d). nbits a)")
  fix a d :: nat and x
  assume h: "\<not> (d = 0 \<or> nbits a < nbits d)" and x: "x = nbits a - nbits d"
  then have d: "d \<noteq> 0" and le: "nbits d \<le> nbits a" by auto
  have "0 < nbits d" using d by simp
  then have a: "0 < nbits a" using le by linarith
  have "nbits (push_bit x d) = nbits a" using nbits_push [OF d, of x] x le by simp
  then have "nbits (a XOR push_bit x d) < nbits a" using a by (intro nbits_xor_cancel) simp_all
  then show "((a XOR push_bit x d, d), a, d) \<in> measure (\<lambda>(a, d). nbits a)" by simp
qed simp

declare cldivmod.simps [simp del]

lemma cldivmod_ok:
  "d \<noteq> 0 \<Longrightarrow> cldivmod a d = (q, r) \<Longrightarrow> a = clmul q d XOR r \<and> nbits r < nbits d"
proof (induction a d arbitrary: q r rule: cldivmod.induct)
  case (1 a d)
  show ?case
  proof (cases "nbits a < nbits d")
    case True
    then show ?thesis using 1(2,3) by (simp add: cldivmod.simps [of a d])
  next
    case False
    define k where "k = nbits a - nbits d"
    obtain q' where q': "cldivmod (a XOR push_bit k d) d = (q', r)" "q = q' XOR push_bit k 1"
      using 1(2,3) False by (auto simp: cldivmod.simps [of a d] k_def Let_def split: prod.splits)
    have ih: "a XOR push_bit k d = clmul q' d XOR r \<and> nbits r < nbits d"
      using 1(1) [OF _ k_def 1(2) q'(1)] 1(2) False by simp
    have "clmul (push_bit k 1) d = push_bit k d"
      using clmul_push_right [of d k 1] by (simp add: clmul_commute [of d])
    then have "clmul q d = clmul q' d XOR push_bit k d" by (simp add: q'(2) clmul_xor_left)
    moreover have "a = (a XOR push_bit k d) XOR push_bit k d" by (simp add: xor.assoc)
    ultimately show ?thesis using ih by (simp add: nat_xor_ac)
  qed
qed

section \<open>The ring\<close>

typedef gf2 = "UNIV :: nat set"
  morphisms coeffs Gf2 by simp

setup_lifting type_definition_gf2

instantiation gf2 :: comm_ring_1
begin

lift_definition zero_gf2 :: gf2 is "0 :: nat" .

lift_definition one_gf2 :: gf2 is "1 :: nat" .

lift_definition plus_gf2 :: "gf2 \<Rightarrow> gf2 \<Rightarrow> gf2" is "\<lambda>a b. a XOR b" .

lift_definition minus_gf2 :: "gf2 \<Rightarrow> gf2 \<Rightarrow> gf2" is "\<lambda>a b. a XOR b" .

lift_definition uminus_gf2 :: "gf2 \<Rightarrow> gf2" is "\<lambda>a. a" .

lift_definition times_gf2 :: "gf2 \<Rightarrow> gf2 \<Rightarrow> gf2" is clmul .

instance
proof
  fix a b c :: gf2
  show "a + b + c = a + (b + c)" by transfer (simp add: xor.assoc)
  show "a + b = b + a" by transfer (simp add: xor.commute)
  show "0 + a = a" by transfer simp
  show "- a + a = 0" by transfer simp
  show "a - b = a + - b" by transfer simp
  show "a * b * c = a * (b * c)" by transfer (rule clmul_assoc)
  show "a * b = b * a" by transfer (rule clmul_commute)
  show "1 * a = a" by transfer simp
  show "(a + b) * c = a * c + b * c" by transfer (rule clmul_xor_left)
  show "(0 :: gf2) \<noteq> 1" by transfer simp
qed

end

instance gf2 :: idom
  by standard (transfer, simp add: clmul_eq_0_iff)

lemma gf2_add_self [simp]: "a + a = (0 :: gf2)"
  by transfer simp

lemma gf2_minus: "a - b = (a + b :: gf2)"
  by transfer simp

lemma gf2_uminus [simp]: "- a = (a :: gf2)"
  by transfer simp

text \<open>The size of a polynomial: one more than its degree, 0 for the zero polynomial.\<close>

lift_definition size2 :: "gf2 \<Rightarrow> nat" is nbits .

lemma size2_0_iff [simp]: "size2 a = 0 \<longleftrightarrow> a = 0"
  by transfer simp

lemma size2_0 [simp]: "size2 0 = 0"
  by simp

lemma size2_gt_0: "0 < size2 a \<longleftrightarrow> a \<noteq> 0"
  using size2_0_iff [of a] by linarith

lemma size2_mult: "a \<noteq> 0 \<Longrightarrow> b \<noteq> 0 \<Longrightarrow> Suc (size2 (a * b)) = size2 a + size2 b"
  by transfer (rule nbits_clmul)

lemma size2_add_le: "size2 a \<le> k \<Longrightarrow> size2 b \<le> k \<Longrightarrow> size2 (a + b) \<le> k"
  by transfer (rule nbits_xor_le)

lemma size2_add_less: "size2 a < k \<Longrightarrow> size2 b < k \<Longrightarrow> size2 (a + b) < k"
  using size2_add_le [of a "k - 1" b] by linarith

text \<open>A multiple of \<open>d\<close> is 0 or no smaller than \<open>d\<close>, so a remainder is determined by its size.\<close>

lemma size2_mult_ge: "a \<noteq> 0 \<Longrightarrow> b \<noteq> 0 \<Longrightarrow> size2 b \<le> size2 (a * b)"
proof -
  assume a: "a \<noteq> 0" "b \<noteq> 0"
  then have "size2 a \<noteq> 0" by simp
  then show ?thesis using size2_mult [OF a] by linarith
qed

lemma gf2_division_unique:
  assumes "q * d + r = q' * d + r'" and "size2 r < size2 d" and "size2 r' < size2 d"
  shows "q = q' \<and> r = r'"
proof -
  have d: "d \<noteq> 0" using assms(2) by auto
  have e: "(q + q') * d = r + r'"
  proof -
    have "q * d + q' * d + (r + r') = (q * d + r) + (q' * d + r')" by (simp add: ac_simps)
    also have "\<dots> = 0" using assms(1) by simp
    finally show ?thesis using gf2_minus [of "q * d + q' * d" "r + r'"] by (simp add: algebra_simps)
  qed
  have small: "size2 (r + r') < size2 d" by (rule size2_add_less [OF assms(2,3)])
  have "q + q' = 0"
  proof (rule ccontr)
    assume "q + q' \<noteq> 0"
    from size2_mult_ge [OF this d] show False using small e by simp
  qed
  then have "q - q' = 0" "r - r' = 0" using e by (simp_all add: gf2_minus)
  then show ?thesis by simp
qed

instantiation gf2 :: unique_euclidean_ring
begin

lift_definition divide_gf2 :: "gf2 \<Rightarrow> gf2 \<Rightarrow> gf2" is "\<lambda>a d. fst (cldivmod a d)" .

lift_definition modulo_gf2 :: "gf2 \<Rightarrow> gf2 \<Rightarrow> gf2" is "\<lambda>a d. snd (cldivmod a d)" .

definition euclidean_size_gf2 :: "gf2 \<Rightarrow> nat" where
  "euclidean_size_gf2 a = (if a = 0 then 0 else 2 ^ (size2 a - 1))"

definition division_segment_gf2 :: "gf2 \<Rightarrow> gf2" where
  "division_segment_gf2 a = 1"

lemma gf2_cldivmod: "d \<noteq> 0 \<Longrightarrow> a = (a div d) * d + a mod d \<and> size2 (a mod d) < size2 (d :: gf2)"
proof (transfer)
  fix d a :: nat assume d: "d \<noteq> 0"
  show "a = clmul (fst (cldivmod a d)) d XOR snd (cldivmod a d) \<and> nbits (snd (cldivmod a d)) < nbits d"
    by (rule cldivmod_ok [OF d]) simp
qed

lemma gf2_div_by_0: "a div 0 = (0 :: gf2)" and gf2_mod_by_0: "a mod 0 = (a :: gf2)"
  by (transfer, simp add: cldivmod.simps)+

lemma gf2_div_unique: "size2 r < size2 (d :: gf2) \<Longrightarrow> (q * d + r) div d = q"
proof -
  assume r: "size2 r < size2 d"
  then have d: "d \<noteq> 0" by auto
  show ?thesis
    using gf2_division_unique [of "(q * d + r) div d" d "(q * d + r) mod d" q r]
      gf2_cldivmod [OF d, of "q * d + r"] r by simp
qed

lemma euclidean_size_less_iff: "euclidean_size a < euclidean_size (b :: gf2) \<longleftrightarrow> size2 a < size2 b"
proof (cases "a = 0 \<or> b = 0")
  case False
  then have "0 < size2 a" "0 < size2 b" by (simp_all add: neq0_conv [symmetric] del: neq0_conv)
  then show ?thesis using False by (auto simp: euclidean_size_gf2_def)
qed (auto simp: euclidean_size_gf2_def neq0_conv [symmetric] simp del: neq0_conv)

instance
proof
  fix a b c q r :: gf2
  show "a div 0 = 0" by (rule gf2_div_by_0)
  show "b \<noteq> 0 \<Longrightarrow> a * b div b = a" using gf2_div_unique [of 0 b a] by (simp add: neq0_conv [symmetric] del: neq0_conv)
  show "a div b * b + a mod b = a"
    by (cases "b = 0") (simp_all add: gf2_div_by_0 gf2_mod_by_0 gf2_cldivmod [THEN conjunct1, symmetric])
  show "euclidean_size (0 :: gf2) = 0" by (simp add: euclidean_size_gf2_def)
  show "b \<noteq> 0 \<Longrightarrow> euclidean_size (a mod b) < euclidean_size b"
    using gf2_cldivmod [of b a] by (simp add: euclidean_size_less_iff)
  show mult: "euclidean_size (a * b) = euclidean_size a * euclidean_size b" for a b :: gf2
  proof (cases "a = 0 \<or> b = 0")
    case False
    then have "0 < size2 a" "0 < size2 b" "Suc (size2 (a * b)) = size2 a + size2 b"
      by (simp_all add: neq0_conv [symmetric] size2_mult del: neq0_conv)
    then have "size2 (a * b) - 1 = (size2 a - 1) + (size2 b - 1)" by linarith
    then show ?thesis using False by (simp add: euclidean_size_gf2_def power_add)
  qed (auto simp: euclidean_size_gf2_def)
  show "b \<noteq> 0 \<Longrightarrow> euclidean_size a \<le> euclidean_size (a * b)"
  proof -
    assume "b \<noteq> 0"
    then have "1 \<le> euclidean_size b" by (simp add: euclidean_size_gf2_def)
    then show "euclidean_size a \<le> euclidean_size (a * b)" unfolding mult by simp
  qed
  show "division_segment a dvd 1" by (simp add: division_segment_gf2_def)
  show "division_segment (a * b) = division_segment a * division_segment b"
    "division_segment (a mod b) = division_segment b"
    by (simp_all add: division_segment_gf2_def)
  show "euclidean_size r < euclidean_size b \<Longrightarrow> (q * b + r) div b = q"
    unfolding euclidean_size_less_iff by (rule gf2_div_unique)
qed

end

lemma size2_mod_less: "d \<noteq> 0 \<Longrightarrow> size2 (a mod d) < size2 (d :: gf2)"
  using gf2_cldivmod by blast

lemma gf2_mod_small: "size2 a < size2 d \<Longrightarrow> a mod d = (a :: gf2)"
proof -
  assume a: "size2 a < size2 d"
  have "a div d = 0" using gf2_div_unique [OF a, of 0] by simp
  then show ?thesis using div_mult_mod_eq [of a d] by simp
qed

end
