(* ===== verification/Gf2_Irreducible.thy ===== *)
theory Gf2_Irreducible
  imports Gf2
begin

text \<open>
  Irreducible polynomials over GF(2) and the theorem behind Ben-Or's test. The residues modulo an
  irreducible polynomial of degree d are a field with \<open>2 ^ d\<close> elements; the theorem says that a
  polynomial of positive degree is irreducible exactly when it has no common factor with
  \<open>x^(2^i) + x\<close> for every i up to half its degree.
\<close>

section \<open>Units and irreducible polynomials\<close>

definition irreducible2 :: "gf2 \<Rightarrow> bool" where
  "irreducible2 p \<longleftrightarrow> 2 \<le> size2 p \<and> (\<forall>a b. p = a * b \<longrightarrow> a = 1 \<or> b = 1)"

lemma size2_1 [simp]: "size2 1 = Suc 0"
  by transfer (simp add: nbits_pos)

lemma size2_eq_1: "size2 a = Suc 0 \<longleftrightarrow> a = 1"
proof
  assume "size2 a = Suc 0"
  then have s: "nbits (coeffs a) = Suc 0" by (simp add: size2.rep_eq)
  have "coeffs a < 2 ^ Suc 0" unfolding nbits_le_iff [symmetric] using s by simp
  moreover have "coeffs a \<noteq> 0" using s nbits_0 by (metis nat.distinct(1))
  ultimately have "coeffs a = 1" by simp
  then show "a = 1" by (simp add: coeffs_inject [symmetric] one_gf2.rep_eq)
qed simp

lemma dvd_1_iff [simp]: "a dvd 1 \<longleftrightarrow> (a :: gf2) = 1"
proof
  assume "a dvd 1"
  then obtain b where ab: "1 = a * b" by blast
  then have nz: "a \<noteq> 0" "b \<noteq> 0" by auto
  have "Suc (size2 (a * b)) = size2 a + size2 b" by (rule size2_mult [OF nz])
  moreover have "0 < size2 a" "0 < size2 b" using nz by (simp_all add: size2_gt_0)
  ultimately have "size2 a = Suc 0" using ab by simp
  then show "a = 1" by (simp only: size2_eq_1)
qed simp

lemma irreducible2_dvd: "irreducible2 p \<Longrightarrow> c dvd p \<Longrightarrow> c = 1 \<or> c = p"
proof -
  assume "irreducible2 p" and "c dvd p"
  then obtain k where "p = c * k" "c = 1 \<or> k = 1" unfolding irreducible2_def by (metis dvdE)
  then show ?thesis by auto
qed

lemma size2_dvd: "c dvd a \<Longrightarrow> a \<noteq> 0 \<Longrightarrow> size2 c \<le> size2 a"
  using size2_mult_ge by (auto elim!: dvdE simp: mult.commute)

text \<open>Every polynomial of positive degree has an irreducible factor; a reducible one has one of at most
  half its degree.\<close>

lemma irreducible2_factor: "2 \<le> size2 a \<Longrightarrow> \<exists>p. irreducible2 p \<and> p dvd a"
proof (induction "size2 a" arbitrary: a rule: less_induct)
  case less
  show ?case
  proof (cases "irreducible2 a")
    case False
    then obtain b c where a: "a = b * c" "b \<noteq> 1" "c \<noteq> 1" using less.prems by (auto simp: irreducible2_def)
    have "a \<noteq> 0" using less.prems by auto
    then have nz: "b \<noteq> 0" "c \<noteq> 0" using a(1) by auto
    then have s: "size2 b \<noteq> 0" "size2 c \<noteq> 0" "size2 b \<noteq> Suc 0" "size2 c \<noteq> Suc 0"
      using a(2,3) by (simp_all add: size2_eq_1)
    have "Suc (size2 a) = size2 b + size2 c" unfolding a(1) by (rule size2_mult [OF nz])
    then have "size2 b < size2 a" "2 \<le> size2 b" using s by linarith+
    then obtain p where "irreducible2 p" "p dvd b" using less.hyps by blast
    then show ?thesis using a(1) by (auto intro: dvd_mult2)
  qed auto
qed

lemma reducible_factor:
  assumes "2 \<le> size2 a" and "\<not> irreducible2 a"
  shows "\<exists>p. irreducible2 p \<and> p dvd a \<and> size2 p - 1 \<le> (size2 a - 1) div 2"
proof -
  obtain b c where a: "a = b * c" "b \<noteq> 1" "c \<noteq> 1" using assms by (auto simp: irreducible2_def)
  have nz: "b \<noteq> 0" "c \<noteq> 0" using assms(1) a(1) by auto
  then have s: "size2 b \<noteq> 0" "size2 c \<noteq> 0" "size2 b \<noteq> Suc 0" "size2 c \<noteq> Suc 0"
    using a(2,3) by (simp_all add: size2_eq_1)
  have sum: "Suc (size2 a) = size2 b + size2 c" unfolding a(1) by (rule size2_mult [OF nz])
  have "\<exists>d. d dvd a \<and> 2 \<le> size2 d \<and> d \<noteq> 0 \<and> size2 d - 1 \<le> (size2 a - 1) div 2"
  proof (cases "size2 b \<le> size2 c")
    case True
    then have "2 \<le> size2 b" "size2 b - 1 \<le> (size2 a - 1) div 2" using s sum by linarith+
    then show ?thesis using nz a(1) by (intro exI [of _ b]) simp
  next
    case False
    then have "2 \<le> size2 c" "size2 c - 1 \<le> (size2 a - 1) div 2" using s sum by linarith+
    then show ?thesis using nz a(1) by (intro exI [of _ c]) simp
  qed
  then obtain d where d: "d dvd a" "2 \<le> size2 d" "d \<noteq> 0" "size2 d - 1 \<le> (size2 a - 1) div 2" by blast
  obtain p where p: "irreducible2 p" "p dvd d" using irreducible2_factor [OF d(2)] by blast
  have "size2 p - 1 \<le> size2 d - 1" using size2_dvd [OF p(2) d(3)] by simp
  then show ?thesis using p d by (meson dvd_trans order_trans)
qed

section \<open>Bezout and primality\<close>

lemma gf2_bezout: "\<exists>u v. (u * a + v * b) dvd a \<and> (u * a + v * b) dvd (b :: gf2)"
proof (induction "size2 b" arbitrary: a b rule: less_induct)
  case less
  show ?case
  proof (cases "b = 0")
    case True
    then show ?thesis by (intro exI [of _ 1] exI [of _ 0]) simp
  next
    case False
    then obtain u v where uv: "(u * b + v * (a mod b)) dvd b" "(u * b + v * (a mod b)) dvd (a mod b)"
      using less [OF size2_mod_less] by blast
    have m: "a mod b = a + a div b * b"
      using gf2_minus [of a "a div b * b"] by (simp add: minus_div_mult_eq_mod)
    have eq: "u * b + v * (a mod b) = v * a + (u + v * (a div b)) * b"
      unfolding m by (simp add: algebra_simps)
    have "(u * b + v * (a mod b)) dvd a" using uv by (meson dvd_mod_imp_dvd)
    then show ?thesis using uv(1) unfolding eq by blast
  qed
qed

lemma irreducible2_prime:
  assumes p: "irreducible2 p" and ab: "p dvd a * b" and a: "\<not> p dvd a"
  shows "p dvd b"
proof -
  obtain u v where uv: "(u * a + v * p) dvd a" "(u * a + v * p) dvd p" using gf2_bezout by blast
  have "u * a + v * p = 1" using irreducible2_dvd [OF p uv(2)] uv(1) a by metis
  moreover have "b * (u * a + v * p) = u * (a * b) + (b * v) * p" by (simp add: algebra_simps)
  ultimately have b: "b = u * (a * b) + (b * v) * p" by (metis mult_1_right)
  show "p dvd b" by (subst b) (rule dvd_add [OF dvd_mult [OF ab] dvd_triv_right])
qed

lemma irreducible2_prod:
  "finite A \<Longrightarrow> irreducible2 p \<Longrightarrow> p dvd prod f A \<Longrightarrow> \<exists>x \<in> A. p dvd f x"
proof (induction rule: finite_induct [consumes 1])
  case empty
  then have "p = 1" by simp
  moreover have "2 \<le> size2 p" using \<open>irreducible2 p\<close> by (simp only: irreducible2_def)
  ultimately show ?case by simp
next
  case (insert x A)
  have "p dvd f x * prod f A" using insert.prems(2) insert.hyps by simp
  then show ?case using irreducible2_prime [OF insert.prems(1)] insert.IH [OF insert.prems(1)] by blast
qed

section \<open>The field of residues\<close>

definition residues2 :: "gf2 \<Rightarrow> gf2 set" where
  "residues2 p = {r. size2 r < size2 p}"

lemma residues2_image: "residues2 p = Gf2 ` {..<2 ^ (size2 p - 1)}" if "p \<noteq> 0"
proof -
  have "0 < size2 p" using that by (simp add: size2_gt_0)
  then have less: "size2 r < size2 p \<longleftrightarrow> coeffs r < 2 ^ (size2 p - 1)" for r
    using nbits_le_iff [of "coeffs r" "size2 p - 1"] size2.rep_eq [of r] by linarith
  have "r \<in> Gf2 ` {..<2 ^ (size2 p - 1)} \<longleftrightarrow> coeffs r < 2 ^ (size2 p - 1)" for r
    using coeffs_inverse [of r] by (metis Gf2_inverse UNIV_I imageE imageI lessThan_iff)
  then show ?thesis by (simp add: residues2_def less set_eq_iff)
qed

lemma finite_residues2 [simp]: "p \<noteq> 0 \<Longrightarrow> finite (residues2 p)"
  by (simp add: residues2_image)

lemma card_residues2: "p \<noteq> 0 \<Longrightarrow> card (residues2 p) = 2 ^ (size2 p - 1)"
  by (simp add: residues2_image card_image inj_on_def Gf2_inject)

lemma irreducible2_nonzero: "irreducible2 p \<Longrightarrow> p \<noteq> 0"
  by (rule notI) (simp add: irreducible2_def)

text \<open>Multiplication by a nonzero residue permutes the nonzero residues.\<close>

lemma mult_residues_inj:
  assumes p: "irreducible2 p" and a: "\<not> p dvd a"
  shows "inj_on (\<lambda>r. (a * r) mod p) (residues2 p)"
proof (rule inj_onI)
  fix r s assume r: "r \<in> residues2 p" and s: "s \<in> residues2 p" and eq: "(a * r) mod p = (a * s) mod p"
  have "p dvd a * r - a * s" using eq by (simp add: mod_eq_dvd_iff)
  then have "p dvd a * (r - s)" by (simp add: right_diff_distrib)
  then have "p dvd r - s" using irreducible2_prime [OF p _ a] by blast
  then have "r mod p = s mod p" by (simp add: mod_eq_dvd_iff)
  then show "r = s" using r s by (simp add: residues2_def gf2_mod_small)
qed

lemma mult_residues_image:
  assumes p: "irreducible2 p" and a: "\<not> p dvd a"
  shows "(\<lambda>r. (a * r) mod p) ` (residues2 p - {0}) = residues2 p - {0}"
proof (rule endo_inj_surj)
  show "finite (residues2 p - {0})" using irreducible2_nonzero [OF p] by simp
  show "(\<lambda>r. (a * r) mod p) ` (residues2 p - {0}) \<subseteq> residues2 p - {0}"
  proof
    fix s assume "s \<in> (\<lambda>r. (a * r) mod p) ` (residues2 p - {0})"
    then obtain r where r: "r \<in> residues2 p" "r \<noteq> 0" and s: "s = (a * r) mod p" by blast
    have "s \<noteq> 0"
    proof
      assume "s = 0"
      then have "p dvd a * r" using s by (simp add: dvd_eq_mod_eq_0)
      then have "p dvd r" using irreducible2_prime [OF p _ a] by blast
      then show False using r size2_dvd [of p r] by (simp add: residues2_def)
    qed
    then show "s \<in> residues2 p - {0}"
      using s size2_mod_less [OF irreducible2_nonzero [OF p]] by (simp add: residues2_def)
  qed
  show "inj_on (\<lambda>r. (a * r) mod p) (residues2 p - {0})"
    using mult_residues_inj [OF assms] by (rule inj_on_subset) blast
qed

text \<open>Fermat: every polynomial is its own \<open>2 ^ d\<close>-th power modulo an irreducible one of degree d.\<close>

lemma fermat2:
  assumes p: "irreducible2 p"
  shows "p dvd a ^ (2 ^ (size2 p - 1)) + a"
proof (cases "p dvd a")
  case True
  then show ?thesis by (intro dvd_add) (simp_all add: dvd_power_le [of p a 1, simplified] dvd_trans [OF _ dvd_power])
next
  case False
  define R where "R = residues2 p - {0}"
  have fin: "finite R" using irreducible2_nonzero [OF p] by (simp add: R_def)
  have zero: "0 \<in> residues2 p" using p by (simp add: residues2_def irreducible2_def)
  have card: "Suc (card R) = 2 ^ (size2 p - 1)"
    using card_residues2 [OF irreducible2_nonzero [OF p]] irreducible2_nonzero [OF p] zero
    by (simp add: R_def card_Suc_Diff1)
  have inj: "inj_on (\<lambda>r. (a * r) mod p) R"
    using mult_residues_inj [OF p False] unfolding R_def by (rule inj_on_subset) blast
  have "\<Prod>R = prod id ((\<lambda>r. (a * r) mod p) ` R)"
    using mult_residues_image [OF p False] by (simp add: R_def)
  also have "\<dots> = (\<Prod>r\<in>R. (a * r) mod p)" by (simp add: prod.reindex [OF inj])
  finally have "\<Prod>R mod p = (\<Prod>r\<in>R. a * r) mod p" by (simp add: mod_prod_eq)
  then have "p dvd \<Prod>R - a ^ card R * \<Prod>R" by (simp add: mod_eq_dvd_iff prod.distrib)
  then have "p dvd \<Prod>R * (a ^ card R + 1)" by (simp add: gf2_minus algebra_simps)
  moreover have "\<not> p dvd \<Prod>R"
  proof
    assume "p dvd \<Prod>R"
    then obtain r where "r \<in> R" "p dvd r" using irreducible2_prod [OF fin p, of "\<lambda>x. x"] by auto
    then show False using size2_dvd [of p r] by (simp add: R_def residues2_def)
  qed
  ultimately have "p dvd a ^ card R + 1" using irreducible2_prime [OF p] by blast
  then have "p dvd a * (a ^ card R + 1)" by (rule dvd_mult)
  then show ?thesis using card by (simp add: algebra_simps power_Suc [symmetric])
qed

section \<open>Roots of polynomials with coefficients modulo p\<close>

text \<open>The value of \<open>c0 + c1 y + c2 y^2 + ...\<close>; a list of length n has fewer than n roots.\<close>

fun eval2 :: "gf2 list \<Rightarrow> gf2 \<Rightarrow> gf2" where
  "eval2 [] y = 0"
| "eval2 (c # cs) y = c + y * eval2 cs y"

text \<open>Synthetic division by \<open>y - a\<close>.\<close>

lemma eval2_divide:
  "cs \<noteq> [] \<Longrightarrow> \<exists>qs. length qs = length cs - 1 \<and> (qs \<noteq> [] \<longrightarrow> last qs = last cs) \<and>
     (\<forall>y. eval2 cs y = (y + a) * eval2 qs y + eval2 cs a)"
proof (induction cs)
  case (Cons c cs)
  show ?case
  proof (cases "cs = []")
    case True
    then show ?thesis by (intro exI [of _ "[]"]) simp
  next
    case False
    obtain qs where qs: "length qs = length cs - 1" "qs \<noteq> [] \<longrightarrow> last qs = last cs"
      "\<forall>y. eval2 cs y = (y + a) * eval2 qs y + eval2 cs a" using Cons.IH [OF False] by (elim exE conjE)
    have "\<forall>y. eval2 (c # cs) y = (y + a) * eval2 (eval2 cs a # qs) y + eval2 (c # cs) a"
    proof
      fix y
      have "eval2 (c # cs) y = c + y * ((y + a) * eval2 qs y + eval2 cs a)"
        by (simp only: eval2.simps qs(3) [rule_format, of y, symmetric])
      also have "\<dots> = c + y * ((y + a) * eval2 qs y + eval2 cs a) + (a * eval2 cs a + a * eval2 cs a)"
        by (simp only: gf2_add_self add_0_right)
      also have "\<dots> = (y + a) * eval2 (eval2 cs a # qs) y + eval2 (c # cs) a"
        by (simp only: eval2.simps algebra_simps)
      finally show "eval2 (c # cs) y = (y + a) * eval2 (eval2 cs a # qs) y + eval2 (c # cs) a" .
    qed
    moreover have "last (eval2 cs a # qs) = last (c # cs)"
    proof (cases "qs = []")
      case True
      then obtain e where "cs = [e]" using qs(1) False by (cases cs) auto
      then show ?thesis using True by simp
    qed (use qs(2) False in simp)
    moreover have "length (eval2 cs a # qs) = length (c # cs) - 1" using False qs(1) by (cases cs) simp_all
    ultimately show ?thesis by blast
  qed
qed simp

lemma roots2_bound:
  assumes p: "irreducible2 p"
  shows "cs \<noteq> [] \<Longrightarrow> last cs = 1 \<Longrightarrow> card {r \<in> residues2 p. p dvd eval2 cs r} < length cs"
proof (induction "length cs" arbitrary: cs)
  case (Suc n)
  define roots where "roots = {r \<in> residues2 p. p dvd eval2 cs r}"
  show ?case
  proof (cases "roots = {}")
    case True
    then have "card roots < length cs" using Suc.prems(1) by simp
    then show ?thesis by (simp only: roots_def)
  next
    case False
    then obtain a where a: "a \<in> residues2 p" "p dvd eval2 cs a" by (auto simp: roots_def)
    obtain qs where qs: "length qs = length cs - 1" "qs \<noteq> [] \<longrightarrow> last qs = last cs"
      "\<forall>y. eval2 cs y = (y + a) * eval2 qs y + eval2 cs a"
      using eval2_divide [OF Suc.prems(1), of a] by (elim exE conjE)
    have qs_nonempty: "qs \<noteq> []"
    proof
      assume "qs = []"
      then obtain c where "cs = [c]" using qs(1) Suc.prems(1) by (cases cs) auto
      then have "p dvd 1" using a(2) Suc.prems(2) by simp
      then show False using p by (simp add: irreducible2_def)
    qed
    have sub: "roots \<subseteq> insert a {r \<in> residues2 p. p dvd eval2 qs r}"
    proof
      fix r assume r: "r \<in> roots"
      then have "p dvd (r + a) * eval2 qs r"
        using qs(3) [rule_format, of r] a(2) dvd_add_left_iff [OF a(2)] by (simp add: roots_def)
      then have "p dvd r - a \<or> p dvd eval2 qs r"
        using irreducible2_prime [OF p, of "r + a" "eval2 qs r"] unfolding gf2_minus by blast
      moreover have "r = a" if "p dvd r - a"
      proof -
        have "r mod p = a mod p" using that by (simp only: mod_eq_dvd_iff)
        moreover have "size2 r < size2 p" "size2 a < size2 p" using r a(1) by (simp_all add: roots_def residues2_def)
        ultimately show ?thesis by (simp only: gf2_mod_small)
      qed
      ultimately show "r \<in> insert a {r \<in> residues2 p. p dvd eval2 qs r}"
        using r by (auto simp: roots_def)
    qed
    have fin: "finite {r \<in> residues2 p. p dvd eval2 qs r}" using irreducible2_nonzero [OF p] by simp
    have "card roots \<le> Suc (card {r \<in> residues2 p. p dvd eval2 qs r})"
      using card_mono [OF finite.insertI [OF fin] sub] card_insert_le_m1 [of "Suc (card {r \<in> residues2 p. p dvd eval2 qs r})"]
      by (metis (no_types, lifting) card_insert_if fin le_SucI le_refl order_trans)
    moreover have "card {r \<in> residues2 p. p dvd eval2 qs r} < length qs"
      using Suc.hyps(2) qs(1,2) qs_nonempty Suc.prems(2) by (intro Suc.hyps(1)) simp_all
    ultimately show ?thesis using qs(1) unfolding roots_def by linarith
  qed
qed simp

section \<open>The Frobenius map\<close>

lemma frobenius_add: "(a + b :: gf2) ^ (2 ^ k) = a ^ (2 ^ k) + b ^ (2 ^ k)"
proof (induction k)
  case (Suc k)
  have sq: "(u + v :: gf2) ^ 2 = u ^ 2 + v ^ 2" for u v
  proof -
    have "(u + v) ^ 2 = u ^ 2 + v ^ 2 + (u * v + u * v)" by (simp only: power2_eq_square algebra_simps)
    then show ?thesis by simp
  qed
  have "(c :: gf2) ^ (2 ^ Suc k) = (c ^ (2 ^ k)) ^ 2" for c
    by (simp add: power_mult [symmetric] mult.commute)
  then show ?case using Suc sq by simp
qed simp

text \<open>The polynomial x generates: what fixes x modulo p fixes every polynomial.\<close>

definition gen2 :: gf2 where
  "gen2 = Gf2 2"

lemma gf2_split: "a = (if odd (coeffs a) then 1 else 0) + gen2 * Gf2 (coeffs a div 2)"
proof -
  have "clmul 2 b = 2 * b" for b using clmul_double_left [of "Suc 0" b] by simp
  then have "coeffs (gen2 * Gf2 (coeffs a div 2)) = 2 * (coeffs a div 2)"
    by (simp add: gen2_def times_gf2.rep_eq Gf2_inverse)
  then show ?thesis
    using nat_bits_split [of "coeffs a"]
    by (auto simp: coeffs_inject [symmetric] plus_gf2.rep_eq one_gf2.rep_eq zero_gf2.rep_eq)
qed

lemma frobenius_fixed:
  assumes x: "p dvd gen2 ^ (2 ^ k) + gen2"
  shows "p dvd a ^ (2 ^ k) + a"
proof (induction "coeffs a" arbitrary: a rule: less_induct)
  case less
  show ?case
  proof (cases "coeffs a = 0")
    case True
    then have "a = 0" by (simp add: coeffs_inject [symmetric] zero_gf2.rep_eq)
    then show ?thesis by (simp add: power_0_left)
  next
    case False
    define b where "b = Gf2 (coeffs a div 2)"
    define e :: gf2 where "e = (if odd (coeffs a) then 1 else 0)"
    have a: "a = e + gen2 * b" unfolding e_def b_def by (rule gf2_split)
    have "p dvd b ^ (2 ^ k) + b" using False by (intro less) (simp add: b_def Gf2_inverse)
    moreover have "a ^ (2 ^ k) + a = gen2 ^ (2 ^ k) * (b ^ (2 ^ k) + b) + (gen2 ^ (2 ^ k) + gen2) * b"
    proof -
      have e: "e ^ (2 ^ k) = e" by (simp add: e_def)
      have "a ^ (2 ^ k) + a = (e + e) + (gen2 ^ (2 ^ k) * b ^ (2 ^ k) + gen2 * b)"
        unfolding a frobenius_add power_mult_distrib e by (simp only: ac_simps)
      also have "\<dots> = gen2 ^ (2 ^ k) * b ^ (2 ^ k) + gen2 * b + (gen2 ^ (2 ^ k) * b + gen2 ^ (2 ^ k) * b)"
        by simp
      also have "\<dots> = gen2 ^ (2 ^ k) * (b ^ (2 ^ k) + b) + (gen2 ^ (2 ^ k) + gen2) * b"
        by (simp only: algebra_simps)
      finally show ?thesis .
    qed
    ultimately show ?thesis using x by simp
  qed
qed

lemma eval2_power: "eval2 (replicate n 0 @ cs) y = y ^ n * eval2 cs y"
  by (induction n) (simp_all add: mult.assoc)

text \<open>An irreducible polynomial of degree d divides no \<open>x^(2^i) + x\<close> with \<open>0 < i < d\<close>: all its
  \<open>2 ^ d\<close> residues would be roots of a polynomial of degree \<open>2 ^ i\<close>.\<close>

lemma irreducible2_not_dvd:
  assumes p: "irreducible2 p" and i: "0 < i" "i < size2 p - 1"
  shows "\<not> p dvd gen2 ^ (2 ^ i) + gen2"
proof
  assume x: "p dvd gen2 ^ (2 ^ i) + gen2"
  define cs :: "gf2 list" where "cs = 0 # 1 # replicate (2 ^ i - 2) 0 @ [1]"
  have two: "2 \<le> (2 :: nat) ^ i" using power_increasing [of 1 i "2 :: nat"] i(1) by simp
  have "eval2 cs r = r ^ (2 ^ i) + r" for r
  proof -
    have "eval2 cs r = r + r ^ Suc (Suc (2 ^ i - 2))"
      by (simp add: cs_def eval2_power algebra_simps)
    moreover have "Suc (Suc (2 ^ i - 2)) = 2 ^ i" using two by linarith
    ultimately show ?thesis by (simp only: add.commute)
  qed
  then have "{r \<in> residues2 p. p dvd eval2 cs r} = residues2 p"
    using frobenius_fixed [OF x] by auto
  then have "2 ^ (size2 p - 1) < length cs"
    using roots2_bound [OF p, of cs] card_residues2 [OF irreducible2_nonzero [OF p]] by (simp add: cs_def)
  moreover have "length cs = Suc (2 ^ i)" using two by (simp add: cs_def)
  moreover have "(2 :: nat) ^ i < 2 ^ (size2 p - 1)" using i(2) by simp
  ultimately show False by linarith
qed

section \<open>Ben-Or's theorem\<close>

theorem ben_or:
  assumes "2 \<le> size2 f"
  shows "irreducible2 f \<longleftrightarrow>
    (\<forall>i \<in> {1..(size2 f - 1) div 2}. \<forall>c. c dvd f \<longrightarrow> c dvd gen2 ^ (2 ^ i) + gen2 \<longrightarrow> c = 1)"
proof
  assume f: "irreducible2 f"
  show "\<forall>i \<in> {1..(size2 f - 1) div 2}. \<forall>c. c dvd f \<longrightarrow> c dvd gen2 ^ (2 ^ i) + gen2 \<longrightarrow> c = 1"
  proof (intro ballI allI impI)
    fix i c assume i: "i \<in> {1..(size2 f - 1) div 2}" and c: "c dvd f" "c dvd gen2 ^ (2 ^ i) + gen2"
    have "0 < i" "i < size2 f - 1" using i assms by auto
    then have "c \<noteq> f" using irreducible2_not_dvd [OF f] c(2) by blast
    then show "c = 1" using irreducible2_dvd [OF f c(1)] by blast
  qed
next
  assume all: "\<forall>i \<in> {1..(size2 f - 1) div 2}. \<forall>c. c dvd f \<longrightarrow> c dvd gen2 ^ (2 ^ i) + gen2 \<longrightarrow> c = 1"
  show "irreducible2 f"
  proof (rule ccontr)
    assume "\<not> irreducible2 f"
    then obtain p where p: "irreducible2 p" "p dvd f" "size2 p - 1 \<le> (size2 f - 1) div 2"
      using reducible_factor [OF assms] by blast
    have size: "2 \<le> size2 p" using p(1) by (simp only: irreducible2_def)
    then have "size2 p - 1 \<in> {1..(size2 f - 1) div 2}" using p(3) by simp
    then have "p = 1" using all p(2) fermat2 [OF p(1), of gen2] by blast
    then show False using size by simp
  qed
qed

end
