(* ===== verification/Readers.thy ===== *)
theory Readers
  imports Hash_Iface
begin

text \<open>
  Byte sources: what the pull side needs of an \<open>io.Reader\<close>, and the readers of rollstat/main.go.
  A reader is a function from its state and the length of the buffer to the bytes it puts there,
  its error and its next state. \<open>byte_source\<close> states the documented contract of \<open>io.Reader\<close> for a
  stream that ends: at most the length of the buffer is read, the bytes come in order, an error is
  the end, and a call that reads nothing and reports nothing brings the source closer to its end.
\<close>

type_synonym 'r reader = "'r \<Rightarrow> nat \<Rightarrow> byte list \<times> gerror option \<times> 'r"

locale byte_source =
  fixes rd :: "'r reader"
    and ok :: "'r \<Rightarrow> bool"
    and left :: "'r \<Rightarrow> byte list"
    and ending :: "'r \<Rightarrow> gerror"
    and rank :: "'r \<Rightarrow> nat"
  assumes read_ok: "ok r \<Longrightarrow> rd r n = (got, err, r') \<Longrightarrow>
      ok r' \<and> length got \<le> n \<and> left r = got @ left r' \<and> ending r' = ending r"
    and read_end: "ok r \<Longrightarrow> rd r n = (got, Some e, r') \<Longrightarrow> left r' = [] \<and> e = ending r"
    and read_progress: "ok r \<Longrightarrow> 0 < n \<Longrightarrow> rd r n = ([], None, r') \<Longrightarrow> rank r' < rank r"

section \<open>Filling a buffer\<close>

text \<open>The loop of \<open>fillCore\<close>: \<open>for n < len(buf) && !eof { m, err := r.Read(buf[n:]); ... }\<close>. The result
  is what was read, whether the end of the stream was reached, and an error that stops it.\<close>

partial_function (option) read_block :: "'r reader \<Rightarrow> 'r \<Rightarrow> nat \<Rightarrow> byte list \<Rightarrow>
    (byte list \<times> bool \<times> gerror option \<times> 'r) option" where
  "read_block rd r want buf =
     (if length buf < want then
        (case rd r (want - length buf) of (got, err, r) \<Rightarrow>
           (case err of
              None \<Rightarrow> read_block rd r want (buf @ got)
            | Some e \<Rightarrow> if e = EOF then Some (buf @ got, True, None, r)
                        else Some (buf @ got, False, Some e, r)))
      else Some (buf, False, None, r))"

declare read_block.simps [code]

context byte_source
begin

text \<open>The loop ends: every call delivers a byte or lowers the rank. It delivers the next bytes of the
  stream, and it falls short only at the end.\<close>

lemma read_block_ok:
  assumes "ok r" and "length buf \<le> want"
  shows "\<exists>got eof err r'. read_block rd r want buf = Some (buf @ got, eof, err, r') \<and> ok r' \<and>
    left r = got @ left r' \<and> length (buf @ got) \<le> want \<and> ending r' = ending r \<and>
    (if eof then err = None \<and> left r' = [] \<and> ending r = EOF
     else if err = None then length (buf @ got) = want
     else left r' = [] \<and> err = Some (ending r) \<and> ending r \<noteq> EOF)"
  using assms
proof (induction "(want - length buf, rank r)" arbitrary: buf r rule: wf_induct_rule [OF wf_lex_prod [OF wf_less_than wf_less_than]])
  case (1 buf r)
  show ?case
  proof (cases "length buf < want")
    case False
    then have "read_block rd r want buf = Some (buf, False, None, r)"
      by (subst read_block.simps) simp
    then show ?thesis using False 1(2,3)
      by (intro exI [of _ "[]"] exI [of _ False] exI [of _ None] exI [of _ r]) simp
  next
    case True
    obtain got err r1 where rd: "rd r (want - length buf) = (got, err, r1)" by (metis prod_cases3)
    note r1 = read_ok [OF 1(2) rd]
    have len1: "length (buf @ got) \<le> want"
    proof -
      have "length got \<le> want - length buf" using r1 by blast
      then show ?thesis using True by simp
    qed
    show ?thesis
    proof (cases err)
      case (Some e)
      have e: "left r1 = []" "e = ending r" using read_end [OF 1(2)] rd Some by blast+
      have "read_block rd r want buf =
          (if e = EOF then Some (buf @ got, True, None, r1) else Some (buf @ got, False, Some e, r1))"
        using True rd Some by (subst read_block.simps) simp
      then show ?thesis using r1 e len1
        by (intro exI [of _ got] exI [of _ "e = EOF"] exI [of _ "if e = EOF then None else Some e"] exI [of _ r1]) simp
    next
      case None
      have step: "read_block rd r want buf = read_block rd r1 want (buf @ got)"
        using True rd None by (subst read_block.simps) simp
      have less: "((want - length (buf @ got), rank r1), (want - length buf, rank r)) \<in> less_than <*lex*> less_than"
      proof (cases "got = []")
        case True
        then have "rank r1 < rank r" using read_progress [OF 1(2), of "want - length buf" r1] rd None \<open>length buf < want\<close> by simp
        then show ?thesis using True by simp
      next
        case False
        then show ?thesis using True by (simp add: diff_less_mono2)
      qed
      obtain got' eof err' r' where rec: "read_block rd r1 want (buf @ got) = Some ((buf @ got) @ got', eof, err', r')"
          "ok r'" "left r1 = got' @ left r'" "length ((buf @ got) @ got') \<le> want" "ending r' = ending r1"
          "if eof then err' = None \<and> left r' = [] \<and> ending r1 = EOF
           else if err' = None then length ((buf @ got) @ got') = want
           else left r' = [] \<and> err' = Some (ending r1) \<and> ending r1 \<noteq> EOF"
        using 1(1) [OF less conjunct1 [OF r1] len1] by blast
      have end1: "ending r1 = ending r" and left1: "left r = got @ left r1" using r1 by blast+
      show ?thesis
      proof (intro exI conjI)
        show "read_block rd r want buf = Some (buf @ (got @ got'), eof, err', r')" using step rec(1) by simp
        show "if eof then err' = None \<and> left r' = [] \<and> ending r = EOF
           else if err' = None then length (buf @ (got @ got')) = want
           else left r' = [] \<and> err' = Some (ending r) \<and> ending r \<noteq> EOF"
          using rec(6) unfolding end1 append_assoc .
      qed (use rec end1 left1 in simp_all)
    qed
  qed
qed

end

section \<open>ReadFull\<close>

text \<open>\<open>io.ReadFull\<close>: it reads until the buffer is full or the reader reports an error; an end of the
  stream after the first byte is \<open>ErrUnexpectedEOF\<close>.\<close>

partial_function (option) read_full :: "'r reader \<Rightarrow> 'r \<Rightarrow> nat \<Rightarrow> byte list \<Rightarrow>
    (byte list \<times> gerror option \<times> 'r) option" where
  "read_full rd r want buf =
     (if length buf < want then
        (case rd r (want - length buf) of (got, err, r) \<Rightarrow>
           (case err of
              None \<Rightarrow> read_full rd r want (buf @ got)
            | Some e \<Rightarrow>
                if want \<le> length (buf @ got) then Some (buf @ got, None, r)
                else if buf @ got \<noteq> [] \<and> e = EOF then Some (buf @ got, Some ErrUnexpectedEOF, r)
                else Some (buf @ got, Some e, r)))
      else Some (buf, None, r))"

declare read_full.simps [code]

text \<open>\<open>io.ReadFull\<close> reads what the loop of \<open>fillCore\<close> reads and reports a short read.\<close>

fun full_result :: "nat \<Rightarrow> byte list \<times> bool \<times> gerror option \<times> 'r \<Rightarrow> byte list \<times> gerror option \<times> 'r" where
  "full_result want (b, eof, err, r) =
     (b, if want \<le> length b then None
         else if eof then Some (if b \<noteq> [] then ErrUnexpectedEOF else EOF) else err, r)"

lemma read_full_block:
  assumes "read_block rd r want buf = Some y"
  shows "read_full rd r want buf = Some (full_result want y)"
proof (rule read_block.raw_induct [of "\<lambda>rd r want buf y. read_full rd r want buf = Some (full_result want y)", OF _ assms])
  fix rb and rd :: "'a reader" and r want buf y
  assume ih: "\<And>r want buf b y. rb r want buf b = Some y \<Longrightarrow> read_full r want buf b = Some (full_result buf y)"
    and body: "(if length buf < want
      then case rd r (want - length buf) of
           (got, None, r) \<Rightarrow> rb rd r want (buf @ got)
         | (got, Some e, r) \<Rightarrow>
             if e = EOF then Some (buf @ got, True, None, r) else Some (buf @ got, False, Some e, r)
      else Some (buf, False, None, r)) = Some y"
  show "read_full rd r want buf = Some (full_result want y)"
    using ih body by (subst read_full.simps) (auto split: if_splits prod.splits option.splits)
qed

section \<open>A hash and a source\<close>

text \<open>What the pull interfaces \<open>Chunker\<close> and \<open>BatchRoller\<close> are built from.\<close>

locale hash_stream =
  digest H inv win S fits + byte_source rd rok left ending rank
  for H :: "'d hash_iface" and inv win S fits and rd :: "'r reader" and rok left ending rank

section \<open>A reader of fixed bytes\<close>

text \<open>Its state is the bytes it still has and what it reports after them: EOF, or a failure of the source.\<close>

fun list_Read :: "(byte list \<times> gerror) reader" where
  "list_Read (bs, e) n = (if bs = [] then ([], Some e, (bs, e)) else (take n bs, None, (drop n bs, e)))"

interpretation list_source: byte_source list_Read "\<lambda>_. True" fst snd "\<lambda>_. 0"
  by unfold_locales (auto split: if_splits)

section \<open>The cycling reader\<close>

text \<open>\<open>cycleReader\<close> of rollstat/main.go: a fixed buffer repeated until \<open>remaining\<close> bytes are read.\<close>

record cycleReader =
  cy_data :: "byte list"
  cy_pos :: nat
  cy_remaining :: int

definition cycleReader_Read :: "cycleReader reader" where
  "cycleReader_Read r n =
     (if cy_remaining r \<le> 0 then ([], Some EOF, r)
      else
        let pos = (if length (cy_data r) \<le> cy_pos r then 0 else cy_pos r);
            n = min n (length (cy_data r) - pos);
            n = (if int n > cy_remaining r then nat (cy_remaining r) else n)
        in (take n (drop pos (cy_data r)), None,
            r\<lparr>cy_pos := pos + n, cy_remaining := cy_remaining r - int n\<rparr>))"

text \<open>The stream it delivers, byte by byte.\<close>

primrec cycle_bytes :: "byte list \<Rightarrow> nat \<Rightarrow> nat \<Rightarrow> byte list" where
  "cycle_bytes data pos 0 = []"
| "cycle_bytes data pos (Suc k) =
     (let pos = (if length data \<le> pos then 0 else pos) in data ! pos # cycle_bytes data (pos + 1) k)"

lemma cycle_bytes_take:
  "pos + n \<le> length data \<Longrightarrow> n \<le> k \<Longrightarrow>
   cycle_bytes data pos k = take n (drop pos data) @ cycle_bytes data (pos + n) (k - n)"
proof (induction n arbitrary: pos k)
  case 0
  then show ?case by simp
next
  case (Suc n)
  obtain k' where k: "k = Suc k'" using Suc.prems(2) by (cases k) auto
  have "cycle_bytes data (Suc pos) k' = take n (drop (Suc pos) data) @ cycle_bytes data (Suc pos + n) (k' - n)"
    using Suc.prems k by (intro Suc.IH) simp_all
  moreover have "drop pos data = data ! pos # drop (Suc pos) data"
    using Suc.prems by (intro Cons_nth_drop_Suc [symmetric]) simp
  ultimately show ?case using Suc.prems by (simp add: k)
qed

lemma cycle_bytes_wrap: "length data \<le> pos \<Longrightarrow> cycle_bytes data pos k = cycle_bytes data 0 k"
  by (cases k) (simp_all add: Let_def)

definition cycle_left :: "cycleReader \<Rightarrow> byte list" where
  "cycle_left r = cycle_bytes (cy_data r) (cy_pos r) (nat (cy_remaining r))"

interpretation cycle: byte_source cycleReader_Read "\<lambda>r. cy_data r \<noteq> []" cycle_left "\<lambda>_. EOF" "\<lambda>_. 0"
proof
  fix r :: cycleReader and n got err r'
  assume ok: "cy_data r \<noteq> []" and rd: "cycleReader_Read r n = (got, err, r')"
  define pos where "pos = (if length (cy_data r) \<le> cy_pos r then 0 else cy_pos r)"
  define m where "m = (if int (min n (length (cy_data r) - pos)) > cy_remaining r then nat (cy_remaining r)
    else min n (length (cy_data r) - pos))"
  show "cy_data r' \<noteq> [] \<and> length got \<le> n \<and> cycle_left r = got @ cycle_left r' \<and> EOF = EOF"
  proof (cases "cy_remaining r \<le> 0")
    case True
    then show ?thesis using ok rd by (auto simp: cycleReader_Read_def)
  next
    case False
    have eq: "got = take m (drop pos (cy_data r))" "r' = r\<lparr>cy_pos := pos + m, cy_remaining := cy_remaining r - int m\<rparr>"
      using rd False by (auto simp: cycleReader_Read_def Let_def pos_def m_def)
    have pos: "pos < length (cy_data r)" using ok by (simp add: pos_def)
    have m: "m \<le> n" "pos + m \<le> length (cy_data r)" "m \<le> nat (cy_remaining r)"
      using pos False by (auto simp: m_def)
    have "cycle_left r = cycle_bytes (cy_data r) pos (nat (cy_remaining r))"
      by (simp add: cycle_left_def pos_def cycle_bytes_wrap)
    also have "\<dots> = got @ cycle_bytes (cy_data r) (pos + m) (nat (cy_remaining r) - m)"
      using cycle_bytes_take [OF m(2,3)] by (simp add: eq)
    also have "nat (cy_remaining r) - m = nat (cy_remaining r - int m)" using m(3) False by simp
    finally show ?thesis using ok m by (simp add: eq cycle_left_def)
  qed
next
  fix r :: cycleReader and n got e r'
  assume "cy_data r \<noteq> []" and "cycleReader_Read r n = (got, Some e, r')"
  then show "cycle_left r' = [] \<and> e = EOF"
    by (auto simp: cycleReader_Read_def cycle_left_def Let_def split: if_splits)
next
  fix r :: cycleReader and n r'
  assume "cy_data r \<noteq> []" and "0 < n" and "cycleReader_Read r n = ([], None, r')"
  then show "(0 :: nat) < 0"
    by (auto simp: cycleReader_Read_def Let_def min_def split: if_splits)
qed

end
