(* ===== verification/Polynomials.thy ===== *)
theory Polynomials
  imports Gf2_Irreducible Readers
begin

text \<open>
  rabinkarp64/polynomials.go: arithmetic of polynomials over GF(2) of degree at most 63 on \<open>uint64\<close>,
  Ben-Or's test and the search for an irreducible polynomial. \<open>Pol\<close> is the Go type; \<open>poly x\<close> is
  the polynomial of Gf2 it stands for, and the lemmas say that every operation computes its
  namesake of the ring as long as the result has degree at most 63. A panic is \<open>None\<close>.
\<close>

section \<open>The operations\<close>

type_synonym Pol = u64

definition Deg :: "Pol \<Rightarrow> int" where
  "Deg x = int (nbits (unat x)) - 1"

definition pol_Add :: "Pol \<Rightarrow> Pol \<Rightarrow> Pol" where
  "pol_Add x y = x XOR y"

definition has_bit :: "Pol \<Rightarrow> nat \<Rightarrow> bool" where
  "has_bit y i \<longleftrightarrow> 0 < y AND push_bit i 1"

definition pol_mul :: "Pol \<Rightarrow> Pol \<Rightarrow> Pol" where
  "pol_mul x y =
     (if x = 0 \<or> y = 0 then 0
      else fold (\<lambda>i res. if has_bit y i then pol_Add res (push_bit i x) else res) [0..<nat (Deg y + 1)] 0)"

text \<open>\<open>for diff >= 0 { m := d << diff; q |= 1 << diff; x = x.Add(m); diff = x.Deg() - D }\<close>\<close>

partial_function (option) divmod_loop :: "Pol \<Rightarrow> int \<Rightarrow> Pol \<Rightarrow> Pol \<Rightarrow> int \<Rightarrow> (Pol \<times> Pol) option" where
  "divmod_loop d D x q diff =
     (if 0 \<le> diff then
        let m = push_bit (nat diff) d;
            q = q OR push_bit (nat diff) 1;
            x = pol_Add x m
        in divmod_loop d D x q (Deg x - D)
      else Some (q, x))"

declare divmod_loop.simps [code]

definition pol_DivMod :: "Pol \<Rightarrow> Pol \<Rightarrow> (Pol \<times> Pol) option" where
  "pol_DivMod x d =
     (if x = 0 then Some (0, 0)
      else if d = 0 then None
      else
        let D = Deg d; diff = Deg x - D
        in if diff < 0 then Some (0, x) else divmod_loop d D x 0 diff)"

definition pol_Div :: "Pol \<Rightarrow> Pol \<Rightarrow> Pol option" where
  "pol_Div x d = do { (q, r) \<leftarrow> pol_DivMod x d; Some q }"

definition pol_Mod :: "Pol \<Rightarrow> Pol \<Rightarrow> Pol option" where
  "pol_Mod x d = do { (q, r) \<leftarrow> pol_DivMod x d; Some r }"

definition mulOverflows :: "Pol \<Rightarrow> Pol \<Rightarrow> bool option" where
  "mulOverflows a b =
     (if a \<le> 1 \<or> b \<le> 1 then Some False
      else do {
        let c = pol_mul a b;
        d \<leftarrow> pol_Div c b;
        Some (d \<noteq> a)
      })"

definition pol_Mul :: "Pol \<Rightarrow> Pol \<Rightarrow> Pol option" where
  "pol_Mul x y = do {
     over \<leftarrow> mulOverflows x y;
     if over then None else Some (pol_mul x y)
   }"

partial_function (option) pol_GCD :: "Pol \<Rightarrow> Pol \<Rightarrow> Pol option" where
  "pol_GCD x f =
     (if f = 0 then Some x
      else if x = 0 then Some f
      else case (if Deg x < Deg f then (f, x) else (x, f)) of (x, f) \<Rightarrow>
        do { r \<leftarrow> pol_Mod x f; pol_GCD f r })"

declare pol_GCD.simps [code]

text \<open>\<open>a := x; for j := 0; j < i; j++ { a = a.Mul(2).Mod(g) }\<close>\<close>

primrec pol_shift :: "nat \<Rightarrow> Pol \<Rightarrow> Pol \<Rightarrow> Pol option" where
  "pol_shift 0 a g = Some a"
| "pol_shift (Suc i) a g = do { a \<leftarrow> pol_Mul a 2; a \<leftarrow> pol_Mod a g; pol_shift i a g }"

fun mulmod_loop :: "nat list \<Rightarrow> Pol \<Rightarrow> Pol \<Rightarrow> Pol \<Rightarrow> Pol \<Rightarrow> Pol option" where
  "mulmod_loop [] x f g res = Some res"
| "mulmod_loop (i # is) x f g res =
     (if has_bit f i
      then do {
        a \<leftarrow> pol_shift i x g;
        res \<leftarrow> pol_Mod (pol_Add res a) g;
        mulmod_loop is x f g res
      }
      else mulmod_loop is x f g res)"

definition pol_MulMod :: "Pol \<Rightarrow> Pol \<Rightarrow> Pol \<Rightarrow> Pol option" where
  "pol_MulMod x f g =
     (if x = 0 \<or> f = 0 then Some 0 else mulmod_loop [0..<nat (Deg f + 1)] x f g 0)"

text \<open>\<open>for i < num { res = res.MulMod(res, g); i *= 2 }\<close>\<close>

partial_function (option) qp_loop :: "int \<Rightarrow> int \<Rightarrow> Pol \<Rightarrow> Pol \<Rightarrow> Pol option" where
  "qp_loop num i res g =
     (if i < num then do { res \<leftarrow> pol_MulMod res res g; qp_loop num (wrap_int (i * 2)) res g }
      else Some res)"

declare qp_loop.simps [code]

definition qp :: "nat \<Rightarrow> Pol \<Rightarrow> Pol option" where
  "qp p g = do {
     let num = wrap_int (2 ^ p);
     res \<leftarrow> qp_loop num 1 2 g;
     pol_Mod (pol_Add res 2) g
   }"

fun irreducible_loop :: "nat list \<Rightarrow> Pol \<Rightarrow> bool option" where
  "irreducible_loop [] x = Some True"
| "irreducible_loop (i # is) x = do {
     q \<leftarrow> qp i x;
     d \<leftarrow> pol_GCD x q;
     if d \<noteq> 1 then Some False else irreducible_loop is x
   }"

text \<open>Go divides an \<open>int\<close> towards zero: the zero polynomial, of degree -1, has bound 0.\<close>

definition Irreducible :: "Pol \<Rightarrow> bool option" where
  "Irreducible x = irreducible_loop [1..<nat (Deg x) div 2 + 1] x"

section \<open>Words as polynomials\<close>

declare size2_gt_0 [simp]

definition poly :: "Pol \<Rightarrow> gf2" where
  "poly x = Gf2 (unat x)"

lemma coeffs_poly [simp]: "coeffs (poly x) = unat x"
  by (simp add: poly_def Gf2_inverse)

lemma poly_eq_iff [simp]: "poly x = poly y \<longleftrightarrow> x = y"
  by (simp add: coeffs_inject [symmetric] word_unat_eq_iff)

lemma poly_0 [simp]: "poly 0 = 0"
  by (simp add: coeffs_inject [symmetric] zero_gf2.rep_eq)

lemma poly_1 [simp]: "poly 1 = 1"
  by (simp add: coeffs_inject [symmetric] one_gf2.rep_eq)

lemma poly_0_iff [simp]: "poly x = 0 \<longleftrightarrow> x = 0"
  using poly_eq_iff [of x 0] by (simp del: poly_eq_iff)

lemma poly_Add [simp]: "poly (pol_Add x y) = poly x + poly y"
  by (simp add: coeffs_inject [symmetric] plus_gf2.rep_eq pol_Add_def unsigned_xor_eq)

lemma Deg_size: "Deg x = int (size2 (poly x)) - 1"
  by (simp add: Deg_def size2.rep_eq)

lemma size2_poly: "size2 (poly x) \<le> 64"
  using unsigned_less [of x] by (simp add: size2.rep_eq nbits_le_iff)

lemma poly_1_iff [simp]: "poly x = 1 \<longleftrightarrow> x = 1"
  using poly_eq_iff [of x 1] by (simp del: poly_eq_iff)

text \<open>Every polynomial of degree at most 63 is a word.\<close>

lemma polyI: "size2 p \<le> 64 \<Longrightarrow> \<exists>x. poly x = p"
proof -
  assume "size2 p \<le> 64"
  then have "coeffs p < 2 ^ 64" by (simp add: size2.rep_eq nbits_le_iff)
  then have "poly (word_of_nat (coeffs p)) = p"
    by (simp add: coeffs_inject [symmetric] unsigned_of_nat take_bit_nat_eq_self)
  then show ?thesis by blast
qed

text \<open>The monomials \<open>x^k\<close>.\<close>

definition Xpow :: "nat \<Rightarrow> gf2" where
  "Xpow k = Gf2 (push_bit k 1)"

lemma coeffs_Xpow [simp]: "coeffs (Xpow k) = push_bit k 1"
  by (simp add: Xpow_def Gf2_inverse)

lemma coeffs_times_Xpow: "coeffs (a * Xpow k) = push_bit k (coeffs a)"
  using clmul_push_right [of "coeffs a" k 1] by (simp add: times_gf2.rep_eq)

lemma Xpow_0 [simp]: "Xpow 0 = 1"
  by (simp add: coeffs_inject [symmetric] one_gf2.rep_eq)

lemma Xpow_Suc: "Xpow (Suc k) = Xpow k * Xpow 1"
  by (simp add: coeffs_inject [symmetric] coeffs_times_Xpow push_bit_eq_mult)

lemma Xpow_power: "Xpow k = Xpow 1 ^ k"
  by (induction k) (simp_all only: Xpow_0 Xpow_Suc power_0 power_Suc2)

lemma Xpow_nonzero [simp]: "Xpow k \<noteq> 0"
  by (simp add: coeffs_inject [symmetric] zero_gf2.rep_eq)

lemma size2_Xpow [simp]: "size2 (Xpow k) = Suc k"
  using nbits_push [of 1 k] nbits_pos [of 1] by (simp add: size2.rep_eq)

lemma size2_times_Xpow: "a \<noteq> 0 \<Longrightarrow> size2 (a * Xpow k) = size2 a + k"
  using size2_mult [of a "Xpow k"] by simp

lemma poly_2: "poly 2 = Xpow 1"
  by (simp add: coeffs_inject [symmetric])

lemma poly_push:
  assumes "size2 (poly x) + k \<le> 64"
  shows "poly (push_bit k x) = poly x * Xpow k"
proof -
  have "push_bit k (unat x) < 2 ^ 64"
  proof (cases "x = 0")
    case False
    then have "nbits (push_bit k (unat x)) \<le> 64"
      using assms nbits_push [of "unat x" k] by (simp add: size2.rep_eq unat_eq_0)
    then show ?thesis by (simp add: nbits_le_iff)
  qed simp
  then show ?thesis
    by (simp add: coeffs_inject [symmetric] coeffs_times_Xpow unsigned_push_bit_eq take_bit_nat_eq_self)
qed

section \<open>Multiplication\<close>

lemma has_bit_iff: "has_bit y i \<longleftrightarrow> i < 64 \<and> bit y i"
proof (cases "i < 64 \<and> bit y i")
  case True
  then have "bit (y AND push_bit i 1) i" by (simp add: bit_simps)
  then have "y AND push_bit i 1 \<noteq> 0" by auto
  then show ?thesis using True by (simp add: has_bit_def word_neq_0_conv)
next
  case False
  then have "y AND push_bit i 1 = 0" by (intro bit_word_eqI) (auto simp: bit_simps)
  then show ?thesis using False by (simp add: has_bit_def)
qed

lemma bit_unat_iff: "bit (unat (y :: Pol)) i \<longleftrightarrow> i < 64 \<and> bit y i"
  by (auto simp: bit_simps dest: bit_imp_le_length)

text \<open>A polynomial is the sum of its monomials.\<close>

lemma Gf2_take_bit: "Gf2 (take_bit k n) = (\<Sum>i<k. if bit n i then Xpow i else 0)"
proof (induction k)
  case 0
  then show ?case by (simp add: zero_gf2.abs_eq)
next
  case (Suc k)
  have "take_bit (Suc k) n = take_bit k n XOR (if bit n k then push_bit k 1 else 0)"
    by (rule bit_eqI) (auto simp: bit_simps less_Suc_eq)
  then have "Gf2 (take_bit (Suc k) n) = Gf2 (take_bit k n) + Gf2 (if bit n k then push_bit k 1 else 0)"
    by (simp add: plus_gf2.abs_eq)
  then show ?case using Suc by (simp add: Xpow_def zero_gf2.abs_eq)
qed

lemma poly_bits: "size2 (poly y) \<le> k \<Longrightarrow> poly y = (\<Sum>i<k. if has_bit y i then Xpow i else 0)"
proof -
  assume "size2 (poly y) \<le> k"
  then have "take_bit k (unat y) = unat y" by (simp add: size2.rep_eq nbits_le_iff take_bit_nat_eq_self)
  then show ?thesis
    using Gf2_take_bit [of k "unat y"] by (simp only: poly_def bit_unat_iff has_bit_iff)
qed

lemma Deg_bound: "nat (Deg y + 1) = size2 (poly y)"
  by (simp add: Deg_size)

lemma pol_mul_fold:
  assumes "y \<noteq> 0" and "size2 (poly x) + k \<le> 65"
  shows "poly (fold (\<lambda>i res. if has_bit y i then pol_Add res (push_bit i x) else res) [0..<k] 0) =
    poly x * (\<Sum>i<k. if has_bit y i then Xpow i else 0)"
  using assms(2)
proof (induction k)
  case (Suc k)
  have "poly (push_bit k x) = poly x * Xpow k" using Suc.prems by (intro poly_push) simp
  then show ?case using Suc by (auto simp: algebra_simps)
qed simp

text \<open>A product of degree at most 63 is exact.\<close>

lemma pol_mul_exact:
  assumes "size2 (poly x * poly y) \<le> 64"
  shows "poly (pol_mul x y) = poly x * poly y"
proof (cases "x = 0 \<or> y = 0")
  case False
  then have "Suc (size2 (poly x * poly y)) = size2 (poly x) + size2 (poly y)" by (intro size2_mult) simp_all
  then have "size2 (poly x) + size2 (poly y) \<le> 65" using assms by linarith
  then show ?thesis
    using False pol_mul_fold [of y x "size2 (poly y)"] poly_bits [of y "size2 (poly y)"]
    by (simp add: pol_mul_def Deg_bound)
qed (auto simp: pol_mul_def)

section \<open>Division\<close>

lemma size2_cancel: "size2 a = size2 b \<Longrightarrow> a \<noteq> 0 \<Longrightarrow> size2 (a + b) < size2 (a :: gf2)"
  by transfer (rule nbits_xor_cancel)

lemma poly_or_bit:
  assumes "size2 (poly r) \<le> k" and "k < 64"
  shows "poly (push_bit k 1 OR r) = Xpow k + poly r"
proof -
  have high: "\<not> bit r i" if "k \<le> i" "i < 64" for i
    using assms(1) that nbits_high [of "unat r" i] by (simp add: size2.rep_eq bit_unat_iff)
  have "push_bit k 1 OR r = push_bit k 1 XOR r"
    by (rule bit_word_eqI) (use high in \<open>auto simp: bit_simps\<close>)
  moreover have "poly (push_bit k 1) = Xpow k"
    using poly_push [of 1 k] assms(2) size2_Xpow [of 0] by (simp del: size2_Xpow)
  ultimately show ?thesis using poly_Add [of "push_bit k 1" r] by (simp add: pol_Add_def)
qed

text \<open>Each pass cancels the leading term, so the loop ends, with quotient and remainder.\<close>

lemma divmod_loop_ok:
  assumes d: "d \<noteq> 0" and D: "D = Deg d" and diff: "diff = Deg x - D"
  shows "\<exists>q' r. divmod_loop d D x q diff = Some (q OR q', r) \<and>
    poly x = poly q' * poly d + poly r \<and> size2 (poly r) < size2 (poly d) \<and>
    size2 (poly q') \<le> nat (diff + 1)"
  using diff
proof (induction "size2 (poly x)" arbitrary: x q diff rule: less_induct)
  case less
  show ?case
  proof (cases "0 \<le> diff")
    case False
    then have "divmod_loop d D x q diff = Some (q, x)" by (subst divmod_loop.simps) simp
    then show ?thesis using False less.prems by (intro exI [of _ 0] exI [of _ x]) (simp add: D Deg_size)
  next
    case True
    define k where "k = nat diff"
    define m where "m = push_bit k d"
    have sd: "0 < size2 (poly d)" using d by simp
    have sx: "size2 (poly x) = size2 (poly d) + k" and x: "poly x \<noteq> 0"
      using less.prems True sd by (auto simp: D Deg_size k_def simp flip: size2_gt_0)
    have k64: "k < 64" using sx sd size2_poly [of x] by linarith
    have pm: "poly m = poly d * Xpow k" unfolding m_def using sx size2_poly [of x] by (intro poly_push) simp
    then have "size2 (poly x) = size2 (poly m)" using sx d by (simp add: size2_times_Xpow)
    then have smaller: "size2 (poly (pol_Add x m)) < size2 (poly x)" using size2_cancel [OF _ x] by simp
    define diff' where "diff' = Deg (pol_Add x m) - D"
    have less_diff: "nat (diff' + 1) \<le> k" using smaller sx sd by (simp add: diff'_def D Deg_size)
    obtain q' r where ih: "divmod_loop d D (pol_Add x m) (q OR push_bit k 1) diff' =
        Some ((q OR push_bit k 1) OR q', r)"
      "poly (pol_Add x m) = poly q' * poly d + poly r" "size2 (poly r) < size2 (poly d)"
      "size2 (poly q') \<le> nat (diff' + 1)"
      using less.hyps [OF smaller diff'_def] by blast
    have q': "poly (push_bit k 1 OR q') = Xpow k + poly q'"
      using ih(4) less_diff k64 by (intro poly_or_bit) simp_all
    have "divmod_loop d D x q diff = Some (q OR (push_bit k 1 OR q'), r)"
      using True ih(1) by (subst divmod_loop.simps) (simp add: k_def m_def diff'_def or.assoc)
    moreover have "poly x = poly (push_bit k 1 OR q') * poly d + poly r"
    proof -
      have "poly x = poly (pol_Add x m) + poly m" by (simp add: add.assoc)
      then show ?thesis unfolding ih(2) q' pm by (simp add: algebra_simps)
    qed
    moreover have "size2 (poly (push_bit k 1 OR q')) \<le> nat (diff + 1)"
      unfolding q' using ih(4) less_diff True by (intro size2_add_le) (simp_all add: k_def)
    ultimately show ?thesis using ih(3) by blast
  qed
qed

lemma pol_DivMod_ok:
  assumes "d \<noteq> 0"
  shows "\<exists>q r. pol_DivMod x d = Some (q, r) \<and> poly q = poly x div poly d \<and> poly r = poly x mod poly d"
proof -
  have uniq: "poly q = poly x div poly d \<and> poly r = poly x mod poly d"
    if "poly x = poly q * poly d + poly r" "size2 (poly r) < size2 (poly d)" for q r
  proof -
    have d: "poly d \<noteq> 0" using assms by simp
    note dm = gf2_cldivmod [OF d, of "poly x"]
    show ?thesis
      by (rule gf2_division_unique [OF trans [OF that(1) [symmetric] conjunct1 [OF dm]] that(2) conjunct2 [OF dm]])
  qed
  consider "x = 0" | "x \<noteq> 0" "Deg x < Deg d" | "x \<noteq> 0" "Deg d \<le> Deg x" by linarith
  then show ?thesis
  proof cases
    case 1
    then show ?thesis using uniq [of 0 0] assms by (simp add: pol_DivMod_def)
  next
    case 2
    then show ?thesis using uniq [of 0 x] assms by (auto simp: pol_DivMod_def Deg_size)
  next
    case 3
    then obtain q r where "divmod_loop d (Deg d) x 0 (Deg x - Deg d) = Some (0 OR q, r)"
        "poly x = poly q * poly d + poly r" "size2 (poly r) < size2 (poly d)"
      using divmod_loop_ok [OF assms refl refl, of x 0] by blast
    then show ?thesis using 3 uniq assms by (simp add: pol_DivMod_def)
  qed
qed

lemma pol_DivMod_panic: "x \<noteq> 0 \<Longrightarrow> pol_DivMod x 0 = None"
  by (simp add: pol_DivMod_def)

lemma pol_Div_ok: "d \<noteq> 0 \<Longrightarrow> \<exists>q. pol_Div x d = Some q \<and> poly q = poly x div poly d"
  using pol_DivMod_ok [of d x] by (auto simp: pol_Div_def)

lemma pol_Mod_ok: "d \<noteq> 0 \<Longrightarrow> \<exists>r. pol_Mod x d = Some r \<and> poly r = poly x mod poly d"
  using pol_DivMod_ok [of d x] by (auto simp: pol_Mod_def)

section \<open>Checked multiplication\<close>

lemma word_gt_1: "1 < (a :: Pol) \<Longrightarrow> 2 \<le> size2 (poly a)"
proof (rule ccontr)
  assume a: "1 < a" and "\<not> 2 \<le> size2 (poly a)"
  then have "unat a < 2 ^ 1" unfolding nbits_le_iff [symmetric] by (simp add: size2.rep_eq)
  then show False using a by (simp add: word_less_nat_alt)
qed

lemma size2_le_1: "a \<noteq> 0 \<Longrightarrow> (a :: Pol) \<le> 1 \<Longrightarrow> poly a = 1"
  by (metis poly_1 word_le_less_eq word_less_1)

lemma pol_mul_1: "x \<noteq> 0 \<Longrightarrow> y \<noteq> 0 \<Longrightarrow> x \<le> 1 \<or> y \<le> 1 \<Longrightarrow> size2 (poly x * poly y) \<le> 64"
  using size2_poly size2_le_1 by fastforce

text \<open>The overflow test is exact: multiplying and dividing back gives the factor again if and only if
  the product has degree at most 63, whatever the wrapped product is.\<close>

lemma mulOverflows_iff: "mulOverflows a b = Some (64 < size2 (poly a * poly b))"
proof (cases "a \<le> 1 \<or> b \<le> 1")
  case True
  then have "size2 (poly a * poly b) \<le> 64"
    using pol_mul_1 [of a b] by (cases "a = 0 \<or> b = 0") auto
  then show ?thesis using True by (simp add: mulOverflows_def)
next
  case False
  then have nz: "poly a \<noteq> 0" "poly b \<noteq> 0" "b \<noteq> 0" by auto
  define c where "c = pol_mul a b"
  obtain q where q: "pol_Div c b = Some q" "poly q = poly c div poly b" using pol_Div_ok [OF nz(3)] by blast
  have "q = a \<longleftrightarrow> size2 (poly a * poly b) \<le> 64"
  proof
    assume le: "size2 (poly a * poly b) \<le> 64"
    then have "poly q = poly a" using q(2) nz pol_mul_exact [OF le] by (simp add: c_def del: poly_eq_iff)
    then show "q = a" by simp
  next
    assume "q = a"
    then have c: "poly c = poly a * poly b + poly c mod poly b"
      using q(2) div_mult_mod_eq [of "poly c" "poly b"] by simp
    show "size2 (poly a * poly b) \<le> 64"
    proof (rule ccontr)
      assume big: "\<not> size2 (poly a * poly b) \<le> 64"
      have r: "size2 (poly c mod poly b) \<le> 64"
        using size2_mod_less [OF nz(2), of "poly c"] size2_poly [of b] by linarith
      have "poly a * poly b = poly c + poly c mod poly b" using c by (metis add.assoc add_0_right gf2_add_self)
      then show False using size2_add_le [OF size2_poly [of c] r] big by simp
    qed
  qed
  then show ?thesis using False q(1) by (auto simp: mulOverflows_def c_def)
qed

lemma pol_Mul_eq:
  "pol_Mul x y = (if 64 < size2 (poly x * poly y) then None else Some (pol_mul x y))"
  by (simp add: pol_Mul_def mulOverflows_iff)

section \<open>The greatest common divisor\<close>

definition is_gcd2 :: "gf2 \<Rightarrow> gf2 \<Rightarrow> gf2 \<Rightarrow> bool" where
  "is_gcd2 g a b \<longleftrightarrow> g dvd a \<and> g dvd b \<and> (\<forall>c. c dvd a \<longrightarrow> c dvd b \<longrightarrow> c dvd g)"

lemma is_gcd2_commute: "is_gcd2 g a b \<longleftrightarrow> is_gcd2 g b a"
  by (auto simp: is_gcd2_def)

lemma is_gcd2_mod: "is_gcd2 g b (a mod b) \<Longrightarrow> is_gcd2 g a b"
  unfolding is_gcd2_def by (metis dvd_mod_iff dvd_mod)

lemma pol_GCD_ok: "\<exists>g. pol_GCD x f = Some g \<and> is_gcd2 (poly g) (poly x) (poly f)"
proof (induction "size2 (poly f)" arbitrary: x f rule: less_induct)
  case less
  show ?case
  proof (cases "f = 0 \<or> x = 0")
    case True
    then show ?thesis by (subst pol_GCD.simps) (auto simp: is_gcd2_def)
  next
    case False
    obtain a b where ab: "(if Deg x < Deg f then (f, x) else (x, f)) = (a, b)" by fastforce
    then have b: "b \<noteq> 0" "size2 (poly b) \<le> size2 (poly f)" and ab': "a = x \<and> b = f \<or> a = f \<and> b = x"
      using False by (auto simp: Deg_size split: if_splits)
    obtain r where r: "pol_Mod a b = Some r" "poly r = poly a mod poly b"
      using pol_Mod_ok [OF b(1)] by blast
    have "size2 (poly r) < size2 (poly f)"
      using size2_mod_less [of "poly b" "poly a"] b r(2) by simp
    then obtain g where g: "pol_GCD b r = Some g" "is_gcd2 (poly g) (poly b) (poly r)"
      using less by blast
    have "is_gcd2 (poly g) (poly x) (poly f)"
      using is_gcd2_mod [OF g(2) [unfolded r(2)]] ab' is_gcd2_commute by blast
    moreover have "pol_GCD x f = Some g"
      using False ab r(1) g(1) by (subst pol_GCD.simps) simp
    ultimately show ?thesis by blast
  qed
qed

section \<open>Multiplication modulo a polynomial\<close>

lemma pol_shift_ok:
  assumes g: "g \<noteq> 0" and a: "size2 (poly a) \<le> 63"
  shows "\<exists>a'. pol_shift i a g = Some a' \<and> poly a' mod poly g = (poly a * Xpow i) mod poly g"
  using a
proof (induction i arbitrary: a)
  case (Suc i)
  have "size2 (poly a * Xpow 1) \<le> 64"
    using Suc.prems by (cases "a = 0") (simp_all add: size2_times_Xpow)
  then have mul: "pol_Mul a 2 = Some (pol_mul a 2)" "poly (pol_mul a 2) = poly a * Xpow 1"
    using pol_mul_exact [of a 2] by (simp_all add: pol_Mul_eq poly_2)
  obtain a1 where a1: "pol_Mod (pol_mul a 2) g = Some a1" "poly a1 = (poly a * Xpow 1) mod poly g"
    using pol_Mod_ok [OF g] mul(2) by metis
  have "size2 (poly a1) \<le> 63"
    using size2_mod_less [of "poly g" "poly a * Xpow 1"] g a1(2) size2_poly [of g] by simp
  then obtain a' where a': "pol_shift i a1 g = Some a'" "poly a' mod poly g = (poly a1 * Xpow i) mod poly g"
    using Suc.IH by blast
  have "poly a' mod poly g = (poly a * Xpow (Suc i)) mod poly g"
    unfolding a'(2) a1(2) Xpow_Suc [of i] by (simp add: mod_mult_right_eq ac_simps)
  then show ?case using mul(1) a1(1) a'(1) by simp
qed simp

lemma mulmod_loop_ok:
  assumes g: "g \<noteq> 0" and x: "size2 (poly x) \<le> 63"
  shows "poly res mod poly g = poly res \<Longrightarrow> \<exists>res'. mulmod_loop is x f g res = Some res' \<and>
    poly res' = (poly res + poly x * (\<Sum>i\<leftarrow>is. if has_bit f i then Xpow i else 0)) mod poly g"
proof (induction "is" arbitrary: res)
  case (Cons i "is")
  show ?case
  proof (cases "has_bit f i")
    case True
    obtain a where a: "pol_shift i x g = Some a" "poly a mod poly g = (poly x * Xpow i) mod poly g"
      using pol_shift_ok [OF g x] by blast
    obtain res1 where res1: "pol_Mod (pol_Add res a) g = Some res1" "poly res1 = (poly res + poly a) mod poly g"
      using pol_Mod_ok [OF g, of "pol_Add res a"] by auto
    let ?s = "\<Sum>i\<leftarrow>is. if has_bit f i then Xpow i else 0"
    obtain res' where res': "mulmod_loop is x f g res1 = Some res'"
        "poly res' = (poly res1 + poly x * ?s) mod poly g"
      using Cons.IH [of res1] res1(2) by (auto simp del: poly_eq_iff)
    have "(poly res + poly a) mod poly g = (poly res + poly x * Xpow i) mod poly g"
      by (rule mod_add_cong [OF refl a(2)])
    then have "poly res' = (poly res + poly x * Xpow i + poly x * ?s) mod poly g"
      unfolding res'(2) res1(2) by (simp add: mod_add_left_eq)
    then show ?thesis using True a(1) res1(1) res'(1) by (simp add: distrib_left add.assoc)
  next
    case False
    then show ?thesis using Cons by simp
  qed
qed simp

lemma pol_MulMod_ok:
  assumes g: "g \<noteq> 0" and x: "size2 (poly x) \<le> 63"
  shows "\<exists>r. pol_MulMod x f g = Some r \<and> poly r = (poly x * poly f) mod poly g"
proof (cases "x = 0 \<or> f = 0")
  case False
  have "poly f = (\<Sum>i\<leftarrow>[0..<size2 (poly f)]. if has_bit f i then Xpow i else 0)"
    using poly_bits [of f "size2 (poly f)"] by (simp add: interv_sum_list_conv_sum_set_nat atLeast0LessThan)
  then show ?thesis
    using False mulmod_loop_ok [OF g x, of 0 "[0..<size2 (poly f)]" f] by (simp add: pol_MulMod_def Deg_bound)
qed (auto simp: pol_MulMod_def)

section \<open>Powers of x by repeated squaring\<close>

lemma qp_loop_ok:
  assumes g: "g \<noteq> 0" and p: "p \<le> 62"
  shows "k \<le> p \<Longrightarrow> size2 (poly res) \<le> 63 \<Longrightarrow> \<exists>res'. qp_loop (2 ^ p) (2 ^ (p - k)) res g = Some res' \<and>
    poly res' mod poly g = (poly res ^ (2 ^ k)) mod poly g"
proof (induction k arbitrary: res)
  case 0
  show ?case by (subst qp_loop.simps) simp
next
  case (Suc k)
  obtain r where r: "pol_MulMod res res g = Some r" "poly r = (poly res * poly res) mod poly g"
    using pol_MulMod_ok [OF g Suc.prems(2)] by blast
  have "size2 (poly r) \<le> 63"
    using size2_mod_less [of "poly g" "poly res * poly res"] g r(2) size2_poly [of g] by simp
  then obtain res' where res': "qp_loop (2 ^ p) (2 ^ (p - k)) r g = Some res'"
      "poly res' mod poly g = (poly r ^ (2 ^ k)) mod poly g"
    using Suc by (meson Suc_leD)
  have two: "(2 :: int) ^ (p - Suc k) * 2 = 2 ^ (p - k)"
    using Suc.prems(1) by (metis Suc_diff_Suc Suc_le_eq power_Suc2)
  have "(2 :: int) ^ (p - k) \<le> 2 ^ 62" using p by (intro power_increasing) simp_all
  then have "wrap_int (2 ^ (p - k)) = 2 ^ (p - k)" by (intro wrap_int_id) (simp_all add: MaxInt_def order_trans [of _ 0])
  moreover have "(2 :: int) ^ (p - Suc k) < 2 ^ p" using Suc.prems(1) by (intro power_strict_increasing) simp_all
  ultimately have "qp_loop (2 ^ p) (2 ^ (p - Suc k)) res g = Some res'"
    using r(1) res'(1) two by (subst qp_loop.simps) simp
  moreover have "(poly r ^ (2 ^ k)) mod poly g = (poly res ^ (2 ^ Suc k)) mod poly g"
    unfolding r(2) power_mod by (simp add: power2_eq_square [symmetric] power_mult [symmetric])
  ultimately show ?case using res'(2) by auto
qed

lemma qp_ok:
  assumes g: "g \<noteq> 0" and p: "p \<le> 62"
  shows "\<exists>r. qp p g = Some r \<and> poly r = (Xpow 1 ^ (2 ^ p) + Xpow 1) mod poly g"
proof -
  have "size2 (poly 2) \<le> 63" by (simp add: poly_2)
  then obtain res where res: "qp_loop (2 ^ p) 1 2 g = Some res"
      "poly res mod poly g = (Xpow 1 ^ (2 ^ p)) mod poly g"
    using qp_loop_ok [OF assms le_refl, of 2] by (auto simp: poly_2)
  obtain r where r: "pol_Mod (pol_Add res 2) g = Some r" "poly r = (poly res + Xpow 1) mod poly g"
    using pol_Mod_ok [OF g, of "pol_Add res 2"] by (auto simp: poly_2)
  have "(2 :: int) ^ p \<le> 2 ^ 62" using p by (intro power_increasing) simp_all
  then have "wrap_int (2 ^ p) = 2 ^ p" by (intro wrap_int_id) (simp_all add: MaxInt_def order_trans [of _ 0])
  moreover have "(poly res + Xpow 1) mod poly g = (Xpow 1 ^ (2 ^ p) + Xpow 1) mod poly g"
    by (rule mod_add_cong [OF res(2) refl])
  ultimately show ?thesis using res(1) r by (simp add: qp_def)
qed

section \<open>Ben-Or's test\<close>

lemma Xpow_1_gen: "Xpow 1 = gen2"
  by (simp add: Xpow_def gen2_def)

lemma irreducible_loop_ok:
  assumes x: "x \<noteq> 0"
  shows "\<forall>i \<in> set is. i \<le> 62 \<Longrightarrow> irreducible_loop is x =
    Some (\<forall>i \<in> set is. \<forall>c. c dvd poly x \<longrightarrow> c dvd gen2 ^ (2 ^ i) + gen2 \<longrightarrow> c = 1)"
proof (induction "is")
  case (Cons i "is")
  obtain q where q: "qp i x = Some q" "poly q = (gen2 ^ (2 ^ i) + gen2) mod poly x"
    using qp_ok [OF x, of i] Cons.prems unfolding Xpow_1_gen by auto
  obtain d where d: "pol_GCD x q = Some d" "is_gcd2 (poly d) (poly x) (poly q)" using pol_GCD_ok by blast
  have common: "c dvd poly d \<longleftrightarrow> c dvd poly x \<and> c dvd gen2 ^ (2 ^ i) + gen2" for c
  proof -
    have "c dvd poly d \<longleftrightarrow> c dvd poly x \<and> c dvd poly q"
      using d(2) unfolding is_gcd2_def by (meson dvd_trans)
    then show ?thesis unfolding q(2) using dvd_mod_iff by blast
  qed
  have "d = 1 \<longleftrightarrow> (\<forall>c. c dvd poly d \<longrightarrow> c = 1)"
    by (metis dvd_1_iff dvd_refl poly_1 poly_1_iff)
  then have "d = 1 \<longleftrightarrow> (\<forall>c. c dvd poly x \<longrightarrow> c dvd gen2 ^ (2 ^ i) + gen2 \<longrightarrow> c = 1)"
    unfolding common by blast
  then show ?case
    using Cons.IH Cons.prems by (simp only: irreducible_loop.simps q(1) d(1) bind.bind_lunit list.set) simp
qed simp

text \<open>The test is exact for every polynomial of positive degree, and it never panics.\<close>

lemma Irreducible_ok:
  assumes "1 \<le> Deg x"
  shows "Irreducible x = Some (irreducible2 (poly x))"
proof -
  have s: "2 \<le> size2 (poly x)" using assms by (simp add: Deg_size)
  then have "x \<noteq> 0" by auto
  have range: "set [1..<nat (Deg x) div 2 + 1] = {1..(size2 (poly x) - 1) div 2}"
    by (auto simp: Deg_size nat_diff_distrib)
  have "\<forall>i \<in> set [1..<nat (Deg x) div 2 + 1]. i \<le> 62"
    unfolding range using size2_poly [of x] by auto
  from irreducible_loop_ok [OF \<open>x \<noteq> 0\<close> this] show ?thesis
    unfolding Irreducible_def range ben_or [OF s] by simp
qed

lemma Irreducible_const: "Deg x \<le> 0 \<Longrightarrow> Irreducible x = Some True"
  by (simp add: Irreducible_def)

section \<open>Exact results and panics\<close>

lemma pol_DivMod_iff:
  "pol_DivMod x d = Some (q, r) \<longleftrightarrow>
     (x = 0 \<or> d \<noteq> 0) \<and> poly q = poly x div poly d \<and> poly r = poly x mod poly d"
proof (cases "d = 0")
  case True
  then show ?thesis by (auto simp: pol_DivMod_def)
next
  case False
  obtain q' r' where "pol_DivMod x d = Some (q', r')" "poly q' = poly x div poly d" "poly r' = poly x mod poly d"
    using pol_DivMod_ok [OF False] by blast
  then show ?thesis using False poly_eq_iff by (metis option.inject prod.inject)
qed

lemma pol_Mul_iff: "pol_Mul x y = Some p \<longleftrightarrow> poly p = poly x * poly y"
proof (cases "64 < size2 (poly x * poly y)")
  case True
  then show ?thesis using size2_poly [of p] by (auto simp: pol_Mul_eq)
next
  case False
  then have "poly (pol_mul x y) = poly x * poly y" by (intro pol_mul_exact) simp
  then show ?thesis using False poly_eq_iff [of "pol_mul x y" p] by (auto simp: pol_Mul_eq)
qed

lemma dvd_antisym2: "a dvd b \<Longrightarrow> b dvd a \<Longrightarrow> a = (b :: gf2)"
proof -
  assume ab: "a dvd b" and ba: "b dvd a"
  obtain k where k: "b = a * k" using ab by (rule dvdE)
  obtain l where l: "a = b * l" using ba by (rule dvdE)
  show "a = b"
  proof (cases "a = 0")
    case False
    have "a * 1 = a * (k * l)" using k l by (metis mult.assoc mult_1_right)
    then have "1 = k * l" using False by (simp only: mult_cancel_left) simp
    then have "k dvd 1" by (metis dvd_triv_left)
    then show ?thesis using k by simp
  qed (use k in simp)
qed

lemma pol_GCD_iff: "pol_GCD x f = Some g \<longleftrightarrow> is_gcd2 (poly g) (poly x) (poly f)"
proof -
  obtain g' where g': "pol_GCD x f = Some g'" "is_gcd2 (poly g') (poly x) (poly f)" using pol_GCD_ok by blast
  have "g = g'" if "is_gcd2 (poly g) (poly x) (poly f)"
  proof -
    have "poly g = poly g'" using that g'(2) unfolding is_gcd2_def by (intro dvd_antisym2) blast+
    then show ?thesis by simp
  qed
  then show ?thesis using g' by auto
qed

lemma pol_mul_2: "Deg x < 63 \<Longrightarrow> poly (pol_mul x 2) = poly x * Xpow 1"
  using pol_mul_exact [of x 2] by (cases "x = 0") (simp_all add: poly_2 size2_times_Xpow Deg_size)

lemma pol_Mul_2_None: "Deg x = 63 \<Longrightarrow> pol_Mul x 2 = None"
proof -
  assume d: "Deg x = 63"
  then have "x \<noteq> 0" by (auto simp: Deg_size)
  then have "size2 (poly x * Xpow 1) = size2 (poly x) + 1" by (simp add: size2_times_Xpow)
  then show ?thesis using d by (simp add: pol_Mul_eq poly_2 Deg_size)
qed

lemma mulmod_loop_panic: "i \<in> set is \<Longrightarrow> has_bit f i \<Longrightarrow> pol_shift i x g = None \<Longrightarrow> mulmod_loop is x f g res = None"
  by (induction "is" arbitrary: res) (auto split: bind_splits)

lemma mulmod_loop_zero: "x \<noteq> 0 \<Longrightarrow> i \<in> set is \<Longrightarrow> has_bit f i \<Longrightarrow> mulmod_loop is x f 0 0 = None"
proof (induction "is")
  case (Cons j "is")
  show ?case
  proof (cases "has_bit f j")
    case True
    have "do { a \<leftarrow> pol_shift j x 0; pol_Mod (pol_Add 0 a) 0 } = None"
    proof (cases j)
      case 0
      then show ?thesis using Cons.prems(1) pol_DivMod_panic by (simp add: pol_Add_def pol_Mod_def)
    next
      case (Suc k)
      show ?thesis
      proof (cases "Deg x = 63")
        case True
        then show ?thesis by (simp add: Suc pol_Mul_2_None)
      next
        case False
        then have "Deg x < 63" using size2_poly [of x] by (simp add: Deg_size)
        then have "poly (pol_mul x 2) \<noteq> 0" using pol_mul_2 Cons.prems(1) by simp
        then have "pol_Mod (pol_mul x 2) 0 = None" using pol_DivMod_panic by (simp add: pol_Mod_def)
        then show ?thesis by (cases "pol_Mul x 2") (auto simp: Suc pol_Mul_eq split: if_splits)
      qed
    qed
    then show ?thesis using True by (cases "pol_shift j x 0") auto
  next
    case False
    then show ?thesis using Cons by auto
  qed
qed simp

lemma nonzero_has_bit: "f \<noteq> 0 \<Longrightarrow> \<exists>i < size2 (poly f). has_bit f i"
proof (rule ccontr)
  assume f: "f \<noteq> 0" and "\<not> (\<exists>i < size2 (poly f). has_bit f i)"
  then have "poly f = 0" using poly_bits [of f "size2 (poly f)"] by simp
  then show False using f by simp
qed

text \<open>\<open>MulMod\<close> reduces only after it has shifted, so it panics for a factor of degree 63.\<close>

lemma pol_MulMod_iff:
  "pol_MulMod x f g = Some r \<longleftrightarrow>
     (x = 0 \<or> f = 0 \<or> g \<noteq> 0 \<and> (Deg x < 63 \<or> f = 1)) \<and> poly r = (poly x * poly f) mod poly g"
proof (cases "x = 0 \<or> f = 0")
  case True
  then show ?thesis by (auto simp: pol_MulMod_def)
next
  case nz: False
  have loop: "pol_MulMod x f g = mulmod_loop [0..<size2 (poly f)] x f g 0"
    using nz by (simp add: pol_MulMod_def Deg_bound)
  have unique: "poly a = poly r \<longleftrightarrow> a = r" for a by simp
  consider "g = 0" | "g \<noteq> 0" "Deg x < 63" | "g \<noteq> 0" "\<not> Deg x < 63" "f = 1" | "g \<noteq> 0" "\<not> Deg x < 63" "f \<noteq> 1" by blast
  then show ?thesis
  proof cases
    case 1
    obtain i where "i \<in> set [0..<size2 (poly f)]" "has_bit f i" using nonzero_has_bit [of f] nz by auto
    then show ?thesis using mulmod_loop_zero nz 1 loop by simp
  next
    case 2
    then have "size2 (poly x) \<le> 63" by (simp add: Deg_size)
    then show ?thesis using pol_MulMod_ok [OF 2(1), of x f] 2 unique by (metis option.inject)
  next
    case 3
    obtain a where a: "pol_Mod x g = Some a" "poly a = poly x mod poly g" using pol_Mod_ok [OF 3(1)] by blast
    have "size2 (poly f) = 1" using 3 by simp
    moreover have "has_bit f 0" using 3 by (simp add: has_bit_iff)
    ultimately have "pol_MulMod x f g = Some a" using a(1) by (simp add: loop pol_Add_def)
    then show ?thesis using a 3 unique by (metis mult_1_right option.inject poly_1)
  next
    case 4
    have "\<exists>i. 0 < i \<and> i < size2 (poly f) \<and> has_bit f i"
    proof (rule ccontr)
      assume none: "\<nexists>i. 0 < i \<and> i < size2 (poly f) \<and> has_bit f i"
      obtain k where k: "size2 (poly f) = Suc k" using nz by (metis not0_implies_Suc poly_0_iff size2_0_iff)
      have "poly f = (\<Sum>i<Suc k. if has_bit f i then Xpow i else 0)" using poly_bits [of f "Suc k"] k by simp
      also have "\<dots> = (if has_bit f 0 then 1 else 0)"
        unfolding sum.lessThan_Suc_shift using none k by (auto intro!: sum.neutral)
      finally show False using nz 4 by (auto split: if_splits)
    qed
    then obtain i where i: "0 < i" "i < size2 (poly f)" "has_bit f i" by blast
    then obtain j where "i = Suc j" by (cases i) auto
    moreover have "Deg x = 63" using 4(2) size2_poly [of x] by (simp add: Deg_size)
    ultimately have "pol_shift i x g = None" by (simp add: pol_Mul_2_None)
    then show ?thesis using i mulmod_loop_panic [of i "[0..<size2 (poly f)]"] 4 nz loop by simp
  qed
qed

section \<open>Properties\<close>

text \<open>C32: The arithmetic of Pol is the arithmetic of GF(2)[x]: \<open>DivMod\<close> returns the Euclidean quotient and
  remainder and panics exactly when a nonzero polynomial is divided by zero; \<open>Mul\<close> returns the
  product and panics exactly when no polynomial of degree at most 63 is the product, so its overflow test is
  exact; \<open>GCD\<close> always returns, and returns the greatest common divisor; \<open>MulMod\<close> returns the
  reduced product, and panics exactly on a zero modulus or on an unreduced factor of degree 63.\<close>

theorem Pol_arithmetic:
  "(pol_DivMod x d = Some (q, r) \<longleftrightarrow>
      \<not> (x \<noteq> 0 \<and> d = 0) \<and> poly q = poly x div poly d \<and> poly r = poly x mod poly d) \<and>
   (pol_Mul x y = Some p \<longleftrightarrow> poly p = poly x * poly y) \<and>
   (pol_GCD x y = Some g \<longleftrightarrow> is_gcd2 (poly g) (poly x) (poly y)) \<and>
   (pol_MulMod x y d = Some m \<longleftrightarrow>
      \<not> (x \<noteq> 0 \<and> y \<noteq> 0 \<and> (d = 0 \<or> (63 \<le> Deg x \<and> y \<noteq> 1))) \<and> poly m = (poly x * poly y) mod poly d)"
  using pol_DivMod_iff [of x d q r] pol_Mul_iff [of x y p] pol_GCD_iff [of x y g] pol_MulMod_iff [of x y d m]
  by (auto simp: not_le)

text \<open>C9: \<open>Irreducible\<close> always returns; for every polynomial of positive degree it returns true if and only
  if the polynomial is irreducible over GF(2) (Ben-Or's test is sound and complete), and for the
  constants 0 and 1, which are not irreducible, it returns true.\<close>

theorem Irreducible_exact:
  "Irreducible x = Some (if Deg x \<le> 0 then True else irreducible2 (poly x))"
proof (cases "Deg x \<le> 0")
  case True
  then show ?thesis using Irreducible_const [OF True] by simp
next
  case False
  then show ?thesis using Irreducible_ok [of x] by simp
qed

end
