(* ===== verification/Derive_Poly.thy ===== *)
theory Derive_Poly
  imports Polynomials
begin

text \<open>
  The rest of rabinkarp64/polynomials.go: the search for an irreducible polynomial of degree 53 in
  the bytes of a reader. \<open>fills\<close> is the documented behaviour of
  the standard library's random source: it fills every buffer.
\<close>

section \<open>DerivePolynomial\<close>

text \<open>\<open>binary.Read(source, binary.LittleEndian, &f)\<close> for the eight bytes of a \<open>Pol\<close>.\<close>

definition le_value :: "byte list \<Rightarrow> u64" where
  "le_value bs = foldr (\<lambda>x r. push_bit 8 r OR ucast x) bs 0"

definition binary_Read :: "'r reader \<Rightarrow> 'r \<Rightarrow> (Pol \<times> gerror option \<times> 'r) option" where
  "binary_Read rd r = do {
     (bs, err, r) \<leftarrow> read_full rd r 8 [];
     (case err of
        Some e \<Rightarrow> Some (0, Some e, r)
      | None \<Rightarrow> Some (le_value bs, None, r))
   }"

definition randPolMaxTries :: nat where
  "randPolMaxTries = 10 ^ 6"

text \<open>Bits above 53 are masked away, and the highest and the lowest bit are set.\<close>

definition derive_candidate :: "Pol \<Rightarrow> Pol" where
  "derive_candidate f = (f AND (push_bit 54 1 - 1)) OR (push_bit 53 1 OR 1)"

primrec derive_loop :: "'r reader \<Rightarrow> nat \<Rightarrow> 'r \<Rightarrow> (Pol \<times> gerror option \<times> 'r) option" where
  "derive_loop rd 0 r = Some (0, Some ErrNoPolynomial, r)"
| "derive_loop rd (Suc tries) r = do {
     (f, err, r) \<leftarrow> binary_Read rd r;
     (case err of
        Some e \<Rightarrow> Some (0, Some e, r)
      | None \<Rightarrow> do {
          let f = derive_candidate f;
          irr \<leftarrow> Irreducible f;
          if irr then Some (f, None, r) else derive_loop rd tries r
        })
   }"

definition DerivePolynomial :: "'r reader \<Rightarrow> 'r \<Rightarrow> (Pol \<times> gerror option \<times> 'r) option" where
  "DerivePolynomial rd r = derive_loop rd randPolMaxTries r"

text \<open>\<open>rand.New(rand.NewSource(seed))\<close> of the standard library is a parameter: its state from a seed,
  and its \<open>Read\<close>.\<close>

definition RandomPolynomial :: "'r reader \<Rightarrow> (int \<Rightarrow> 'r) \<Rightarrow> int \<Rightarrow> (Pol \<times> gerror option \<times> 'r) option" where
  "RandomPolynomial rand_Read rand_New seed = DerivePolynomial rand_Read (rand_New seed)"

lemma Deg_eqI: "bit x k \<Longrightarrow> (\<And>i. k < i \<Longrightarrow> i < 64 \<Longrightarrow> \<not> bit (x :: Pol) i) \<Longrightarrow> Deg x = int k"
proof -
  assume x: "bit x k" and high: "\<And>i. k < i \<Longrightarrow> i < 64 \<Longrightarrow> \<not> bit x i"
  have "k < 64" using x bit_imp_le_length by fastforce
  then have "nbits (unat x) = Suc k" by (intro nbits_eqI) (use x high in \<open>auto simp: bit_unat_iff\<close>)
  then show ?thesis by (simp add: Deg_def)
qed

lemma Deg_candidate: "Deg (derive_candidate f) = 53"
proof -
  have m: "(push_bit 54 1 - 1 :: Pol) = mask 54" by (simp add: mask_eq_exp_minus_1)
  have "Deg (derive_candidate f) = int 53"
    unfolding derive_candidate_def m by (rule Deg_eqI) (simp_all add: bit_simps del: push_bit_of_1)
  then show ?thesis by simp
qed

lemma Irreducible_candidate: "Irreducible (derive_candidate f) = Some (irreducible2 (poly (derive_candidate f)))"
  by (rule Irreducible_ok) (simp add: Deg_candidate)

text \<open>Over a byte source: the next eight bytes, or the end of the stream.\<close>

definition short_read :: "byte list \<Rightarrow> gerror \<Rightarrow> gerror" where
  "short_read bs e = (if bs \<noteq> [] \<and> e = EOF then ErrUnexpectedEOF else e)"

context byte_source
begin

lemma binary_Read_ok:
  assumes ok: "ok r"
  shows "\<exists>f err r'. binary_Read rd r = Some (f, err, r') \<and> ok r' \<and> ending r' = ending r \<and>
    (if 8 \<le> length (left r)
     then f = le_value (take 8 (left r)) \<and> err = None \<and> left r' = drop 8 (left r)
     else f = 0 \<and> err = Some (short_read (left r) (ending r)) \<and> left r' = [])"
proof -
  obtain b eof err r' where y: "read_block rd r 8 [] = Some (b, eof, err, r')" "ok r'"
      "left r = b @ left r'" "length b \<le> 8" "ending r' = ending r"
      "if eof then err = None \<and> left r' = [] \<and> ending r = EOF
       else if err = None then length b = 8
       else left r' = [] \<and> err = Some (ending r) \<and> ending r \<noteq> EOF"
    using read_block_ok [OF ok, of "[]" 8] unfolding append_Nil by (metis list.size(3) zero_le)
  have full: "read_full rd r 8 [] = Some (full_result 8 (b, eof, err, r'))"
    by (rule read_full_block [OF y(1)])
  show ?thesis
  proof (cases "length b = 8")
    case True
    then show ?thesis using full y(2,3,5) by (simp add: binary_Read_def)
  next
    case False
    then have "left r' = []" and len: "length (left r) < 8" using y(3,4,6) by (auto split: if_splits)
    then show ?thesis using full y False
      by (auto simp: binary_Read_def short_read_def split: if_splits)
  qed
qed

end

text \<open>The words a search reads, and what it returns: the first irreducible candidate of the stream.\<close>

definition candidate :: "byte list \<Rightarrow> nat \<Rightarrow> Pol" where
  "candidate bs k = derive_candidate (le_value (take 8 (drop (8 * k) bs)))"

lemma candidate_drop: "candidate (drop 8 bs) k = candidate bs (Suc k)"
  by (simp add: candidate_def add.commute)

definition reducible_before :: "byte list \<Rightarrow> nat \<Rightarrow> bool" where
  "reducible_before bs n \<longleftrightarrow> (\<forall>k < n. \<not> irreducible2 (poly (candidate bs k)))"

lemma reducible_before_Suc:
  "reducible_before bs (Suc n) \<longleftrightarrow> \<not> irreducible2 (poly (candidate bs 0)) \<and> reducible_before (drop 8 bs) n"
  by (auto simp: reducible_before_def candidate_drop less_Suc_eq_0_disj)

definition derived :: "nat \<Rightarrow> byte list \<Rightarrow> gerror \<Rightarrow> Pol \<Rightarrow> gerror option \<Rightarrow> byte list \<Rightarrow> bool" where
  "derived tries bs e p err rest \<longleftrightarrow>
     (case err of
        None \<Rightarrow> \<exists>k < tries. 8 * Suc k \<le> length bs \<and> p = candidate bs k \<and> irreducible2 (poly p) \<and>
          reducible_before bs k \<and> rest = drop (8 * Suc k) bs
      | Some err \<Rightarrow> p = 0 \<and> reducible_before bs (min tries (length bs div 8)) \<and>
          err = (if 8 * tries \<le> length bs then ErrNoPolynomial
                 else short_read (drop (8 * (length bs div 8)) bs) e))"

lemma derived_step:
  assumes len: "8 \<le> length bs" and red: "\<not> irreducible2 (poly (candidate bs 0))"
    and rest: "derived tries (drop 8 bs) e p err rest"
  shows "derived (Suc tries) bs e p err rest"
proof (cases err)
  case None
  then obtain k where k: "k < tries" "8 * Suc k \<le> length (drop 8 bs)" "p = candidate (drop 8 bs) k"
      "irreducible2 (poly p)" "reducible_before (drop 8 bs) k" "rest = drop (8 * Suc k) (drop 8 bs)"
    using rest by (auto simp: derived_def)
  have "reducible_before bs (Suc k)" using k(5) red by (simp add: reducible_before_Suc)
  then show ?thesis
    using None k len unfolding derived_def by (intro option.case_eq_if [THEN iffD2]) (auto intro!: exI [of _ "Suc k"] simp: candidate_drop)
next
  case (Some e')
  have "length bs div 8 = Suc (length (drop 8 bs) div 8)" using len by (simp add: le_div_geq)
  moreover have "drop (8 * (length bs div 8)) bs = drop (8 * (length (drop 8 bs) div 8)) (drop 8 bs)"
    using calculation by (simp add: add.commute)
  ultimately show ?thesis
    using Some rest red len by (auto simp: derived_def reducible_before_Suc)
qed

context byte_source
begin

lemma derive_loop_ok:
  "ok r \<Longrightarrow> \<exists>p err r'. derive_loop rd tries r = Some (p, err, r') \<and> ok r' \<and> ending r' = ending r \<and>
     derived tries (left r) (ending r) p err (left r')"
proof (induction tries arbitrary: r)
  case 0
  then show ?case by (simp add: derived_def reducible_before_def)
next
  case (Suc tries)
  obtain f err r1 where rd1: "binary_Read rd r = Some (f, err, r1)" "ok r1" "ending r1 = ending r"
      "if 8 \<le> length (left r)
       then f = le_value (take 8 (left r)) \<and> err = None \<and> left r1 = drop 8 (left r)
       else f = 0 \<and> err = Some (short_read (left r) (ending r)) \<and> left r1 = []"
    using binary_Read_ok [OF Suc.prems] by blast
  show ?case
  proof (cases "8 \<le> length (left r)")
    case False
    then have "length (left r) div 8 = 0" by simp
    then show ?thesis
      using rd1 False by (simp add: derived_def reducible_before_def)
  next
    case True
    define c where "c = derive_candidate f"
    have c: "c = candidate (left r) 0" and err: "err = None" and left1: "left r1 = drop 8 (left r)"
      using rd1(4) True by (simp_all add: c_def candidate_def)
    have irr: "Irreducible c = Some (irreducible2 (poly c))" by (simp add: c_def Irreducible_candidate)
    show ?thesis
    proof (cases "irreducible2 (poly c)")
      case irr_c: True
      then have "derive_loop rd (Suc tries) r = Some (c, None, r1)"
        using rd1(1) err irr by (simp add: c_def [symmetric])
      moreover have "derived (Suc tries) (left r) (ending r) c None (left r1)"
        using irr_c True left1 c unfolding derived_def
        by (simp only: option.case) (rule exI [of _ 0], simp add: reducible_before_def)
      ultimately show ?thesis using rd1(2,3) by blast
    next
      case False
      obtain p e r' where ih: "derive_loop rd tries r1 = Some (p, e, r')" "ok r'" "ending r' = ending r1"
          "derived tries (left r1) (ending r1) p e (left r')"
        using Suc.IH [OF rd1(2)] by blast
      have "derive_loop rd (Suc tries) r = Some (p, e, r')"
        using rd1(1) err irr False ih(1) by (simp add: c_def [symmetric])
      moreover have "derived (Suc tries) (left r) (ending r) p e (left r')"
        using derived_step [OF True] False ih(4) unfolding rd1(3) left1 c by blast
      ultimately show ?thesis using ih(2,3) rd1(3) by metis
    qed
  qed
qed

end

text \<open>A source that always fills the buffer, like \<open>rand.Rand\<close>.\<close>

definition fills :: "'r reader \<Rightarrow> bool" where
  "fills rd \<longleftrightarrow> (\<forall>r n. \<exists>got r'. rd r n = (got, None, r') \<and> length got = n)"

lemma fills_binary_Read: "fills rd \<Longrightarrow> \<exists>f r'. binary_Read rd r = Some (f, None, r')"
proof -
  assume "fills rd"
  then obtain got r' where "rd r 8 = (got, None, r')" "length got = 8" unfolding fills_def by blast
  then have "read_full rd r 8 [] = Some (got, None, r')"
    by (subst read_full.simps, simp) (subst read_full.simps, simp)
  then show ?thesis by (simp add: binary_Read_def)
qed

lemma fills_derive_loop:
  assumes "fills rd"
  shows "\<exists>p err r'. derive_loop rd tries r = Some (p, err, r') \<and>
    (case err of None \<Rightarrow> Deg p = 53 \<and> irreducible2 (poly p) | Some e \<Rightarrow> e = ErrNoPolynomial \<and> p = 0)"
proof (induction tries arbitrary: r)
  case (Suc tries)
  obtain f r1 where rd1: "binary_Read rd r = Some (f, None, r1)" using fills_binary_Read [OF assms] by blast
  show ?case
  proof (cases "irreducible2 (poly (derive_candidate f))")
    case True
    then show ?thesis using rd1 Irreducible_candidate [of f] Deg_candidate [of f] by simp
  next
    case False
    then show ?thesis using rd1 Irreducible_candidate [of f] Suc.IH [of r1] by simp
  qed
qed simp

section \<open>Properties\<close>

text \<open>C33: \<open>DerivePolynomial\<close> returns over every reader that keeps the contract of \<open>io.Reader\<close> for a stream that
  ends, however it cuts the stream into reads. Without an error it returns an irreducible polynomial of
  degree 53: the candidate made from the first eight bytes of the stream whose candidate is irreducible,
  leaving the reader right after them. With an error it returns 0, no complete group of eight bytes within
  the first million gave an irreducible candidate, and the error is \<open>ErrNoPolynomial\<close> if a million groups
  were there, \<open>io.ErrUnexpectedEOF\<close> if the stream ended with EOF within a group, and the error of the
  reader otherwise.\<close>

theorem DerivePolynomial_first:
  assumes "byte_source rd ok left ending rank" and "ok r"
  shows "\<exists>p err r'. DerivePolynomial rd r = Some (p, err, r') \<and> ok r' \<and>
     derived (10 ^ 6) (left r) (ending r) p err (left r') \<and>
     (case err of None \<Rightarrow> Deg p = 53 \<and> irreducible2 (poly p) | Some _ \<Rightarrow> p = 0)"
proof -
  obtain p err r' where r: "derive_loop rd (10 ^ 6) r = Some (p, err, r')" "ok r'"
      "derived (10 ^ 6) (left r) (ending r) p err (left r')"
    using byte_source.derive_loop_ok [OF assms, of "10 ^ 6"] by blast
  have "case err of None \<Rightarrow> Deg p = 53 \<and> irreducible2 (poly p) | Some _ \<Rightarrow> p = 0"
    using r(3) by (auto simp: derived_def candidate_def Deg_candidate split: option.splits)
  then show ?thesis using r by (simp add: DerivePolynomial_def randPolMaxTries_def)
qed

text \<open>Thirteen bytes that come in reads of at most three: if the first eight give no irreducible candidate, the
  stream ends within the second group.\<close>

theorem DerivePolynomial_first_witness:
  "\<exists>p err r'. DerivePolynomial cycleReader_Read \<lparr>cy_data = [1, 2, 3], cy_pos = 0, cy_remaining = 13\<rparr> = Some (p, err, r') \<and>
     (case err of None \<Rightarrow> p = derive_candidate (le_value [1, 2, 3, 1, 2, 3, 1, 2]) \<and> irreducible2 (poly p)
      | Some e \<Rightarrow> p = 0 \<and> e = ErrUnexpectedEOF)"
proof -
  define r where "r = \<lparr>cy_data = [1, 2, 3 :: byte], cy_pos = 0, cy_remaining = 13\<rparr>"
  have left: "cycle_left r = [1, 2, 3, 1, 2, 3, 1, 2, 3, 1, 2, 3, 1]"
    by (simp add: r_def cycle_left_def numeral_eq_Suc)
  have "cy_data r \<noteq> []" by (simp add: r_def)
  then obtain p err r' where p: "DerivePolynomial cycleReader_Read r = Some (p, err, r')"
      "derived (10 ^ 6) (cycle_left r) EOF p err (cycle_left r')"
    using DerivePolynomial_first [OF cycle.byte_source_axioms, of r] by blast
  have "case err of None \<Rightarrow> p = derive_candidate (le_value [1, 2, 3, 1, 2, 3, 1, 2]) \<and> irreducible2 (poly p)
      | Some e \<Rightarrow> p = 0 \<and> e = ErrUnexpectedEOF"
  proof (cases err)
    case None
    then obtain k where "8 * Suc k \<le> 13" "p = candidate (cycle_left r) k" "irreducible2 (poly p)"
      using p(2) by (auto simp: derived_def left)
    moreover from this have "k = 0" by simp
    ultimately show ?thesis using None by (simp add: candidate_def left)
  next
    case (Some e)
    then show ?thesis using p(2) by (simp add: derived_def left short_read_def)
  qed
  then show ?thesis using p(1) unfolding r_def by blast
qed

end
