(* ===== verification/Rabinkarp64.thy ===== *)
theory Rabinkarp64
  imports Rolling Derive_Poly
begin

text \<open>
  rabinkarp64/rabinkarp64.go: the Rabin fingerprint of the window, the polynomial of its bytes
  modulo a polynomial over GF(2), rolled with two tables. The tables are cached in a global map; the
  cache is an argument and a result of the operations that use it, and the hash the streaming code
  sees is the digest together with the cache. The random source of \<open>New\<close> is a parameter.
\<close>

section \<open>The tables\<close>

record tables =
  t_out :: "Pol byte_table"
  t_mod :: "Pol byte_table"

text \<open>\<open>h <<= 8; h |= Pol(b); h = h.Mod(pol)\<close>\<close>

definition shift_in :: "Pol \<Rightarrow> Pol \<Rightarrow> byte \<Rightarrow> Pol option" where
  "shift_in pol h b = pol_Mod (push_bit 8 h OR ucast b) pol"

primrec shift_zeros :: "nat \<Rightarrow> Pol \<Rightarrow> Pol \<Rightarrow> Pol option" where
  "shift_zeros 0 pol h = Some h"
| "shift_zeros (Suc n) pol h = do { h \<leftarrow> shift_in pol h 0; shift_zeros n pol h }"

definition out_entry :: "Pol \<Rightarrow> nat \<Rightarrow> byte \<Rightarrow> Pol option" where
  "out_entry pol windowsize b = do { h \<leftarrow> shift_in pol 0 b; shift_zeros (windowsize - 1) pol h }"

definition mod_entry :: "Pol \<Rightarrow> byte \<Rightarrow> Pol option" where
  "mod_entry pol b =
     (let k = nat (Deg pol) in do {
        r \<leftarrow> pol_Mod (push_bit k (ucast b)) pol;
        Some (r OR push_bit k (ucast b))
      })"

text \<open>\<open>for b := range 256 { t[b] = ... }\<close>\<close>

definition fill_table :: "(byte \<Rightarrow> Pol option) \<Rightarrow> Pol byte_table option" where
  "fill_table entry = do {
     ts \<leftarrow> those (map (\<lambda>b. entry (word_of_nat b)) [0..<256]);
     Some (\<lambda>b. ts ! unat b)
   }"

definition buildTables :: "Pol \<Rightarrow> nat \<Rightarrow> tables option" where
  "buildTables pol windowsize = do {
     out \<leftarrow> fill_table (out_entry pol windowsize);
     md \<leftarrow> fill_table (mod_entry pol);
     Some \<lparr>t_out = out, t_mod = md\<rparr>
   }"

text \<open>The cache, keyed by polynomial and window size. \<open>tablesFor\<close> is one caller alone; the section on
  concurrent callers splits it at its locks.\<close>

type_synonym rk_cache = "Pol \<times> nat \<rightharpoonup> tables"

definition tablesFor :: "rk_cache \<Rightarrow> Pol \<Rightarrow> nat \<Rightarrow> (tables \<times> rk_cache) option" where
  "tablesFor cache pol windowsize =
     (case cache (pol, windowsize) of
        Some t \<Rightarrow> Some (t, cache)
      | None \<Rightarrow> do {
          t \<leftarrow> buildTables pol windowsize;
          Some (t, cache((pol, windowsize) \<mapsto> t))
        })"

section \<open>The digest\<close>

record rabinkarp64 =
  rk_pol :: Pol
  rk_tables :: "tables option"
  rk_polShift :: u64
  rk_value :: Pol
  rk_window :: "byte list"
  rk_oldest :: nat

definition updateTables :: "rk_cache \<Rightarrow> rabinkarp64 \<Rightarrow> (rabinkarp64 \<times> rk_cache) option" where
  "updateTables cache d = do {
     (t, cache) \<leftarrow> tablesFor cache (rk_pol d) (length (rk_window d));
     Some (d\<lparr>rk_tables := Some t\<rparr>, cache)
   }"

definition rabinkarp64_NewFromPol :: "rk_cache \<Rightarrow> Pol \<Rightarrow> (rabinkarp64 \<times> rk_cache) option" where
  "rabinkarp64_NewFromPol cache p =
     updateTables cache \<lparr>rk_pol = p, rk_tables = None, rk_polShift = word_of_int (Deg p - 8), rk_value = 0,
       rk_window = [], rk_oldest = 0\<rparr>"

definition rabinkarp64_New :: "'r reader \<Rightarrow> (int \<Rightarrow> 'r) \<Rightarrow> rk_cache \<Rightarrow> (rabinkarp64 \<times> rk_cache) option" where
  "rabinkarp64_New rand_Read rand_New cache = do {
     (p, err, r) \<leftarrow> RandomPolynomial rand_Read rand_New 1;
     if err \<noteq> None then None else rabinkarp64_NewFromPol cache p
   }"

definition rabinkarp64_Reset :: "rk_cache \<Rightarrow> rabinkarp64 \<Rightarrow> (rabinkarp64 \<times> rk_cache) option" where
  "rabinkarp64_Reset cache d =
     updateTables cache (d\<lparr>rk_tables := None, rk_value := 0, rk_window := [], rk_oldest := 0\<rparr>)"

text \<open>\<open>for _, b := range d.window { value <<= 8; value |= Pol(b); value = value.Mod(pol) }\<close>\<close>

primrec shift_in_all :: "Pol \<Rightarrow> byte list \<Rightarrow> Pol \<Rightarrow> Pol option" where
  "shift_in_all pol [] v = Some v"
| "shift_in_all pol (b # bs) v = do { v \<leftarrow> shift_in pol v b; shift_in_all pol bs v }"

definition rabinkarp64_Write :: "rk_cache \<Rightarrow> rabinkarp64 \<Rightarrow> byte list \<Rightarrow> (rabinkarp64 \<times> rk_cache) option" where
  "rabinkarp64_Write cache d data =
     (if length data = 0 then Some (d, cache)
      else do {
        window \<leftarrow> (if rk_oldest d \<noteq> 0 then MoveLeft (rk_window d) (rk_oldest d) else Some (rk_window d));
        let window = window @ data;
        v \<leftarrow> shift_in_all (rk_pol d) window 0;
        updateTables cache (d\<lparr>rk_window := window, rk_oldest := 0, rk_value := v\<rparr>)
      })"

definition rabinkarp64_Sum64 :: "rabinkarp64 \<Rightarrow> u64" where
  "rabinkarp64_Sum64 d = rk_value d"

definition rabinkarp64_Sum :: "rabinkarp64 \<Rightarrow> byte list \<Rightarrow> byte list" where
  "rabinkarp64_Sum d b =
     (let v = rabinkarp64_Sum64 d in
      b @ [ucast (drop_bit 56 v), ucast (drop_bit 48 v), ucast (drop_bit 40 v), ucast (drop_bit 32 v),
          ucast (drop_bit 24 v), ucast (drop_bit 16 v), ucast (drop_bit 8 v), ucast v])"

definition rabinkarp64_Size :: "rabinkarp64 \<Rightarrow> int" where
  "rabinkarp64_Size d = 8"

definition rabinkarp64_BlockSize :: "rabinkarp64 \<Rightarrow> int" where
  "rabinkarp64_BlockSize d = 1"

lemma rabinkarp64_Sum_bytes: "rabinkarp64_Sum d b = b @ be_bytes (rabinkarp64_Size d) (rabinkarp64_Sum64 d)"
  by (simp add: rabinkarp64_Sum_def rabinkarp64_Size_def be_bytes_64 Let_def)

text \<open>\<open>v ^= t.out[leave]; v = (v<<8 | Pol(enter)) ^ t.mod[byte(v>>shift)]\<close>\<close>

definition rk_step :: "tables \<Rightarrow> nat \<Rightarrow> Pol \<Rightarrow> byte \<Rightarrow> byte \<Rightarrow> Pol" where
  "rk_step t shift v leave enter =
     (let v = v XOR t_out t leave in (push_bit 8 v OR ucast enter) XOR t_mod t (ucast (drop_bit shift v)))"

definition rk_shift :: "rabinkarp64 \<Rightarrow> nat" where
  "rk_shift d = unat (rk_polShift d AND 63)"

definition rabinkarp64_Roll :: "rabinkarp64 \<Rightarrow> byte \<Rightarrow> rabinkarp64 option" where
  "rabinkarp64_Roll d c = do {
     leave \<leftarrow> idx (rk_window d) (rk_oldest d);
     let window = (rk_window d)[rk_oldest d := c];
     let oldest = rk_oldest d + 1;
     let oldest = (if length window \<le> oldest then 0 else oldest);
     t \<leftarrow> rk_tables d;
     Some (d\<lparr>rk_window := window, rk_oldest := oldest, rk_value := rk_step t (rk_shift d) (rk_value d) leave c\<rparr>)
   }"

definition rabinkarp64_WriteWindow ::
    "'w writer \<Rightarrow> 'w \<Rightarrow> rabinkarp64 \<Rightarrow> (int \<times> gerror option \<times> 'w) option" where
  "rabinkarp64_WriteWindow wr w d = window_Write wr w (rk_window d) (rk_oldest d)"

text \<open>The warm-up of a lane: \<open>for j := range window { v = (v<<8 | Pol(data[off+j])).Mod(pol) }\<close>\<close>

primrec rk_warm :: "Pol \<Rightarrow> byte list \<Rightarrow> nat \<Rightarrow> nat list \<Rightarrow> Pol \<Rightarrow> Pol option" where
  "rk_warm pol data off [] v = Some v"
| "rk_warm pol data off (j # js) v = do {
     c \<leftarrow> idx data (off + j);
     v \<leftarrow> shift_in pol v c;
     rk_warm pol data off js v
   }"

definition rk_lane :: "tables \<Rightarrow> nat \<Rightarrow> byte list \<Rightarrow> nat \<Rightarrow> Pol lane" where
  "rk_lane t shift data w =
     \<lparr>ln_step = rk_step t shift, ln_out = (\<lambda>v. v), ln_leave = idx data, ln_enter = (\<lambda>i. idx data (i + w))\<rparr>"

definition rabinkarp64_BatchRoll ::
    "rk_cache \<Rightarrow> rabinkarp64 \<Rightarrow> u64 list \<Rightarrow> byte list \<Rightarrow> int \<Rightarrow> (u64 list \<times> rk_cache) option" where
  "rabinkarp64_BatchRoll cache d dst data window =
     (if window \<le> 0 \<or> int (length data) < window then Some (dst, cache)
      else
        let w = nat window; n = length data - w in do {
          (t, cache) \<leftarrow> tablesFor cache (rk_pol d) w;
          dst \<leftarrow> roll_lanes (rk_lane t (rk_shift d) data w)
            (\<lambda>off. rk_warm (rk_pol d) data off [0..<w] 0) n dst;
          Some (dst, cache)
        })"

definition rabinkarp64_BatchBoundaries :: "rk_cache \<Rightarrow> rabinkarp64 \<Rightarrow> i32 list \<Rightarrow> i32 list \<Rightarrow> byte list \<Rightarrow>
    int \<Rightarrow> u64 \<Rightarrow> ((i32 list \<times> i32 list \<times> nat \<times> nat) \<times> rk_cache) option" where
  "rabinkarp64_BatchBoundaries cache d a b data window msk =
     (if window \<le> 0 \<or> int (length data) < window then Some ((a, b, 0, 0), cache)
      else
        let w = nat window; n = length data - w in do {
          (t, cache) \<leftarrow> tablesFor cache (rk_pol d) w;
          hits \<leftarrow> hit_lanes (rk_lane t (rk_shift d) data w)
            (\<lambda>off. rk_warm (rk_pol d) data off [0..<w] 0) n msk a b;
          Some (hits, cache)
        })"

text \<open>The hash as the streaming code uses it, with the cache it runs over. What the batch operations add
  to the cache is only a shorter way to the same tables, so their cache is dropped.\<close>

definition rabinkarp64_iface :: "(rabinkarp64 \<times> rk_cache) hash_iface" where
  "rabinkarp64_iface =
     \<lparr>h_Reset = (\<lambda>(d, cache). rabinkarp64_Reset cache d),
      h_Write = (\<lambda>(d, cache) data. rabinkarp64_Write cache d data),
      h_Roll = (\<lambda>(d, cache) c. do { d \<leftarrow> rabinkarp64_Roll d c; Some (d, cache) }),
      h_Sum = (\<lambda>(d, cache). rabinkarp64_Sum d),
      h_Size = (\<lambda>(d, cache). rabinkarp64_Size d),
      h_BlockSize = (\<lambda>(d, cache). rabinkarp64_BlockSize d),
      h_Sum32 = None,
      h_Sum64 = Some (\<lambda>(d, cache). rabinkarp64_Sum64 d),
      h_BatchRoll = Some (\<lambda>(d, cache) dst data w. do { (dst, _) \<leftarrow> rabinkarp64_BatchRoll cache d dst data w; Some dst }),
      h_BatchBoundaries = Some (\<lambda>(d, cache) a b data w msk. do {
        (hits, _) \<leftarrow> rabinkarp64_BatchBoundaries cache d a b data w msk; Some hits })\<rparr>"

section \<open>The fingerprint of a window\<close>

text \<open>The polynomial whose coefficients are the bits of the bytes, and its remainder. The rolling
  identities hold for a modulus of degree 8 to 56: below, the tables cannot cancel a whole byte, and
  above, a shift by eight bits leaves the word.\<close>

definition bytes_poly :: "byte list \<Rightarrow> gf2" where
  "bytes_poly xs = foldl (\<lambda>v c. v * Xpow 8 + poly (ucast c)) 0 xs"

definition rk_hash :: "Pol \<Rightarrow> byte list \<Rightarrow> Pol" where
  "rk_hash pol xs = word_of_nat (coeffs (bytes_poly xs mod poly pol))"

definition good_pol :: "Pol \<Rightarrow> bool" where
  "good_pol p \<longleftrightarrow> 8 \<le> Deg p \<and> Deg p \<le> 56"

lemma bytes_poly_Nil [simp]: "bytes_poly [] = 0"
  by (simp add: bytes_poly_def)

lemma bytes_poly_snoc [simp]: "bytes_poly (xs @ [c]) = bytes_poly xs * Xpow 8 + poly (ucast c)"
  by (simp add: bytes_poly_def)

lemma Xpow_add: "Xpow (i + j) = Xpow i * Xpow j"
  by (metis Xpow_power power_add)

lemma bytes_poly_append: "bytes_poly (xs @ ys) = bytes_poly xs * Xpow (8 * length ys) + bytes_poly ys"
proof (induction ys rule: rev_induct)
  case (snoc y ys)
  have "bytes_poly (xs @ ys @ [y]) = bytes_poly (xs @ ys) * Xpow 8 + poly (ucast y)"
    by (metis append_assoc bytes_poly_snoc)
  moreover have "Xpow (8 * length (ys @ [y])) = Xpow (8 * length ys) * Xpow 8"
    unfolding Xpow_add [symmetric] by (simp add: add.commute)
  ultimately show ?case unfolding snoc bytes_poly_snoc by (simp only: algebra_simps)
qed simp

lemma bytes_poly_Cons: "bytes_poly (x # xs) = poly (ucast x) * Xpow (8 * length xs) + bytes_poly xs"
  using bytes_poly_append [of "[x]" xs] bytes_poly_snoc [of "[]" x] by simp

lemma bytes_poly_zeros: "bytes_poly (x # replicate n 0) = poly (ucast x) * Xpow (8 * n)"
proof -
  have "bytes_poly (replicate n 0) = 0" by (induction n) (simp_all add: bytes_poly_Cons)
  then show ?thesis by (simp add: bytes_poly_Cons)
qed

lemma good_pol_size: "good_pol p \<Longrightarrow> 9 \<le> size2 (poly p) \<and> size2 (poly p) \<le> 57"
  by (simp add: good_pol_def Deg_size)

lemma good_pol_nz: "good_pol p \<Longrightarrow> p \<noteq> 0"
  using good_pol_size by fastforce

lemma size2_mod_good: "good_pol p \<Longrightarrow> size2 (a mod poly p) \<le> 56"
  using good_pol_size [of p] size2_mod_less [of "poly p" a] good_pol_nz [of p] by simp

lemma poly_rk_hash: "good_pol p \<Longrightarrow> poly (rk_hash p xs) = bytes_poly xs mod poly p"
proof -
  assume g: "good_pol p"
  obtain v where v: "poly v = bytes_poly xs mod poly p"
    using polyI [of "bytes_poly xs mod poly p"] size2_mod_good [OF g, of "bytes_poly xs"] by auto
  have "rk_hash p xs = v" by (simp add: rk_hash_def v [symmetric])
  then show ?thesis using v by simp
qed

lemma rk_hashI: "good_pol p \<Longrightarrow> poly v = bytes_poly xs mod poly p \<Longrightarrow> v = rk_hash p xs"
  using poly_rk_hash by (metis poly_eq_iff)

lemma rk_hash_Nil [simp]: "rk_hash p [] = 0"
  by (simp add: rk_hash_def zero_gf2.rep_eq)

lemma size2_byte: "size2 (poly (ucast (c :: byte))) \<le> 8"
proof -
  have "unat (ucast c :: Pol) = unat c" by (simp add: unsigned_ucast_eq take_bit_nat_eq_self order_less_trans [OF unsigned_less])
  then show ?thesis using unsigned_less [of c] by (simp add: size2.rep_eq nbits_le_iff)
qed

text \<open>Shifting a byte into a word of at most 56 bits.\<close>

lemma poly_shift_or:
  assumes "size2 (poly h) \<le> 56"
  shows "poly (push_bit 8 h OR ucast (b :: byte)) = poly h * Xpow 8 + poly (ucast b)"
proof -
  have low: "\<not> bit (ucast b :: Pol) i" if "8 \<le> i" for i
    using that by (simp add: bit_simps)  (use bit_imp_le_length [of b i] in auto)
  have "push_bit 8 h OR ucast b = push_bit 8 h XOR (ucast b :: Pol)"
    by (rule bit_word_eqI) (use low in \<open>auto simp: bit_simps\<close>)
  then have "poly (push_bit 8 h OR ucast b) = poly (push_bit 8 h) + poly (ucast b)"
    using poly_Add [of "push_bit 8 h" "ucast b"] by (simp add: pol_Add_def)
  then show ?thesis using poly_push [of h 8] assms by simp
qed

lemma shift_in_hash:
  assumes g: "good_pol p"
  shows "shift_in p (rk_hash p xs) b = Some (rk_hash p (xs @ [b]))"
proof -
  let ?h = "rk_hash p xs"
  have "size2 (poly ?h) \<le> 56" unfolding poly_rk_hash [OF g] by (rule size2_mod_good [OF g])
  then have sh: "poly (push_bit 8 ?h OR ucast b) = poly ?h * Xpow 8 + poly (ucast b)" by (rule poly_shift_or)
  obtain r where r: "pol_Mod (push_bit 8 ?h OR ucast b) p = Some r" "poly r = poly (push_bit 8 ?h OR ucast b) mod poly p"
    using pol_Mod_ok [OF good_pol_nz [OF g]] by blast
  have "poly r = bytes_poly (xs @ [b]) mod poly p"
    unfolding r(2) sh poly_rk_hash [OF g] bytes_poly_snoc
    by (metis mod_add_left_eq mod_mult_left_eq)
  then show ?thesis using r(1) rk_hashI [OF g] by (simp add: shift_in_def)
qed

lemma shift_in_all_hash:
  "good_pol p \<Longrightarrow> shift_in_all p ys (rk_hash p xs) = Some (rk_hash p (xs @ ys))"
  by (induction ys arbitrary: xs) (simp_all add: shift_in_hash)

lemma shift_in_all_window: "good_pol p \<Longrightarrow> shift_in_all p ys 0 = Some (rk_hash p ys)"
  using shift_in_all_hash [of p ys "[]"] by simp

lemma shift_zeros_all: "shift_zeros n p h = shift_in_all p (replicate n 0) h"
  by (induction n arbitrary: h) simp_all

lemma rk_warm_all:
  "\<forall>j \<in> set js. off + j < length data \<Longrightarrow>
   rk_warm p data off js v = shift_in_all p (map (\<lambda>j. data ! (off + j)) js) v"
  by (induction js arbitrary: v) (simp_all add: idx_in)

lemma rk_warm_window:
  assumes g: "good_pol p" and len: "off + w \<le> length data"
  shows "rk_warm p data off [0..<w] 0 = Some (rk_hash p (window_at w data off))"
proof -
  have "map (\<lambda>j. data ! (off + j)) [0..<w] = window_at w data off"
    by (rule nth_equalityI) (use len in \<open>simp_all add: window_at_def\<close>)
  then show ?thesis using rk_warm_all [of "[0..<w]" off data p 0] len shift_in_all_window [OF g] by simp
qed

section \<open>The tables hold what their comment says\<close>

lemma fill_table_all:
  assumes "\<And>b. entry b = Some (f b)"
  shows "fill_table entry = Some f"
proof -
  have "those (map (\<lambda>b. entry (word_of_nat b)) xs) = Some (map (\<lambda>b. f (word_of_nat b)) xs)" for xs :: "nat list"
    by (induction xs) (simp_all add: assms)
  moreover have "(map (\<lambda>b. f (word_of_nat b)) [0..<256]) ! unat b = f b" for b :: byte
  proof -
    have "unat b < 256" using unsigned_less [of b, where 'a = nat] by simp
    then show ?thesis by simp
  qed
  ultimately show ?thesis by (simp add: fill_table_def)
qed

definition good_tables :: "Pol \<Rightarrow> nat \<Rightarrow> tables \<Rightarrow> bool" where
  "good_tables p w t \<longleftrightarrow>
     (\<forall>b. t_out t b = rk_hash p (b # replicate (w - 1) 0)) \<and>
     (\<forall>b. poly (t_mod t b) = (poly (ucast b) * Xpow (nat (Deg p))) mod poly p + poly (ucast b) * Xpow (nat (Deg p)))"

lemma out_entry_ok: "good_pol p \<Longrightarrow> out_entry p w b = Some (rk_hash p (b # replicate (w - 1) 0))"
  using shift_in_hash [of p "[]" b] shift_in_all_hash [of p "replicate (w - 1) 0" "[b]"]
  by (simp add: out_entry_def shift_zeros_all)

lemma mod_entry_ok:
  assumes g: "good_pol p"
  shows "\<exists>m. mod_entry p b = Some m \<and>
    poly m = (poly (ucast b) * Xpow (nat (Deg p))) mod poly p + poly (ucast b) * Xpow (nat (Deg p))"
proof -
  define k where "k = nat (Deg p)"
  define B where "B = push_bit k (ucast b :: Pol)"
  have k: "8 \<le> k" "k \<le> 56" "size2 (poly p) = Suc k" using g by (auto simp: good_pol_def k_def Deg_size)
  have B: "poly B = poly (ucast b) * Xpow k"
    unfolding B_def using size2_byte [of b] k(2) by (intro poly_push) simp
  obtain r where r: "pol_Mod B p = Some r" "poly r = poly B mod poly p"
    using pol_Mod_ok [OF good_pol_nz [OF g]] by blast
  have "size2 (poly r) \<le> k" using size2_mod_less [of "poly p" "poly B"] good_pol_nz [OF g] r(2) k(3) by simp
  then have high: "\<not> bit r i" if "k \<le> i" "i < 64" for i
    using that nbits_high [of "unat r" i] by (simp add: size2.rep_eq bit_unat_iff)
  have "r OR B = r XOR B"
    by (rule bit_word_eqI) (use high in \<open>auto simp: B_def bit_simps\<close>)
  then have "poly (r OR B) = poly r + poly B" using poly_Add [of r B] by (simp add: pol_Add_def)
  moreover have "mod_entry p b = Some (r OR B)"
    using r(1) by (simp add: mod_entry_def k_def [symmetric] B_def [symmetric])
  ultimately show ?thesis unfolding r(2) B k_def [symmetric] by blast
qed

lemma buildTables_ok: "good_pol p \<Longrightarrow> \<exists>t. buildTables p w = Some t \<and> good_tables p w t"
proof -
  assume g: "good_pol p"
  have "\<forall>b. \<exists>m. mod_entry p b = Some m \<and>
    poly m = (poly (ucast b) * Xpow (nat (Deg p))) mod poly p + poly (ucast b) * Xpow (nat (Deg p))"
    using mod_entry_ok [OF g] by blast
  then obtain f where f: "\<And>b. mod_entry p b = Some (f b)"
    "\<And>b. poly (f b) = (poly (ucast b) * Xpow (nat (Deg p))) mod poly p + poly (ucast b) * Xpow (nat (Deg p))"
    by (metis (no_types, lifting))
  show ?thesis
    using fill_table_all [of "out_entry p w", OF out_entry_ok [OF g]] fill_table_all [of "mod_entry p" f, OF f(1)] f(2)
    by (simp add: buildTables_def good_tables_def)
qed

section \<open>The cache is transparent\<close>

definition cache_ok :: "rk_cache \<Rightarrow> bool" where
  "cache_ok cache \<longleftrightarrow> (\<forall>p w t. cache (p, w) = Some t \<longrightarrow> buildTables p w = Some t)"

lemma cache_ok_empty [simp]: "cache_ok Map.empty"
  by (simp add: cache_ok_def)

lemma tablesFor_ok:
  "cache_ok cache \<Longrightarrow> buildTables p w = Some t \<Longrightarrow>
   \<exists>cache'. tablesFor cache p w = Some (t, cache') \<and> cache_ok cache'"
  by (cases "cache (p, w)") (auto simp: tablesFor_def cache_ok_def)

section \<open>Rolling\<close>

lemma gf2_two [simp]: "(2 :: gf2) = 0"
  by (metis gf2_add_self one_add_one)

lemma mod_add_gf2: "a mod p + b mod p = (a + b) mod (p :: gf2)"
proof (cases "p = 0")
  case False
  have "size2 (a mod p + b mod p) < size2 p" by (intro size2_add_less size2_mod_less False)
  then have "a mod p + b mod p = (a mod p + b mod p) mod p" by (simp add: gf2_mod_small)
  then show ?thesis by (simp only: mod_add_eq)
qed (simp add: gf2_mod_by_0)

lemma poly_drop_take:
  "poly v = poly (drop_bit m v) * Xpow m + poly (take_bit m v)"
proof -
  have "unat v = push_bit m (unat (drop_bit m v)) XOR unat (take_bit m v)"
    by (rule bit_eqI) (auto simp: bit_xor_iff bit_push_bit_iff bit_unat_iff bit_drop_bit_eq bit_take_bit_iff dest: bit_imp_le_length)
  then show ?thesis
    by (simp add: coeffs_inject [symmetric] plus_gf2.rep_eq coeffs_times_Xpow)
qed

lemma size2_take: "size2 (poly (take_bit m v)) \<le> m"
  by (simp add: size2.rep_eq nbits_le_iff unsigned_take_bit_eq)

lemma rk_step_hash:
  assumes g: "good_pol p" and t: "good_tables p (Suc (length xs)) t" and sh: "shift = nat (Deg p) - 8"
  shows "rk_step t shift (rk_hash p (x # xs)) x y = rk_hash p (xs @ [y])"
proof -
  define k where "k = nat (Deg p)"
  define u where "u = rk_hash p (x # xs) XOR t_out t x"
  define i where "i = (ucast (drop_bit shift u) :: byte)"
  have k: "8 \<le> k" "k \<le> 56" "size2 (poly p) = Suc k" "shift + 8 = k"
    using g sh by (auto simp: good_pol_def k_def Deg_size)
  have u: "poly u = bytes_poly xs mod poly p"
  proof -
    have "poly u = poly (rk_hash p (x # xs)) + poly (rk_hash p (x # replicate (length xs) 0))"
      using t poly_Add [of "rk_hash p (x # xs)" "t_out t x"] by (simp add: u_def good_tables_def pol_Add_def)
    also have "\<dots> = (bytes_poly (x # xs) mod poly p + bytes_poly (x # replicate (length xs) 0) mod poly p)"
      by (simp only: poly_rk_hash [OF g])
    also have "\<dots> = (bytes_poly (x # xs) + bytes_poly (x # replicate (length xs) 0)) mod poly p"
      by (rule mod_add_gf2)
    also have "bytes_poly (x # xs) + bytes_poly (x # replicate (length xs) 0) = bytes_poly xs"
    proof -
      have "(c + b) + c = b" for b c :: gf2 by (metis add.commute add.left_commute add_0_right gf2_add_self)
      then show ?thesis unfolding bytes_poly_Cons [of x xs] bytes_poly_zeros .
    qed
    finally show ?thesis .
  qed
  have su: "size2 (poly u) \<le> k" unfolding u
    using size2_mod_less [of "poly p" "bytes_poly xs"] good_pol_nz [OF g] k(3) by simp
  then have su56: "size2 (poly u) \<le> 56" using k(2) by simp
  have i: "ucast i = drop_bit shift u"
  proof -
    have "nbits (unat u) \<le> shift + 8" using su k(4) by (simp add: size2.rep_eq)
    then have high: "\<not> bit u j" if "shift + 8 \<le> j" for j
      using that nbits_high [of "unat u" j] bit_imp_le_length [of u j] by (auto simp: bit_unat_iff)
    have low: "n < 8" if "bit u (shift + n)" for n
      using that high [of "shift + n"] by (cases "n < 8") simp_all
    show ?thesis unfolding i_def by (intro bit_word_eqI) (auto simp: bit_simps dest: low)
  qed
  let ?A = "(poly (ucast i) * Xpow k) mod poly p"
  define r where "r = rk_step t shift (rk_hash p (x # xs)) x y"
  have "poly r = (poly u * Xpow 8 + poly (ucast y)) + (?A + poly (ucast i) * Xpow k)"
  proof -
    have "r = pol_Add (push_bit 8 u OR ucast y) (t_mod t i)"
      by (simp add: r_def rk_step_def u_def i_def pol_Add_def Let_def)
    then show ?thesis using t by (simp add: poly_shift_or [OF su56] good_tables_def k_def)
  qed
  moreover have split: "poly u * Xpow 8 = poly (ucast i) * Xpow k + poly (take_bit shift u) * Xpow 8"
    using poly_drop_take [of u shift] unfolding i k(4) [symmetric] Xpow_add by (simp add: algebra_simps)
  ultimately have r: "poly r = poly (take_bit shift u) * Xpow 8 + poly (ucast y) + ?A"
    by (simp add: algebra_simps add.left_commute [of _ "poly (take_bit shift u) * Xpow 8"])
  have "size2 (poly r) \<le> k"
  proof -
    have "size2 (poly (take_bit shift u) * Xpow 8) \<le> k"
      using size2_take [of shift u] k(4) by (cases "take_bit shift u = 0") (simp_all add: size2_times_Xpow)
    moreover have "size2 (poly (ucast y)) \<le> k" using size2_byte [of y] k(1) by simp
    moreover have "size2 ?A \<le> k" using size2_mod_less [of "poly p"] good_pol_nz [OF g] k(3) by (metis less_Suc_eq_le poly_0_iff)
    ultimately show ?thesis unfolding r by (intro size2_add_le)
  qed
  then have "poly r = poly r mod poly p" using k(3) by (intro gf2_mod_small [symmetric]) simp
  also have "\<dots> = (poly (take_bit shift u) * Xpow 8 + poly (ucast y) + poly (ucast i) * Xpow k) mod poly p"
    unfolding r by (simp add: mod_add_right_eq)
  also have "\<dots> = (poly u * Xpow 8 + poly (ucast y)) mod poly p"
    unfolding split by (simp add: ac_simps)
  also have "\<dots> = bytes_poly (xs @ [y]) mod poly p"
    unfolding u bytes_poly_snoc by (metis mod_add_left_eq mod_mult_left_eq)
  finally have "r = rk_hash p (xs @ [y])" by (rule rk_hashI [OF g])
  then show ?thesis by (simp only: r_def)
qed

section \<open>The digest is a rolling hash of its window\<close>

text \<open>The instance of \<open>rolling_hash\<close> for one polynomial: what the tables and the remainder compute
  there, as total functions.\<close>

definition rk_absorb :: "Pol \<Rightarrow> Pol \<Rightarrow> byte \<Rightarrow> Pol" where
  "rk_absorb p v c = the (shift_in p v c)"

definition rk_roll :: "Pol \<Rightarrow> nat \<Rightarrow> Pol \<Rightarrow> byte \<Rightarrow> byte \<Rightarrow> Pol" where
  "rk_roll p w = rk_step (the (buildTables p w)) (nat (Deg p) - 8)"

lemma rk_absorb_hash: "good_pol p \<Longrightarrow> foldl (rk_absorb p) 0 xs = rk_hash p xs"
  by (induction xs rule: rev_induct) (simp_all add: rk_absorb_def shift_in_hash)

lemma rk_rolling: "good_pol p \<Longrightarrow> rolling_hash 0 (rk_absorb p) (rk_roll p)"
proof
  fix xs :: "byte list" and x y assume g: "good_pol p"
  obtain t where t: "buildTables p (Suc (length xs)) = Some t" "good_tables p (Suc (length xs)) t"
    using buildTables_ok [OF g] by blast
  show "rk_roll p (Suc (length xs)) (foldl (rk_absorb p) 0 (x # xs)) x y = foldl (rk_absorb p) 0 (xs @ [y])"
    unfolding rk_absorb_hash [OF g] rk_roll_def using t(1) rk_step_hash [OF g t(2) refl] by simp
qed

lemma rk_shift_ok: "good_pol (rk_pol d) \<Longrightarrow> rk_polShift d = word_of_int (Deg (rk_pol d) - 8) \<Longrightarrow>
    rk_shift d = nat (Deg (rk_pol d)) - 8"
proof -
  assume g: "good_pol (rk_pol d)" and sh: "rk_polShift d = word_of_int (Deg (rk_pol d) - 8)"
  define n where "n = nat (Deg (rk_pol d)) - 8"
  have n: "n < 64" and e: "Deg (rk_pol d) - 8 = int n" using g by (auto simp: good_pol_def n_def)
  have "63 = (mask 6 :: u64)" by (simp add: mask_eq_exp_minus_1)
  then have "rk_shift d = unat (take_bit 6 (word_of_nat n :: u64))"
    unfolding rk_shift_def sh e by (simp add: take_bit_eq_mask)
  also have "\<dots> = n" using n by (simp add: unsigned_take_bit_eq unsigned_of_nat take_bit_nat_eq_self)
  finally show ?thesis by (simp only: n_def)
qed

fun rk_win :: "rabinkarp64 \<times> rk_cache \<Rightarrow> byte list" where
  "rk_win (d, cache) = contents (rk_window d) (rk_oldest d)"

fun rk_inv :: "rabinkarp64 \<times> rk_cache \<Rightarrow> bool" where
  "rk_inv (d, cache) \<longleftrightarrow>
     cache_ok cache \<and> good_pol (rk_pol d) \<and> circ_ok (rk_window d) (rk_oldest d) \<and>
     rk_value d = rk_hash (rk_pol d) (rk_win (d, cache)) \<and>
     rk_polShift d = word_of_int (Deg (rk_pol d) - 8) \<and>
     rk_tables d = buildTables (rk_pol d) (length (rk_window d))"

lemma updateTables_ok:
  assumes "cache_ok cache" and "good_pol (rk_pol d)"
  shows "\<exists>cache'. updateTables cache d =
    Some (d\<lparr>rk_tables := buildTables (rk_pol d) (length (rk_window d))\<rparr>, cache') \<and> cache_ok cache'"
proof -
  obtain t where t: "buildTables (rk_pol d) (length (rk_window d)) = Some t"
    using buildTables_ok [OF assms(2)] by blast
  then show ?thesis using tablesFor_ok [OF assms(1) t] by (auto simp: updateTables_def)
qed

lemma rabinkarp64_NewFromPol_ok:
  assumes "cache_ok cache" and "good_pol p"
  shows "\<exists>s. rabinkarp64_NewFromPol cache p = Some s \<and> rk_inv s \<and> rk_win s = [] \<and> rk_pol (fst s) = p"
  using updateTables_ok [OF assms(1), of "\<lparr>rk_pol = p, rk_tables = None, rk_polShift = word_of_int (Deg p - 8),
      rk_value = 0, rk_window = [], rk_oldest = 0\<rparr>"] assms
  by (auto simp: rabinkarp64_NewFromPol_def)

lemma rabinkarp64_Reset_ok:
  assumes "rk_inv (d, cache)"
  shows "\<exists>s. rabinkarp64_Reset cache d = Some s \<and> rk_inv s \<and> rk_win s = [] \<and> rk_pol (fst s) = rk_pol d"
  using updateTables_ok [of cache "d\<lparr>rk_tables := None, rk_value := 0, rk_window := [], rk_oldest := 0\<rparr>"] assms
  by (auto simp: rabinkarp64_Reset_def)

lemma rabinkarp64_Write_ok:
  assumes inv: "rk_inv (d, cache)"
  shows "\<exists>s. rabinkarp64_Write cache d xs = Some s \<and> rk_inv s \<and> rk_win s = rk_win (d, cache) @ xs \<and>
    rk_pol (fst s) = rk_pol d"
proof (cases "xs = []")
  case True
  then show ?thesis using inv by (simp add: rabinkarp64_Write_def)
next
  case False
  define w where "w = rk_win (d, cache) @ xs"
  define d' where "d' = d\<lparr>rk_window := w, rk_oldest := 0, rk_value := rk_hash (rk_pol d) w\<rparr>"
  have g: "good_pol (rk_pol d)" and cache: "cache_ok cache" using inv by simp_all
  have le: "rk_oldest d \<le> length (rk_window d)" using inv by (simp add: circ_ok_le)
  have "rabinkarp64_Write cache d xs = updateTables cache d'"
    using False le by (simp add: rabinkarp64_Write_def MoveLeft_contents shift_in_all_window [OF g] w_def d'_def Let_def)
  then show ?thesis
    using updateTables_ok [OF cache, of d'] g inv by (auto simp: d'_def w_def)
qed

lemma rabinkarp64_Roll_ok:
  assumes inv: "rk_inv (d, cache)" and win: "rk_win (d, cache) = x # ys"
  shows "\<exists>d'. rabinkarp64_Roll d c = Some d' \<and> rk_inv (d', cache) \<and> rk_win (d', cache) = ys @ [c] \<and> rk_pol d' = rk_pol d"
proof -
  have g: "good_pol (rk_pol d)" and ok: "circ_ok (rk_window d) (rk_oldest d)" and ne: "rk_window d \<noteq> []"
    using inv win by auto
  obtain t where t: "buildTables (rk_pol d) (length (rk_window d)) = Some t" using buildTables_ok [OF g] by blast
  obtain w' o' where p: "circ_push (rk_window d) (rk_oldest d) c = (w', o')" by fastforce
  have law: "rk_step t (nat (Deg (rk_pol d)) - 8) (rk_hash (rk_pol d) (contents (rk_window d) (rk_oldest d)))
      (rk_window d ! rk_oldest d) c = rk_hash (rk_pol d) (contents w' o')"
    using rolling_hash.roll_contents [OF rk_rolling [OF g] ok ne p] by (simp add: rk_absorb_hash [OF g] rk_roll_def t)
  show ?thesis
    using inv win p law t rk_shift_ok [OF g] contents_push [OF ok ne p] circ_push_ok [OF ok p] length_circ_push [OF p] ok ne
    by (auto simp: rabinkarp64_Roll_def circ_push_def circ_ok_def idx_def Let_def)
qed

lemma rabinkarp64_Roll_empty: "rk_win (d, cache) = [] \<Longrightarrow> rabinkarp64_Roll d c = None"
  by (simp add: rabinkarp64_Roll_def idx_def)

lemma rk_batch_tables:
  assumes "rk_inv (d, cache)"
  shows "\<exists>t cache'. tablesFor cache (rk_pol d) w = Some (t, cache') \<and> cache_ok cache' \<and>
    ln_step (rk_lane t (rk_shift d) data w) = rk_roll (rk_pol d) w"
proof -
  have g: "good_pol (rk_pol d)" and cache: "cache_ok cache" using assms by simp_all
  obtain t where t: "buildTables (rk_pol d) w = Some t" using buildTables_ok [OF g] by blast
  show ?thesis
    using tablesFor_ok [OF cache t] t rk_shift_ok [OF g] assms by (auto simp: rk_lane_def rk_roll_def)
qed

lemma rabinkarp64_BatchRoll_windows:
  assumes inv: "rk_inv (d, cache)" and w: "0 < w" "n + w = length data" and dst: "n < length dst"
  shows "\<exists>cache'. cache_ok cache' \<and> rabinkarp64_BatchRoll cache d dst data (int w) =
    Some (map (\<lambda>i. rk_hash (rk_pol d) (window_at w data i)) [0..<Suc n] @ drop (Suc n) dst, cache')"
proof -
  have g: "good_pol (rk_pol d)" using inv by simp
  obtain t cache' where t: "tablesFor cache (rk_pol d) w = Some (t, cache')" "cache_ok cache'"
      "ln_step (rk_lane t (rk_shift d) data w) = rk_roll (rk_pol d) w"
    using rk_batch_tables [OF inv] by blast
  have "roll_lanes (rk_lane t (rk_shift d) data w) (\<lambda>off. rk_warm (rk_pol d) data off [0..<w] 0) n dst =
      Some (map (\<lambda>i. ln_out (rk_lane t (rk_shift d) data w) (foldl (rk_absorb (rk_pol d)) 0 (window_at w data i))) [0..<Suc n] @ drop (Suc n) dst)"
    using w rk_warm_window [OF g, of _ w data]
    by (intro rolling_hash.roll_lanes_window [OF rk_rolling [OF g] w t(3) _ _ _ dst])
      (auto simp: rk_lane_def idx_def rk_absorb_hash [OF g])
  then show ?thesis
    using w t by (simp add: rabinkarp64_BatchRoll_def nat_eq_diff [OF w(2)] rk_absorb_hash [OF g] Let_def
        del: upt_Suc) (simp add: rk_lane_def)
qed

lemma rabinkarp64_BatchBoundaries_windows:
  assumes inv: "rk_inv (d, cache)" and w: "0 < w" "n + w = length data" and ab: "n < length a" "n < length b"
  shows "\<exists>hits cache'. cache_ok cache' \<and> rabinkarp64_BatchBoundaries cache d a b data (int w) msk = Some (hits, cache') \<and>
    boundaries_are msk (\<lambda>i. rk_hash (rk_pol d) (window_at w data i)) n a b (Some hits)"
proof -
  have g: "good_pol (rk_pol d)" using inv by simp
  obtain t cache' where t: "tablesFor cache (rk_pol d) w = Some (t, cache')" "cache_ok cache'"
      "ln_step (rk_lane t (rk_shift d) data w) = rk_roll (rk_pol d) w"
    using rk_batch_tables [OF inv] by blast
  define hits where "hits = hit_lanes (rk_lane t (rk_shift d) data w) (\<lambda>off. rk_warm (rk_pol d) data off [0..<w] 0) n msk a b"
  have "boundaries_are msk (\<lambda>p. ln_out (rk_lane t (rk_shift d) data w) (foldl (rk_absorb (rk_pol d)) 0 (window_at w data p))) n a b hits"
    unfolding hits_def using w rk_warm_window [OF g, of _ w data]
    by (intro rolling_hash.hit_lanes_window [OF rk_rolling [OF g] w t(3) _ _ _ ab])
      (auto simp: rk_lane_def idx_def rk_absorb_hash [OF g])
  then have b: "boundaries_are msk (\<lambda>i. rk_hash (rk_pol d) (window_at w data i)) n a b hits"
    by (simp add: rk_absorb_hash [OF g] rk_lane_def)
  then obtain h where h: "hits = Some h" by (cases hits) (auto simp: boundaries_are_def)
  show ?thesis
    using w t b unfolding h by (auto simp: rabinkarp64_BatchBoundaries_def nat_eq_diff [OF w(2)] Let_def h [unfolded hits_def])
qed

interpretation rabinkarp64_digest: digest rabinkarp64_iface rk_inv rk_win "\<lambda>s. rk_hash (rk_pol (fst s))" "\<lambda>_. True"
proof
  fix s xs x ys c w n data dst a b msk b'
  assume inv: "rk_inv s"
  obtain d cache where s: "s = (d, cache)" by fastforce
  note inv' = inv [unfolded s]
  show sum: "core_sum rabinkarp64_iface s = rk_hash (rk_pol (fst s)) (rk_win s)"
    using inv' by (simp add: s core_sum_def rabinkarp64_iface_def rabinkarp64_Sum64_def)
  show "\<exists>bs. h_Sum rabinkarp64_iface s b' = b' @ bs \<and> int (length bs) = h_Size rabinkarp64_iface s \<and> be_value bs = rk_hash (rk_pol (fst s)) (rk_win s)"
    using sum by (simp add: s core_sum_def rabinkarp64_iface_def rabinkarp64_Sum_def rabinkarp64_Size_def be_value_64 Let_def)
  show "\<exists>s'. h_Reset rabinkarp64_iface s = Some s' \<and> rk_inv s' \<and> rk_win s' = [] \<and>
      rk_hash (rk_pol (fst s')) = rk_hash (rk_pol (fst s))"
    using rabinkarp64_Reset_ok [OF inv'] by (auto simp: s rabinkarp64_iface_def)
  show "\<exists>s'. h_Write rabinkarp64_iface s xs = Some s' \<and> rk_inv s' \<and> rk_win s' = rk_win s @ xs \<and>
      rk_hash (rk_pol (fst s')) = rk_hash (rk_pol (fst s))"
    using rabinkarp64_Write_ok [OF inv', of xs] by (auto simp: s rabinkarp64_iface_def)
  show "\<exists>s'. h_Roll rabinkarp64_iface s c = Some s' \<and> rk_inv s' \<and> rk_win s' = ys @ [c] \<and>
      rk_hash (rk_pol (fst s')) = rk_hash (rk_pol (fst s))" if "rk_win s = x # ys"
    using rabinkarp64_Roll_ok [OF inv' that [unfolded s], of c] by (auto simp: s rabinkarp64_iface_def)
  show "h_Roll rabinkarp64_iface s c = None" if "rk_win s = []"
    using rabinkarp64_Roll_empty [OF that [unfolded s], of c] by (simp add: s rabinkarp64_iface_def)
  show "\<exists>br. h_BatchRoll rabinkarp64_iface = Some br \<and> br s dst data (int w) =
      Some (map (\<lambda>i. rk_hash (rk_pol (fst s)) (window_at w data i)) [0..<Suc n] @ drop (Suc n) dst)"
    if "0 < w" "n + w = length data" "n < length dst"
    using rabinkarp64_BatchRoll_windows [OF inv' that] by (auto simp: s rabinkarp64_iface_def simp del: upt_Suc)
  show "\<exists>brd. h_BatchBoundaries rabinkarp64_iface = Some brd \<and>
      boundaries_are msk (\<lambda>p. rk_hash (rk_pol (fst s)) (window_at w data p)) n a b (brd s a b data (int w) msk)"
    if "0 < w" "n + w = length data" "n < length a" "n < length b"
    using rabinkarp64_BatchBoundaries_windows [OF inv' that, of msk] by (auto simp: s rabinkarp64_iface_def)
qed

section \<open>Any nonzero polynomial has tables\<close>

lemma shift_zeros_total: "p \<noteq> 0 \<Longrightarrow> \<exists>h'. shift_zeros n p h = Some h'"
proof (induction n arbitrary: h)
  case (Suc n)
  obtain h1 where "shift_in p h 0 = Some h1" using pol_Mod_ok [OF Suc.prems] unfolding shift_in_def by blast
  then show ?case using Suc by simp
qed simp

lemma buildTables_total:
  assumes p: "p \<noteq> 0"
  shows "\<exists>t. buildTables p w = Some t \<and> (\<forall>b. out_entry p w b = Some (t_out t b) \<and> mod_entry p b = Some (t_mod t b))"
proof -
  have "\<forall>b. \<exists>h. out_entry p w b = Some h"
  proof
    fix b
    obtain h1 where "shift_in p 0 b = Some h1" using pol_Mod_ok [OF p] unfolding shift_in_def by blast
    then show "\<exists>h. out_entry p w b = Some h" using shift_zeros_total [OF p] by (simp add: out_entry_def)
  qed
  then obtain f where f: "\<And>b. out_entry p w b = Some (f b)" by metis
  have "\<forall>b. \<exists>h. mod_entry p b = Some h"
  proof
    fix b :: byte
    obtain r where "pol_Mod (push_bit (nat (Deg p)) (ucast b)) p = Some r" using pol_Mod_ok [OF p] by blast
    then show "\<exists>h. mod_entry p b = Some h" by (simp add: mod_entry_def)
  qed
  then obtain g where g: "\<And>b. mod_entry p b = Some (g b)" by metis
  show ?thesis
    using fill_table_all [of "out_entry p w", OF f] fill_table_all [of "mod_entry p", OF g] f g
    by (simp add: buildTables_def)
qed

text \<open>The zero polynomial divides nothing: the first nonzero byte panics.\<close>

lemma buildTables_0: "buildTables 0 w = None"
proof -
  have "out_entry 0 w 1 = None" using pol_DivMod_panic [of 1] by (simp add: out_entry_def shift_in_def pol_Mod_def)
  then have "those (map (\<lambda>b. out_entry 0 w (word_of_nat b)) (0 # 1 # [2..<256])) = None"
    by (simp split: option.splits)
  moreover have "[0..<256] = 0 # 1 # [2..<256]" by (simp add: upt_conv_Cons numeral_2_eq_2)
  ultimately have "fill_table (out_entry 0 w) = None" unfolding fill_table_def by simp
  then show ?thesis by (simp add: buildTables_def)
qed

section \<open>Properties\<close>

lemma rabinkarp64_core_sum: "core_sum rabinkarp64_iface (d, cache) = rabinkarp64_Sum64 d"
  by (simp add: core_sum_def rabinkarp64_iface_def)

lemma rabinkarp64_WriteWindow_ok:
  "rk_inv (d, cache) \<Longrightarrow> rabinkarp64_WriteWindow buffer_Write buf d =
     Some (int (length (rk_win (d, cache))), None, buf @ rk_win (d, cache))"
  by (simp add: rabinkarp64_WriteWindow_def window_Write_buffer)

text \<open>C8: For a polynomial of degree 8 to 56, any sequence of calls of \<open>Reset\<close>, \<open>Write\<close> and \<open>Roll\<close> on a new
  hash of rabinkarp64, over any cache that other hashes may have filled, panics exactly when it rolls on an
  empty window, and otherwise leaves the remainder, modulo the polynomial, of the polynomial made of the bytes in
  the window; \<open>WriteWindow\<close> writes exactly these bytes. \<open>Sum\<close> appends its \<open>Size\<close>
  bytes, most significant first.\<close>

theorem rabinkarp64_run:
  assumes "good_pol p" and "cache_ok cache"
  shows "\<exists>s. rabinkarp64_NewFromPol cache p = Some s \<and>
    (case window_ops ops [] of
       None \<Rightarrow> run_ops rabinkarp64_iface ops s = None
     | Some w \<Rightarrow> \<exists>d cache'. run_ops rabinkarp64_iface ops s = Some (d, cache') \<and> cache_ok cache' \<and>
         poly (rabinkarp64_Sum64 d) = bytes_poly w mod poly p \<and>
         rabinkarp64_Sum d pre = pre @ be_bytes (rabinkarp64_Size d) (rabinkarp64_Sum64 d) \<and>
         rabinkarp64_WriteWindow buffer_Write buf d = Some (int (length w), None, buf @ w))"
proof -
  obtain s where s: "rabinkarp64_NewFromPol cache p = Some s" "rk_inv s" "rk_win s = []" "rk_pol (fst s) = p"
    using rabinkarp64_NewFromPol_ok [OF assms(2,1)] by blast
  show ?thesis
  proof (cases "window_ops ops []")
    case None
    then show ?thesis using s rabinkarp64_digest.run_ops_result [OF s(2,3), of ops] by simp
  next
    case (Some w)
    then obtain d cache' where r: "run_ops rabinkarp64_iface ops s = Some (d, cache')" "rk_inv (d, cache')"
        "rk_win (d, cache') = w" "rabinkarp64_Sum64 d = rk_hash p w"
      using rabinkarp64_digest.run_ops_result [OF s(2,3), of ops] s(4) by (auto simp: rabinkarp64_core_sum)
    then show ?thesis
      using s(1) Some rabinkarp64_WriteWindow_ok [OF r(2)] poly_rk_hash [OF assms(1)] by (auto simp: rabinkarp64_Sum_bytes)
  qed
qed

lemma good_pol_283: "good_pol 283"
  by (simp add: good_pol_def Deg_def nbits.simps)

theorem rabinkarp64_run_witness:
  "\<exists>s d cache'. rabinkarp64_NewFromPol Map.empty 283 = Some s \<and>
     run_ops rabinkarp64_iface [OpWrite [1, 2], OpRoll 3] s = Some (d, cache') \<and> cache_ok cache' \<and>
     poly (rabinkarp64_Sum64 d) = bytes_poly [2, 3] mod poly 283"
  using rabinkarp64_run [OF good_pol_283 cache_ok_empty, of "[OpWrite [1, 2], OpRoll 3]" "[]"] by fastforce

text \<open>C34: \<open>BatchRoll\<close> of rabinkarp64 stores the fingerprint of every window of the data, in order, and nothing
  else; \<open>BatchBoundaries\<close> reports exactly the windows whose fingerprint has no bit of the mask, in
  ascending order over its two buffers. Both keep the cache consistent, and no index leaves its slice. This
  holds for a polynomial of degree 8 to 56, after any calls of \<open>Reset\<close>, \<open>Write\<close> and \<open>Roll\<close> on the hash that
  \<open>NewFromPol\<close> made from it, over any cache that other hashes may have filled; the fingerprint is the remainder
  of the window as a polynomial over GF(2). Other degrees are left out: there rolling goes wrong.\<close>

theorem rabinkarp64_batch:
  assumes "good_pol p" and "cache_ok cache0" and "rabinkarp64_NewFromPol cache0 p = Some s"
    and "run_ops rabinkarp64_iface ops s = Some (d, cache)"
    and "0 < w" and "n + w = length data" and "n < length dst" and "n < length a" and "n < length b"
  shows "\<exists>cache1 hits cache2. cache_ok cache1 \<and> cache_ok cache2 \<and>
    rabinkarp64_BatchRoll cache d dst data (int w) =
      Some (map (\<lambda>i. rk_hash p (window_at w data i)) [0..<Suc n] @ drop (Suc n) dst, cache1) \<and>
    rabinkarp64_BatchBoundaries cache d a b data (int w) msk = Some (hits, cache2) \<and>
    boundaries_are msk (\<lambda>i. rk_hash p (window_at w data i)) n a b (Some hits) \<and>
    (\<forall>i \<le> n. poly (rk_hash p (window_at w data i)) = bytes_poly (window_at w data i) mod poly p)"
proof -
  have s: "rk_inv s" "rk_win s = []" "rk_pol (fst s) = p"
    using rabinkarp64_NewFromPol_ok [OF assms(2,1)] assms(3) by auto
  have d: "rk_inv (d, cache)" "rk_hash (rk_pol d) = rk_hash p"
    using rabinkarp64_digest.run_ops_inv [OF s(1) _ assms(4)] s(3) by (auto simp del: rk_inv.simps)
  show ?thesis
    using rabinkarp64_BatchRoll_windows [OF d(1) assms(5-7)]
      rabinkarp64_BatchBoundaries_windows [OF d(1) assms(5,6,8,9), of msk] poly_rk_hash [OF assms(1)]
    unfolding d(2) by blast
qed

theorem rabinkarp64_batch_witness:
  "\<exists>d cache cache1. rabinkarp64_NewFromPol Map.empty 283 = Some (d, cache) \<and>
     rabinkarp64_BatchRoll cache d [0, 0, 0] [1, 2, 3, 4] 2 =
       Some (map (\<lambda>i. rk_hash 283 (window_at 2 [1, 2, 3, 4] i)) [0..<Suc 2], cache1)"
proof -
  obtain d cache where d: "rabinkarp64_NewFromPol Map.empty 283 = Some (d, cache)"
    using rabinkarp64_NewFromPol_ok [OF cache_ok_empty good_pol_283] by (metis surj_pair)
  then show ?thesis
    using rabinkarp64_batch [OF good_pol_283 cache_ok_empty d, of "[]" d cache 2 2 "[1, 2, 3, 4]" "[0, 0, 0]" "[0, 0, 0]" "[0, 0, 0]" 0]
    by (auto simp del: upt_Suc)
qed

text \<open>C35: \<open>New\<close>, over a random source that fills every buffer and any cache that other hashes may have filled,
  returns a hash of the empty window whose polynomial is irreducible of degree 53, so that its rolling is
  exact; it panics only when the search of \<open>RandomPolynomial(1)\<close> ends with \<open>ErrNoPolynomial\<close>.\<close>

theorem rabinkarp64_New_ok:
  assumes "fills rand_Read" and "cache_ok cache"
  shows "case rabinkarp64_New rand_Read rand_New cache of
      None \<Rightarrow> \<exists>r. RandomPolynomial rand_Read rand_New 1 = Some (0, Some ErrNoPolynomial, r)
    | Some s \<Rightarrow> rk_inv s \<and> rk_win s = [] \<and> irreducible2 (poly (rk_pol (fst s))) \<and> Deg (rk_pol (fst s)) = 53"
proof -
  obtain p err r where r: "RandomPolynomial rand_Read rand_New 1 = Some (p, err, r)"
      "case err of None \<Rightarrow> Deg p = 53 \<and> irreducible2 (poly p) | Some e \<Rightarrow> e = ErrNoPolynomial \<and> p = 0"
    using fills_derive_loop [OF assms(1)] unfolding RandomPolynomial_def DerivePolynomial_def by metis
  show ?thesis
  proof (cases err)
    case None
    then have "good_pol p" using r(2) by (simp add: good_pol_def)
    then show ?thesis
      using rabinkarp64_NewFromPol_ok [OF assms(2)] r None by (fastforce simp: rabinkarp64_New_def)
  next
    case (Some e)
    then show ?thesis using r by (simp add: rabinkarp64_New_def)
  qed
qed

theorem rabinkarp64_New_ok_witness:
  "case rabinkarp64_New (\<lambda>r n. (replicate n (word_of_int r), None, r + 1)) (\<lambda>seed. seed) Map.empty of
      None \<Rightarrow> \<exists>r. RandomPolynomial (\<lambda>r n. (replicate n (word_of_int r), None, r + 1)) (\<lambda>seed. seed) 1 = Some (0, Some ErrNoPolynomial, r)
    | Some s \<Rightarrow> rk_inv s \<and> rk_win s = [] \<and> irreducible2 (poly (rk_pol (fst s))) \<and> Deg (rk_pol (fst s)) = 53"
  by (rule rabinkarp64_New_ok) (simp_all add: fills_def)

lemma pol_7_steps:
  "shift_in 7 0 1 = Some 1" "shift_in 7 0 255 = Some 3" "mod_entry 7 0 = Some 0" "unat ((word_of_int (- 6) :: u64) AND 63) = 58"
  by code_simp+

text \<open>\<open>NewFromPol\<close> accepts polynomials for which rolling is wrong. For x^2 + x + 1, which is irreducible,
  \<open>Write\<close> of the byte 1 and \<open>Roll\<close> of the byte 255 leave the sum 255, while \<open>Write\<close> of the byte 255
  in a new hash gives its remainder 3: the same window with two sums. For the polynomial 0 it panics.\<close>

theorem rabinkarp64_small_degree:
  "\<exists>s d1 d2 c1 c2. rabinkarp64_NewFromPol Map.empty 7 = Some s \<and>
     run_ops rabinkarp64_iface [OpWrite [1], OpRoll 255] s = Some (d1, c1) \<and>
     run_ops rabinkarp64_iface [OpWrite [255]] s = Some (d2, c2) \<and>
     rk_win (d1, c1) = rk_win (d2, c2) \<and> rabinkarp64_Sum64 d1 = 255 \<and> rabinkarp64_Sum64 d2 = 3 \<and>
     rabinkarp64_NewFromPol Map.empty 0 = None"
proof -
  obtain t0 where t0: "buildTables 7 0 = Some t0" using buildTables_total [of 7 0] by auto
  obtain t1 where t1: "buildTables 7 1 = Some t1" "\<forall>b. out_entry 7 1 b = Some (t_out t1 b) \<and> mod_entry 7 b = Some (t_mod t1 b)"
    using buildTables_total [of 7 1] by auto
  have out: "t_out t1 1 = 1" using t1(2) [rule_format, of 1] by (simp add: out_entry_def pol_7_steps)
  have md: "t_mod t1 0 = 0" using t1(2) [rule_format, of 0] by (simp add: pol_7_steps)
  have deg: "Deg 7 = 2" by (simp add: Deg_def nbits.simps)
  show ?thesis
    using t0 t1(1) out md pol_7_steps
    by (simp add: rabinkarp64_NewFromPol_def updateTables_def tablesFor_def buildTables_0 deg rabinkarp64_iface_def
        rabinkarp64_Write_def rabinkarp64_Roll_def rabinkarp64_Sum64_def rk_step_def rk_shift_def idx_def Let_def)
qed

end
