(* ===== verification/Rabin_Cache.thy ===== *)
theory Rabin_Cache
  imports Rabinkarp64
begin

text \<open>
  rabinkarp64.go: \<open>tablesFor\<close> called from several goroutines. Every caller has its arguments and a
  place in the function; the map and its mutex are shared. A step is one caller moving: taking the
  lock, reading or writing the map, releasing the lock, or building tables with the lock free. The
  theorems say that the map is never accessed by two callers at once, that every caller gets the
  tables \<open>buildTables\<close> gives for its arguments, and that the callers cannot block one another for ever.
\<close>

section \<open>The callers\<close>

datatype tf_pc =
    Tf_start
  | Tf_lookup
  | Tf_looked "tables option"
  | Tf_build
  | Tf_built tables
  | Tf_store tables
  | Tf_stored tables
  | Tf_return tables
  | Tf_panic

record tf_state =
  tf_entries :: rk_cache
  tf_lock :: "nat option"
  tf_pcs :: "nat \<Rightarrow> tf_pc"

definition tf_at :: "tf_state \<Rightarrow> nat \<Rightarrow> tf_pc \<Rightarrow> tf_state" where
  "tf_at s i pc = s\<lparr>tf_pcs := (tf_pcs s)(i := pc)\<rparr>"

text \<open>\<open>args i\<close> is the polynomial and the window size caller \<open>i\<close> asks for, its \<open>index\<close>.\<close>

inductive tf_step :: "(nat \<Rightarrow> Pol \<times> nat) \<Rightarrow> tf_state \<Rightarrow> tf_state \<Rightarrow> bool" for args where
  lock_lookup: "tf_pcs s i = Tf_start \<Longrightarrow> tf_lock s = None \<Longrightarrow>
    tf_step args s (tf_at (s\<lparr>tf_lock := Some i\<rparr>) i Tf_lookup)"
| lookup: "tf_pcs s i = Tf_lookup \<Longrightarrow>
    tf_step args s (tf_at s i (Tf_looked (tf_entries s (args i))))"
| unlock_hit: "tf_pcs s i = Tf_looked (Some t) \<Longrightarrow>
    tf_step args s (tf_at (s\<lparr>tf_lock := None\<rparr>) i (Tf_return t))"
| unlock_miss: "tf_pcs s i = Tf_looked None \<Longrightarrow>
    tf_step args s (tf_at (s\<lparr>tf_lock := None\<rparr>) i Tf_build)"
| build: "tf_pcs s i = Tf_build \<Longrightarrow> buildTables (fst (args i)) (snd (args i)) = Some t \<Longrightarrow>
    tf_step args s (tf_at s i (Tf_built t))"
| build_panic: "tf_pcs s i = Tf_build \<Longrightarrow> buildTables (fst (args i)) (snd (args i)) = None \<Longrightarrow>
    tf_step args s (tf_at s i Tf_panic)"
| lock_store: "tf_pcs s i = Tf_built t \<Longrightarrow> tf_lock s = None \<Longrightarrow>
    tf_step args s (tf_at (s\<lparr>tf_lock := Some i\<rparr>) i (Tf_store t))"
| store: "tf_pcs s i = Tf_store t \<Longrightarrow>
    tf_step args s (tf_at (s\<lparr>tf_entries := (tf_entries s)(args i \<mapsto> t)\<rparr>) i (Tf_stored t))"
| unlock_stored: "tf_pcs s i = Tf_stored t \<Longrightarrow>
    tf_step args s (tf_at (s\<lparr>tf_lock := None\<rparr>) i (Tf_return t))"

definition tf_init :: "rk_cache \<Rightarrow> tf_state" where
  "tf_init cache = \<lparr>tf_entries = cache, tf_lock = None, tf_pcs = (\<lambda>_. Tf_start)\<rparr>"

definition tf_reachable :: "(nat \<Rightarrow> Pol \<times> nat) \<Rightarrow> rk_cache \<Rightarrow> tf_state \<Rightarrow> bool" where
  "tf_reachable args cache s \<longleftrightarrow> (tf_step args)\<^sup>*\<^sup>* (tf_init cache) s"

section \<open>The invariant\<close>

text \<open>The places between \<open>Lock\<close> and \<open>Unlock\<close>, and the tables a caller has in hand.\<close>

fun tf_inside :: "tf_pc \<Rightarrow> bool" where
  "tf_inside Tf_lookup = True"
| "tf_inside (Tf_looked _) = True"
| "tf_inside (Tf_store _) = True"
| "tf_inside (Tf_stored _) = True"
| "tf_inside _ = False"

fun tf_hand :: "tf_pc \<Rightarrow> tables option" where
  "tf_hand (Tf_looked t) = t"
| "tf_hand (Tf_built t) = Some t"
| "tf_hand (Tf_store t) = Some t"
| "tf_hand (Tf_stored t) = Some t"
| "tf_hand (Tf_return t) = Some t"
| "tf_hand _ = None"

definition tf_tables :: "Pol \<times> nat \<Rightarrow> tables option" where
  "tf_tables a = buildTables (fst a) (snd a)"

definition tf_inv :: "(nat \<Rightarrow> Pol \<times> nat) \<Rightarrow> tf_state \<Rightarrow> bool" where
  "tf_inv args s \<longleftrightarrow>
     (\<forall>i. tf_inside (tf_pcs s i) \<longleftrightarrow> tf_lock s = Some i) \<and>
     (\<forall>a t. tf_entries s a = Some t \<longrightarrow> tf_tables a = Some t) \<and>
     (\<forall>i t. tf_hand (tf_pcs s i) = Some t \<longrightarrow> tf_tables (args i) = Some t) \<and>
     (\<forall>i. tf_pcs s i = Tf_panic \<longrightarrow> tf_tables (args i) = None)"

lemma tf_inv_init: "cache_ok cache \<Longrightarrow> tf_inv args (tf_init cache)"
  by (auto simp: tf_inv_def tf_init_def cache_ok_def tf_tables_def)

text \<open>A step changes the place of one caller; it keeps the invariant if what it brings along is right.\<close>

lemma tf_inv_at:
  assumes inv: "tf_inv args s"
    and lock: "tf_inside pc \<longleftrightarrow> tf_lock s' = Some i"
    and others: "\<And>j. j \<noteq> i \<Longrightarrow> tf_lock s = Some j \<longleftrightarrow> tf_lock s' = Some j"
    and entries: "\<And>a t. tf_entries s' a = Some t \<Longrightarrow> tf_tables a = Some t"
    and hand: "\<And>t. tf_hand pc = Some t \<Longrightarrow> tf_tables (args i) = Some t"
    and panic: "pc = Tf_panic \<Longrightarrow> tf_tables (args i) = None"
    and pcs: "tf_pcs s' = tf_pcs s"
  shows "tf_inv args (tf_at s' i pc)"
  unfolding tf_inv_def
proof (intro conjI allI impI)
  show "tf_inside (tf_pcs (tf_at s' i pc) j) \<longleftrightarrow> tf_lock (tf_at s' i pc) = Some j" for j
    using inv lock others [of j] by (simp add: tf_at_def tf_inv_def pcs)
  show "tf_tables a = Some t" if "tf_entries (tf_at s' i pc) a = Some t" for a t
    using that entries by (simp add: tf_at_def)
  show "tf_tables (args j) = Some t" if "tf_hand (tf_pcs (tf_at s' i pc) j) = Some t" for j t
    using that inv hand by (auto simp: tf_at_def tf_inv_def pcs split: if_splits)
  show "tf_tables (args j) = None" if "tf_pcs (tf_at s' i pc) j = Tf_panic" for j
    using that inv panic by (auto simp: tf_at_def tf_inv_def pcs split: if_splits)
qed

lemma tf_invD:
  assumes "tf_inv args s"
  shows "tf_inside (tf_pcs s i) \<longleftrightarrow> tf_lock s = Some i"
    and "tf_entries s a = Some t \<Longrightarrow> tf_tables a = Some t"
    and "tf_hand (tf_pcs s i) = Some t \<Longrightarrow> tf_tables (args i) = Some t"
  using assms unfolding tf_inv_def by blast+

lemma tf_inv_step: "tf_step args s s' \<Longrightarrow> tf_inv args s \<Longrightarrow> tf_inv args s'"
proof (induction rule: tf_step.induct)
  case (lock_lookup s i)
  then show ?case by (intro tf_inv_at [of args s]) (auto dest: tf_invD(2))
next
  case (lookup s i)
  then show ?case using tf_invD(1) [of args s i] by (intro tf_inv_at [of args s]) (auto dest: tf_invD(2))
next
  case (unlock_hit s i t)
  then show ?case using tf_invD(1,3) [of args s i] by (intro tf_inv_at [of args s]) (auto dest: tf_invD(2))
next
  case (unlock_miss s i)
  then show ?case using tf_invD(1) [of args s i] by (intro tf_inv_at [of args s]) (auto dest: tf_invD(2))
next
  case (build s i t)
  then show ?case using tf_invD(1) [of args s i]
    by (intro tf_inv_at [of args s]) (auto dest: tf_invD(2) simp: tf_tables_def [of "args i"])
next
  case (build_panic s i)
  then show ?case using tf_invD(1) [of args s i]
    by (intro tf_inv_at [of args s]) (auto dest: tf_invD(2) simp: tf_tables_def [of "args i"])
next
  case (lock_store s i t)
  then show ?case using tf_invD(3) [of args s i t] by (intro tf_inv_at [of args s]) (auto dest: tf_invD(2))
next
  case (store s i t)
  then show ?case using tf_invD(1,3) [of args s i]
    by (intro tf_inv_at [of args s]) (auto dest: tf_invD(2) split: if_splits)
next
  case (unlock_stored s i t)
  then show ?case using tf_invD(1,3) [of args s i] by (intro tf_inv_at [of args s]) (auto dest: tf_invD(2))
qed

lemma tf_inv_reachable:
  assumes "cache_ok cache" and "tf_reachable args cache s"
  shows "tf_inv args s"
  using assms(2) unfolding tf_reachable_def
proof (induction rule: rtranclp_induct)
  case base
  show ?case by (rule tf_inv_init [OF assms(1)])
next
  case (step s s')
  then show ?case using tf_inv_step by blast
qed

text \<open>A caller that is not at its end can move, or the holder of the lock can.\<close>

definition tf_ended :: "tf_pc \<Rightarrow> bool" where
  "tf_ended pc \<longleftrightarrow> pc = Tf_panic \<or> (\<exists>t. pc = Tf_return t)"

lemma tf_inside_moves: "tf_inside (tf_pcs s i) \<Longrightarrow> \<exists>s'. tf_step args s s'"
proof (cases "tf_pcs s i")
  case (Tf_looked r)
  then show ?thesis by (cases r) (auto intro: tf_step.intros)
qed (auto intro: tf_step.intros)

lemma tf_progress:
  assumes inv: "tf_inv args s" and i: "\<not> tf_ended (tf_pcs s i)"
  shows "\<exists>s'. tf_step args s s'"
proof (cases "tf_lock s")
  case (Some j)
  then have "tf_inside (tf_pcs s j)" using inv by (simp add: tf_inv_def)
  then show ?thesis by (rule tf_inside_moves)
next
  case None
  then have "\<not> tf_inside (tf_pcs s i)" using inv by (simp add: tf_inv_def)
  then show ?thesis
    using None i
    by (cases "tf_pcs s i"; cases "buildTables (fst (args i)) (snd (args i))")
      (auto simp: tf_ended_def intro: tf_step.intros)
qed

section \<open>One caller alone\<close>

text \<open>Run without interruption, the steps of a caller are the function \<open>tablesFor\<close>.\<close>

lemma tf_alone:
  assumes "tablesFor cache (fst (args i)) (snd (args i)) = Some (t, cache')"
  shows "\<exists>s. tf_reachable args cache s \<and> tf_pcs s i = Tf_return t \<and> tf_entries s = cache' \<and> tf_lock s = None"
proof -
  define s1 where "s1 = tf_at ((tf_init cache)\<lparr>tf_lock := Some i\<rparr>) i Tf_lookup"
  define s2 where "s2 = tf_at s1 i (Tf_looked (cache (args i)))"
  have s1: "tf_step args (tf_init cache) s1"
    unfolding s1_def by (rule lock_lookup) (simp_all add: tf_init_def)
  have s2: "tf_step args s1 s2"
    using lookup [of s1 i args] by (simp add: s1_def s2_def tf_at_def tf_init_def)
  show ?thesis
  proof (cases "cache (args i)")
    case (Some u)
    define s3 where "s3 = tf_at (s2\<lparr>tf_lock := None\<rparr>) i (Tf_return u)"
    have s3: "tf_step args s2 s3" unfolding s3_def by (rule unlock_hit) (simp add: s2_def tf_at_def Some)
    have "t = u" "cache' = cache" using assms Some by (simp_all add: tablesFor_def)
    then show ?thesis using s1 s2 s3 unfolding tf_reachable_def
      by (intro exI [of _ s3]) (auto simp: s3_def s2_def s1_def tf_at_def tf_init_def)
  next
    case None
    then have b: "buildTables (fst (args i)) (snd (args i)) = Some t" "cache' = cache(args i \<mapsto> t)"
      using assms by (auto simp: tablesFor_def split: bind_splits)
    define s3 where "s3 = tf_at (s2\<lparr>tf_lock := None\<rparr>) i Tf_build"
    define s4 where "s4 = tf_at s3 i (Tf_built t)"
    define s5 where "s5 = tf_at (s4\<lparr>tf_lock := Some i\<rparr>) i (Tf_store t)"
    define s6 where "s6 = tf_at (s5\<lparr>tf_entries := (tf_entries s5)(args i \<mapsto> t)\<rparr>) i (Tf_stored t)"
    define s7 where "s7 = tf_at (s6\<lparr>tf_lock := None\<rparr>) i (Tf_return t)"
    note defs = s7_def s6_def s5_def s4_def s3_def s2_def s1_def tf_at_def tf_init_def
    have "tf_step args s2 s3" unfolding s3_def by (rule unlock_miss) (simp add: s2_def tf_at_def None)
    moreover have "tf_step args s3 s4" unfolding s4_def by (rule build) (simp_all add: s3_def tf_at_def b(1))
    moreover have "tf_step args s4 s5" unfolding s5_def by (rule lock_store) (simp_all add: s4_def s3_def tf_at_def)
    moreover have "tf_step args s5 s6" unfolding s6_def by (rule store) (simp add: s5_def tf_at_def)
    moreover have "tf_step args s6 s7" unfolding s7_def by (rule unlock_stored) (simp add: s6_def tf_at_def)
    ultimately have "tf_reachable args cache s7" using s1 s2 unfolding tf_reachable_def by simp
    then show ?thesis using b(2) by (intro exI [of _ s7]) (simp add: defs)
  qed
qed

section \<open>Properties\<close>

text \<open>C10: Whatever the interleaving of any number of callers of \<open>tablesFor\<close>: at most one of them is between
  \<open>Lock\<close> and \<open>Unlock\<close>, every caller that has returned has the tables that \<open>buildTables\<close> gives for its own
  polynomial and window size, the cache stays consistent, and as long as a caller has not ended some step is
  possible, so there is no deadlock.\<close>

theorem tablesFor_concurrent:
  assumes "cache_ok cache" and "tf_reachable args cache s"
  shows "(\<forall>i j. tf_inside (tf_pcs s i) \<and> tf_inside (tf_pcs s j) \<longrightarrow> i = j) \<and>
    (\<forall>i t. tf_pcs s i = Tf_return t \<longrightarrow> buildTables (fst (args i)) (snd (args i)) = Some t) \<and>
    cache_ok (tf_entries s) \<and>
    (\<forall>i. tf_ended (tf_pcs s i) \<or> (\<exists>s'. tf_step args s s'))"
proof -
  note inv = tf_inv_reachable [OF assms]
  have "buildTables (fst (args i)) (snd (args i)) = Some t" if "tf_pcs s i = Tf_return t" for i t
    using inv that unfolding tf_inv_def tf_tables_def by (metis tf_hand.simps(5))
  moreover have "cache_ok (tf_entries s)" using inv by (auto simp: tf_inv_def cache_ok_def tf_tables_def)
  moreover have "i = j" if "tf_inside (tf_pcs s i) \<and> tf_inside (tf_pcs s j)" for i j
    using that unfolding tf_invD(1) [OF inv] by (metis option.inject)
  ultimately show ?thesis using tf_progress [OF inv] by blast
qed

theorem tablesFor_concurrent_witness:
  "\<exists>s t. tf_reachable (\<lambda>_. (283, 4)) Map.empty s \<and> tf_pcs s 1 = Tf_return t \<and> buildTables 283 4 = Some t \<and>
     cache_ok (tf_entries s)"
proof -
  obtain t where "buildTables 283 4 = Some t" using buildTables_ok [OF good_pol_283] by blast
  then have "tablesFor Map.empty (fst (283, 4)) (snd (283 :: Pol, 4 :: nat)) = Some (t, Map.empty((283, 4) \<mapsto> t))"
    by (simp add: tablesFor_def)
  then obtain s where s: "tf_reachable (\<lambda>_. (283, 4)) Map.empty s" "tf_pcs s 1 = Tf_return t"
    using tf_alone [of Map.empty "\<lambda>_. (283, 4)" 1 t "Map.empty((283, 4) \<mapsto> t)"] by auto
  show ?thesis using tablesFor_concurrent [OF cache_ok_empty s(1)] s by auto
qed

end
