(* ===== verification/Pol_Text.thy ===== *)
theory Pol_Text
  imports Polynomials
begin

text \<open>
  The texts of a polynomial in rabinkarp64/polynomials.go: \<open>String\<close> writes the coefficients in base 16,
  \<open>Expand\<close> the powers of \<open>x\<close>. The lemmas read both texts back.
\<close>

section \<open>String\<close>

text \<open>\<open>strconv.FormatUint(x, 16)\<close>: the digits of a number, most significant first,
  \<open>'0'\<close> to \<open>'9'\<close> (48 to 57) and \<open>'a'\<close> to \<open>'f'\<close> (97 to 102).\<close>

definition hex_digit :: "nat \<Rightarrow> char" where
  "hex_digit d = char_of (if d < 10 then 48 + d else 87 + d)"

fun hex_digits :: "nat \<Rightarrow> string" where
  "hex_digits n = (if n < 16 then [hex_digit n] else hex_digits (n div 16) @ [hex_digit (n mod 16)])"

declare hex_digits.simps [simp del]

definition pol_String :: "Pol \<Rightarrow> string" where
  "pol_String x = ''0x'' @ hex_digits (unat x)"

text \<open>Reading the digits back.\<close>

definition digit_value :: "char \<Rightarrow> nat" where
  "digit_value c = (if of_char c < (58 :: nat) then of_char c - 48 else of_char c - 87)"

definition hex_value :: "string \<Rightarrow> nat" where
  "hex_value s = foldl (\<lambda>v c. 16 * v + digit_value c) 0 s"

lemma digit_value_hex: "d < 16 \<Longrightarrow> digit_value (hex_digit d) = d"
  by (simp add: digit_value_def hex_digit_def)

lemma hex_value_digits: "hex_value (hex_digits n) = n"
proof (induction n rule: hex_digits.induct)
  case (1 n)
  then show ?case
    by (cases "n < 16") (simp_all add: hex_digits.simps [of n] hex_value_def digit_value_hex)
qed

lemma pol_String_value: "hex_value (drop 2 (pol_String x)) = unat x"
  by (simp add: pol_String_def hex_value_digits)

section \<open>Expand\<close>

text \<open>\<open>fmt.Sprintf("+x^%d", i)\<close> writes the exponent in base 10.\<close>

fun dec_digits :: "nat \<Rightarrow> string" where
  "dec_digits n = (if n < 10 then [hex_digit n] else dec_digits (n div 10) @ [hex_digit (n mod 10)])"

declare dec_digits.simps [simp del]

function expand_loop :: "Pol \<Rightarrow> int \<Rightarrow> string \<Rightarrow> string" where
  "expand_loop x i s =
     (if 1 < i then expand_loop x (i - 1) (if has_bit x (nat i) then s @ ''+x^'' @ dec_digits (nat i) else s) else s)"
  by pat_completeness auto
termination
  by (relation "measure (\<lambda>(x, i, s). nat i)") auto

declare expand_loop.simps [simp del]

definition pol_Expand :: "Pol \<Rightarrow> string option" where
  "pol_Expand x =
     (if x = 0 then Some ''0''
      else
        let s = expand_loop x (Deg x) '''';
            s = (if 0 < x AND 2 then s @ ''+x'' else s);
            s = (if 0 < x AND 1 then s @ ''+1'' else s)
        in go_slice s 1 (int (length s)))"

text \<open>The text of one power, and the text with a plus before each power.\<close>

definition power_text :: "nat \<Rightarrow> string" where
  "power_text k = (if k = 0 then ''1'' else if k = 1 then ''x'' else ''x^'' @ dec_digits k)"

definition powers :: "Pol \<Rightarrow> nat list" where
  "powers x = filter (bit x) (rev [0..<64])"

definition plus_text :: "nat list \<Rightarrow> string" where
  "plus_text ks = concat (map (\<lambda>k. CHR ''+'' # power_text k) ks)"

lemma plus_text_append [simp]: "plus_text (ks @ ms) = plus_text ks @ plus_text ms"
  by (simp add: plus_text_def)

lemma plus_text_simps [simp]: "plus_text [] = ''''" "plus_text (k # ks) = CHR ''+'' # power_text k @ plus_text ks"
  by (simp_all add: plus_text_def)

lemma expand_loop_text:
  "i \<le> 63 \<Longrightarrow> expand_loop x (int i) s = s @ plus_text (filter (bit x) (rev [2..<Suc i]))"
proof (induction i arbitrary: s)
  case 0
  show ?case by (subst expand_loop.simps) simp
next
  case (Suc i)
  show ?case
  proof (cases "i = 0")
    case True
    then show ?thesis by (subst expand_loop.simps) simp
  next
    case False
    then have "expand_loop x (int (Suc i)) s =
        expand_loop x (int i) (if bit x (Suc i) then s @ ''+x^'' @ dec_digits (Suc i) else s)"
      using Suc.prems by (subst expand_loop.simps) (simp add: has_bit_iff nat_add_distrib)
    moreover have "rev [2..<Suc (Suc i)] = Suc i # rev [2..<Suc i]" using False by simp
    ultimately show ?thesis using Suc False by (simp add: power_text_def del: upt_Suc)
  qed
qed

lemma bit_le_Deg: "bit x i \<Longrightarrow> int i \<le> Deg x"
  using nbits_high [of "unat x" i] by (fastforce simp: Deg_def bit_unsigned_iff not_le dest: bit_imp_le_length)

lemma Deg_le_63: "Deg x \<le> 63"
  using nbits_le_iff [of "unat x" 64] unsigned_less [of x] by (simp add: Deg_def)

lemma powers_split:
  assumes "x \<noteq> 0"
  shows "powers x = filter (bit x) (rev [2..<Suc (nat (Deg x))]) @ (if bit x 1 then [1] else []) @ (if bit x 0 then [0] else [])"
proof -
  define d where "d = nat (Deg x)"
  have "filter (bit x) [Suc d..<64] = []"
    using bit_le_Deg [of x] by (fastforce simp: filter_empty_conv d_def)
  moreover have "filter (bit x) [2..<Suc d] @ filter (bit x) [Suc d..<64] = filter (bit x) [2..<64]" if "1 \<le> d"
    using that Deg_le_63 [of x] by (intro filter_upt_join) (simp_all add: d_def)
  moreover have "filter (bit x) [2..<64] = []" if "d = 0"
    using bit_le_Deg [of x] that by (fastforce simp: filter_empty_conv d_def)
  ultimately have "filter (bit x) [2..<64] = filter (bit x) [2..<Suc d]" by (cases "d = 0") simp_all
  moreover have "[0..<64] = 0 # 1 # [2..<64]" by (simp add: upt_conv_Cons numeral_2_eq_2)
  ultimately have "filter (bit x) [0..<64] =
      (if bit x 0 then [0] else []) @ (if bit x 1 then [1] else []) @ filter (bit x) [2..<Suc d]"
    by simp
  then show ?thesis by (simp add: powers_def rev_filter [symmetric] d_def)
qed

lemma powers_Nil: "powers x = [] \<longleftrightarrow> x = 0"
  by (auto simp: powers_def filter_empty_conv intro!: bit_word_eqI)

lemma pol_Expand_text:
  assumes "x \<noteq> 0"
  shows "pol_Expand x = Some (tl (plus_text (powers x)))"
proof -
  have "0 \<le> Deg x" using assms by (simp add: Deg_def unsigned_eq_0_iff Suc_le_eq unat_gt_0)
  then have "expand_loop x (Deg x) '''' = plus_text (filter (bit x) (rev [2..<Suc (nat (Deg x))]))"
    using expand_loop_text [of "nat (Deg x)" x "''''"] Deg_le_63 [of x] by (simp del: upt_Suc)
  moreover have "0 < x AND 2 \<longleftrightarrow> bit x 1" "0 < x AND 1 \<longleftrightarrow> bit x 0"
    using has_bit_iff [of x 1] has_bit_iff [of x 0] by (simp_all add: has_bit_def)
  ultimately have "pol_Expand x = go_slice (plus_text (powers x)) 1 (int (length (plus_text (powers x))))"
    using assms unfolding pol_Expand_def powers_split [OF assms]
    by (simp add: Let_def power_text_def add.commute del: upt_Suc)
  moreover have "plus_text (powers x) \<noteq> ''''" using assms powers_Nil [of x] by (cases "powers x") simp_all
  ultimately show ?thesis by (cases "plus_text (powers x)") (simp_all add: go_slice_def)
qed

text \<open>Reading the text back: split at the plus signs, and add the powers of two.\<close>

fun split_plus :: "string \<Rightarrow> string list" where
  "split_plus '''' = ['''']"
| "split_plus (c # cs) = (if c = CHR ''+'' then '''' # split_plus cs else (c # hd (split_plus cs)) # tl (split_plus cs))"

definition dec_value :: "string \<Rightarrow> nat" where
  "dec_value s = foldl (\<lambda>v c. 10 * v + digit_value c) 0 s"

definition power_value :: "string \<Rightarrow> nat" where
  "power_value t = (if t = ''1'' then 1 else if t = ''x'' then 2 else 2 ^ dec_value (drop 2 t))"

definition expand_value :: "string \<Rightarrow> nat" where
  "expand_value s = (if s = ''0'' then 0 else sum_list (map power_value (split_plus s)))"

lemma dec_value_digits: "dec_value (dec_digits n) = n"
proof (induction n rule: dec_digits.induct)
  case (1 n)
  then show ?case
    by (cases "n < 10") (simp_all add: dec_digits.simps [of n] dec_value_def digit_value_hex)
qed

lemma hex_digit_plus: "d < 16 \<Longrightarrow> hex_digit d \<noteq> CHR ''+''"
proof
  assume "d < 16" "hex_digit d = CHR ''+''"
  then have "of_char (hex_digit d) = (43 :: nat)" by simp
  then show False using \<open>d < 16\<close> by (auto simp: hex_digit_def split: if_splits)
qed

lemma dec_digits_no_plus: "CHR ''+'' \<notin> set (dec_digits n)"
proof (induction n rule: dec_digits.induct)
  case (1 n)
  have "hex_digit d \<noteq> CHR ''+''" if "d < 10" for d using hex_digit_plus that by simp
  then show ?case using 1 by (cases "n < 10") (auto simp: dec_digits.simps [of n] dest: sym)
qed

lemma power_text_no_plus: "CHR ''+'' \<notin> set (power_text k)"
  using dec_digits_no_plus by (simp add: power_text_def)

lemma power_value_text: "power_value (power_text k) = 2 ^ k"
  by (simp add: power_value_def power_text_def dec_value_digits)

lemma split_plus_word: "CHR ''+'' \<notin> set t \<Longrightarrow> split_plus t = [t]"
  by (induction t) auto

lemma split_plus_append: "CHR ''+'' \<notin> set t \<Longrightarrow> split_plus (t @ CHR ''+'' # u) = t # split_plus u"
  by (induction t) auto

lemma split_plus_text: "ks \<noteq> [] \<Longrightarrow> split_plus (tl (plus_text ks)) = map power_text ks"
proof (induction ks rule: induct_list012)
  case (2 k)
  then show ?case by (simp add: split_plus_word power_text_no_plus)
next
  case (3 k m ks)
  then show ?case by (simp add: split_plus_append power_text_no_plus)
qed simp

lemma sum_powers: "sum_list (map (\<lambda>k. 2 ^ k) (powers x)) = unat x"
proof -
  have "sum_list (map (\<lambda>k. 2 ^ k) (filter P [0..<n])) = (\<Sum>k = 0..<n. push_bit k (of_bool (P k)))" for P and n :: nat
    by (induction n) (auto simp: push_bit_eq_mult)
  then have "sum_list (map (\<lambda>k. 2 ^ k) (filter (bit x) [0..<64])) = (\<Sum>k = 0..<64. push_bit k (of_bool (bit (unat x) k)) :: nat)"
    by (simp add: bit_unsigned_iff cong: sum.cong)
  also have "\<dots> = take_bit 64 (unat x)" by (simp add: take_bit_sum)
  also have "\<dots> = unat x" by (rule take_bit_nat_eq_self) (use unsigned_less [of x, where 'a = nat] in simp)
  finally show ?thesis by (simp add: powers_def rev_filter [symmetric] rev_map [symmetric])
qed

lemma pol_Expand_value: "\<exists>s. pol_Expand x = Some s \<and> expand_value s = unat x"
proof (cases "x = 0")
  case True
  then show ?thesis by (simp add: pol_Expand_def expand_value_def)
next
  case False
  obtain k ks where ks: "powers x = k # ks" using False powers_Nil [of x] by (cases "powers x") auto
  have split: "split_plus (tl (plus_text (powers x))) = map power_text (powers x)"
    by (rule split_plus_text) (simp add: ks)
  have "hd (power_text k) \<noteq> CHR ''0''" by (simp add: power_text_def)
  then have "tl (plus_text (powers x)) \<noteq> ''0''" by (auto simp: ks power_text_def split: if_splits)
  then show ?thesis
    using pol_Expand_text [OF False] sum_powers [of x]
    by (simp add: expand_value_def split comp_def power_value_text)
qed

section \<open>Properties\<close>

text \<open>C40: The texts of a polynomial lose nothing: \<open>Expand\<close> never panics and names exactly the powers with a
  coefficient, from the highest down, so that adding them up gives the polynomial again; \<open>String\<close> is the
  prefix \<open>0x\<close> and digits that give it in base 16.\<close>

theorem Pol_text_roundtrip:
  "\<exists>s. pol_Expand x = Some s \<and> s = (if x = 0 then ''0'' else tl (plus_text (powers x))) \<and> expand_value s = unat x \<and>
    take 2 (pol_String x) = ''0x'' \<and> hex_value (drop 2 (pol_String x)) = unat x"
  using pol_Expand_value [of x] pol_Expand_text [of x] pol_String_value [of x]
  by (auto simp: pol_Expand_def pol_String_def)

end
