(* ===== verification/Chunk_Spec.thy ===== *)
theory Chunk_Spec
  imports Go_Prelude
begin

text \<open>
  What content-defined chunking promises (the comments of \<open>chunker\<close>, \<open>Chunker\<close> and
  \<open>WithBoundaries\<close>), as a function of the whole stream. \<open>ref_cut\<close> finds the end of the chunk that
  starts at a given offset: the first byte in range whose window satisfies the mask, or else the
  byte at the maximal length, or else the last byte. \<open>ref_chunks\<close> cuts the whole stream. The
  streaming code of chunker.go is proved to give exactly these chunks.
\<close>

section \<open>The specification\<close>

text \<open>The parameters of a chunking: the checksum of a window, and the arguments of \<open>NewChunker\<close>.\<close>

record chunk_spec =
  sp_sum :: "byte list \<Rightarrow> u64"
  sp_window :: int
  sp_mask :: u64
  sp_min :: int
  sp_max :: int

text \<open>The checksum of the window that ends at byte \<open>e\<close>, 0 when the stream has too few bytes.\<close>

definition sum_at :: "chunk_spec \<Rightarrow> byte list \<Rightarrow> int \<Rightarrow> u64" where
  "sum_at X P e =
     (if sp_window X - 1 \<le> e
      then sp_sum X (window_at (nat (sp_window X)) P (nat (e - sp_window X + 1))) else 0)"

definition hit :: "chunk_spec \<Rightarrow> byte list \<Rightarrow> int \<Rightarrow> bool" where
  "hit X P e \<longleftrightarrow> sp_window X - 1 \<le> e \<and> e < int (length P) \<and> sum_at X P e AND sp_mask X = 0"

text \<open>The first byte at which the chunk from \<open>s\<close> may be cut by the mask.\<close>

definition first_cut :: "chunk_spec \<Rightarrow> int \<Rightarrow> int" where
  "first_cut X s = max s (s + sp_min X - 1)"

definition ref_cut :: "chunk_spec \<Rightarrow> byte list \<Rightarrow> int \<Rightarrow> int \<times> bool" where
  "ref_cut X P s =
     (case filter (hit X P) [first_cut X s .. min (int (length P)) (s + sp_max X) - 1] of
        e # _ \<Rightarrow> (e, True)
      | [] \<Rightarrow> (min (int (length P)) (s + sp_max X) - 1, False))"

record chunk =
  ch_offset :: int
  ch_bytes :: "byte list"
  ch_contentDefined :: bool
  ch_sum :: u64

definition cut_chunk :: "chunk_spec \<Rightarrow> byte list \<Rightarrow> int \<Rightarrow> int \<Rightarrow> bool \<Rightarrow> chunk" where
  "cut_chunk X P s e cd =
     \<lparr>ch_offset = s, ch_bytes = take (nat (e - s + 1)) (drop (nat s) P),
      ch_contentDefined = cd, ch_sum = sum_at X P e\<rparr>"

lemma ref_cut_cases:
  obtains (hit) e where "ref_cut X P s = (e, True)" "hit X P e" "first_cut X s \<le> e" "e < s + sp_max X"
      "\<And>i. first_cut X s \<le> i \<Longrightarrow> i < e \<Longrightarrow> \<not> hit X P i"
    | (none) "ref_cut X P s = (min (int (length P)) (s + sp_max X) - 1, False)"
      "\<And>i. first_cut X s \<le> i \<Longrightarrow> i < s + sp_max X \<Longrightarrow> \<not> hit X P i"
proof (cases "filter (hit X P) [first_cut X s .. min (int (length P)) (s + sp_max X) - 1]")
  case Nil
  then have "\<not> hit X P i" if "first_cut X s \<le> i" "i < s + sp_max X" for i
    using that by (auto simp: filter_empty_conv hit_def)
  moreover have "ref_cut X P s = (min (int (length P)) (s + sp_max X) - 1, False)"
    unfolding ref_cut_def Nil by simp
  ultimately show ?thesis using none by blast
next
  case (Cons e es)
  define l where "l = [first_cut X s .. min (int (length P)) (s + sp_max X) - 1]"
  have e: "e \<in> set (filter (hit X P) l)" using Cons by (simp add: l_def)
  have "sorted (filter (hit X P) l)"
    unfolding l_def by (intro sorted_wrt_filter) simp
  then have srt: "\<And>i. i \<in> set es \<Longrightarrow> e \<le> i" using Cons by (simp add: l_def)
  have least: "e \<le> i" if "i \<in> set l" "hit X P i" for i
  proof -
    have "i \<in> set (filter (hit X P) l)" using that by simp
    then have "i \<in> set (e # es)" using Cons by (simp only: l_def)
    then show ?thesis using srt by auto
  qed
  have "\<not> hit X P i" if "first_cut X s \<le> i" "i < e" for i
    using least [of i] that e by (auto simp: l_def)
  moreover have "ref_cut X P s = (e, True)"
    unfolding ref_cut_def Cons by simp
  ultimately show ?thesis using hit e by (auto simp: l_def)
qed

lemma ref_cut_hit:
  assumes "hit X P e" "first_cut X s \<le> e" "e < s + sp_max X"
    and "\<And>i. first_cut X s \<le> i \<Longrightarrow> i < e \<Longrightarrow> \<not> hit X P i"
  shows "ref_cut X P s = (e, True)"
proof (cases rule: ref_cut_cases [where X = X and P = P and s = s])
  case (hit e')
  then have "e' = e"
    using assms by (meson linorder_neqE_linordered_idom)
  then show ?thesis using hit by simp
next
  case none
  then show ?thesis using assms by blast
qed

lemma ref_cut_none:
  assumes "\<And>i. first_cut X s \<le> i \<Longrightarrow> i < s + sp_max X \<Longrightarrow> \<not> hit X P i"
  shows "ref_cut X P s = (min (int (length P)) (s + sp_max X) - 1, False)"
  by (cases rule: ref_cut_cases [where X = X and P = P and s = s]) (use assms in auto)

text \<open>A chunk is not empty and stays inside the stream and below the maximum.\<close>

lemma ref_cut_bounds:
  assumes "ref_cut X P s = (e, cd)" and "s < int (length P)" and "1 \<le> sp_max X"
  shows "s \<le> e" and "e < int (length P)" and "e < s + sp_max X"
proof -
  have "s \<le> e \<and> e < int (length P) \<and> e < s + sp_max X"
    by (cases rule: ref_cut_cases [where X = X and P = P and s = s]) (use assms in \<open>auto simp: first_cut_def hit_def\<close>)
  then show "s \<le> e" and "e < int (length P)" and "e < s + sp_max X" by auto
qed

lemma ref_cut_iff:
  "ref_cut X P s = (e, True) \<longleftrightarrow>
     hit X P e \<and> first_cut X s \<le> e \<and> e < s + sp_max X \<and> (\<forall>i. first_cut X s \<le> i \<and> i < e \<longrightarrow> \<not> hit X P i)"
    (is "?L \<longleftrightarrow> ?R")
proof
  assume ?L
  then show ?R by (cases rule: ref_cut_cases [where X = X and P = P and s = s]) auto
qed (auto intro: ref_cut_hit)

function ref_chunks :: "chunk_spec \<Rightarrow> byte list \<Rightarrow> int \<Rightarrow> chunk list" where
  "ref_chunks X P s =
     (if s < int (length P) \<and> 1 \<le> sp_max X then
        let (e, cd) = ref_cut X P s in cut_chunk X P s e cd # ref_chunks X P (e + 1)
      else [])"
  by pat_completeness auto
termination
proof (relation "measure (\<lambda>(X, P, s). nat (int (length P) - s))")
  fix X :: chunk_spec and P :: "byte list" and s e :: int and c cd
  assume a: "s < int (length P) \<and> 1 \<le> sp_max X" and c: "c = ref_cut X P s" "(e, cd) = c"
  have "ref_cut X P s = (e, cd)" using c by simp
  then have "s \<le> e" using a ref_cut_bounds(1) by blast
  then show "((X, P, e + 1), X, P, s) \<in> measure (\<lambda>(X, P, s). nat (int (length P) - s))"
    using a by simp
qed simp

declare ref_chunks.simps [simp del]

lemma ref_chunks_step:
  assumes "ref_cut X P s = (e, cd)" and "s < int (length P)" and "1 \<le> sp_max X"
  shows "ref_chunks X P s = cut_chunk X P s e cd # ref_chunks X P (e + 1)"
  using assms by (subst ref_chunks.simps) simp

lemma ref_chunks_end: "int (length P) \<le> s \<Longrightarrow> ref_chunks X P s = []"
  by (subst ref_chunks.simps) simp

text \<open>Bytes that arrive later do not change what is known about the bytes before them.\<close>

lemma sum_at_append: "e < int (length P) \<Longrightarrow> 1 \<le> sp_window X \<Longrightarrow> sum_at X (P @ Q) e = sum_at X P e"
  by (auto simp: sum_at_def window_at_append)

lemma hit_append: "e < int (length P) \<Longrightarrow> 1 \<le> sp_window X \<Longrightarrow> hit X (P @ Q) e = hit X P e"
  by (simp add: hit_def sum_at_append)

lemma cut_chunk_append:
  assumes "0 \<le> s" "e < int (length P)" and "1 \<le> sp_window X"
  shows "cut_chunk X (P @ Q) s e cd = cut_chunk X P s e cd"
  using assms by (auto simp: cut_chunk_def sum_at_append)

section \<open>Properties of the specification\<close>

text \<open>Every list that \<open>ref_chunks\<close> gives, by induction over its steps.\<close>

lemma ref_chunks_concat:
  "0 \<le> s \<Longrightarrow> 1 \<le> sp_max X \<Longrightarrow> concat (map ch_bytes (ref_chunks X P s)) = drop (nat s) P"
proof (induction X P s rule: ref_chunks.induct)
  case (1 X P s)
  show ?case
  proof (cases "s < int (length P)")
    case False
    then show ?thesis by (simp add: ref_chunks_end)
  next
    case True
    obtain e cd where c: "ref_cut X P s = (e, cd)" by fastforce
    note b = ref_cut_bounds [OF c True 1(3)]
    have "concat (map ch_bytes (ref_chunks X P (e + 1))) = drop (nat (e + 1)) P"
      using 1(1) [of "(e, cd)" e cd] c True 1(2,3) b by simp
    then have "concat (map ch_bytes (ref_chunks X P s)) =
        take (nat (e - s + 1)) (drop (nat s) P) @ drop (nat (e + 1)) P"
      using ref_chunks_step [OF c True 1(3)] by (simp add: cut_chunk_def)
    also have "nat (e + 1) = nat (e - s + 1) + nat s" using b 1(2) by simp
    also have "take (nat (e - s + 1)) (drop (nat s) P) @ drop (nat (e - s + 1) + nat s) P = drop (nat s) P"
      using append_take_drop_id [of "nat (e - s + 1)" "drop (nat s) P"] by (simp only: drop_drop)
    finally show ?thesis .
  qed
qed

end
