(* ===== verification/Chunker_Core.thy ===== *)
theory Chunker_Core
  imports Hash_Iface Chunk_Spec
begin

text \<open>
  chunker.go, the part that does not depend on how bytes arrive: \<open>chunkerCore\<close> is the struct of
  the same name. \<open>cc_H\<close> and \<open>cc_h\<close> are the hash \<open>h\<close> (its method table and its value),
  \<open>cc_cbuf\<close> is the live part of the byte accumulator, \<open>cc_la\<close> and \<open>cc_lb\<close> are the boundary
  buffers up to their capacity. Global stream offsets are Go ints (\<open>int\<close> with \<open>wrap_int\<close> where a
  caller's parameter is added). A panic, or a call that does not return, is \<open>None\<close>. A chunk is
  modelled by its bytes when it is handed out; it aliases the accumulator and is only valid until
  the next call.
\<close>

section \<open>State\<close>

text \<open>The result of one attempt to advance.\<close>

datatype coreState = needMore | emitted | coreDone

record 'd chunkerCore =
  cc_H :: "'d hash_iface"
  cc_h :: 'd
  cc_brd :: "'d batch_boundaries"
  cc_sum :: "'d \<Rightarrow> u64"
  cc_window :: int
  cc_mask :: u64
  cc_min :: int
  cc_max :: int
  cc_la :: "i32 list"
  cc_lb :: "i32 list"
  cc_batchSize :: int
  cc_cbuf :: "byte list"
  cc_cbufBase :: int
  cc_chunkStart :: int
  cc_consumed :: int
  cc_bounds :: "int list"
  cc_bcur :: nat
  cc_hashedTo :: int
  cc_eof :: bool
  cc_done :: bool
  cc_err :: "gerror option"
  cc_chunk :: "byte list option"
  cc_sumv :: u64
  cc_contentDefined :: bool
  cc_offset :: int

definition chunkerBatchSize :: int where
  "chunkerBatchSize = 16384"

text \<open>Panics when the hash does not implement \<open>BatchBoundaries\<close>.\<close>

definition newChunkerCore :: "'d hash_iface \<Rightarrow> 'd \<Rightarrow> int \<Rightarrow> u64 \<Rightarrow> int \<Rightarrow> int \<Rightarrow> 'd chunkerCore option" where
  "newChunkerCore H h window msk mn mx = do {
     brd \<leftarrow> h_BatchBoundaries H;
     Some \<lparr>cc_H = H, cc_h = h, cc_brd = brd, cc_sum = core_sum H, cc_window = window, cc_mask = msk,
           cc_min = mn, cc_max = mx, cc_la = [], cc_lb = [], cc_batchSize = chunkerBatchSize,
           cc_cbuf = [], cc_cbufBase = 0, cc_chunkStart = 0, cc_consumed = 0, cc_bounds = [],
           cc_bcur = 0, cc_hashedTo = 0, cc_eof = False, cc_done = False, cc_err = None,
           cc_chunk = None, cc_sumv = 0, cc_contentDefined = False, cc_offset = 0\<rparr>
   }"

text \<open>The functional options.\<close>

definition WithBoundaries :: "int \<Rightarrow> int \<Rightarrow> 'd chunkerCore \<Rightarrow> 'd chunkerCore" where
  "WithBoundaries mn mx c = c\<lparr>cc_min := mn, cc_max := mx\<rparr>"

definition WithBatchSize :: "int \<Rightarrow> 'd chunkerCore \<Rightarrow> 'd chunkerCore" where
  "WithBatchSize n c = c\<lparr>cc_batchSize := n\<rparr>"

definition core_reset :: "'d chunkerCore \<Rightarrow> 'd chunkerCore" where
  "core_reset c = c\<lparr>cc_cbuf := [], cc_cbufBase := 0, cc_chunkStart := 0, cc_consumed := 0,
     cc_bounds := [], cc_bcur := 0, cc_hashedTo := 0, cc_eof := False, cc_done := False,
     cc_err := None, cc_chunk := None, cc_sumv := 0, cc_contentDefined := False, cc_offset := 0\<rparr>"

definition core_finish :: "'d chunkerCore \<Rightarrow> 'd chunkerCore" where
  "core_finish c = c\<lparr>cc_eof := True\<rparr>"

section \<open>Bytes in\<close>

definition skipPreMin :: "'d chunkerCore \<Rightarrow> 'd chunkerCore" where
  "skipPreMin c =
     (let skip = wrap_int (cc_chunkStart c + cc_min c - 1)
      in if skip > cc_hashedTo c then c\<lparr>cc_hashedTo := skip\<rparr> else c)"

definition core_compact :: "'d chunkerCore \<Rightarrow> 'd chunkerCore option" where
  "core_compact c =
     (let c = skipPreMin c;
          keepFrom = max (min (cc_chunkStart c) (cc_hashedTo c) - (cc_window c - 1)) 0;
          dropped = keepFrom - cc_cbufBase c in do {
        c \<leftarrow> (if dropped > 0 then do {
                kept \<leftarrow> go_slice (cc_cbuf c) dropped (int (length (cc_cbuf c)));
                Some (c\<lparr>cc_cbuf := kept, cc_cbufBase := keepFrom\<rparr>)
              } else Some c);
        if cc_bcur c > 0 then do {
          rest \<leftarrow> go_slice (cc_bounds c) (int (cc_bcur c)) (int (length (cc_bounds c)));
          Some (c\<lparr>cc_bounds := rest, cc_bcur := 0\<rparr>)
        } else Some c
      })"

definition core_feed :: "'d chunkerCore \<Rightarrow> byte list \<Rightarrow> 'd chunkerCore option" where
  "core_feed c newBytes = do {
     c \<leftarrow> core_compact c;
     Some (c\<lparr>cc_cbuf := cc_cbuf c @ newBytes, cc_consumed := cc_consumed c + int (length newBytes)\<rparr>)
   }"

text \<open>\<open>readTail(n)\<close> makes room for \<open>n\<close> bytes after \<open>cbuf\<close>; \<open>commitTail\<close> makes the filled part of
  that room live. The caller reads \<open>got\<close> in between.\<close>

definition core_readTail :: "'d chunkerCore \<Rightarrow> int \<Rightarrow> 'd chunkerCore option" where
  "core_readTail c n = do {
     c \<leftarrow> core_compact c;
     if n < 0 then None else Some c
   }"

definition core_commitTail :: "'d chunkerCore \<Rightarrow> byte list \<Rightarrow> 'd chunkerCore" where
  "core_commitTail c got =
     c\<lparr>cc_cbuf := cc_cbuf c @ got, cc_consumed := cc_consumed c + int (length got)\<rparr>"

section \<open>Boundaries\<close>

text \<open>\<open>for _, g := range c.la[:na] { c.bounds = append(c.bounds, bufStart+int(g)+w-1) }\<close>\<close>

definition add_bounds :: "int \<Rightarrow> int \<Rightarrow> i32 list \<Rightarrow> int list" where
  "add_bounds bufStart w gs = map (\<lambda>g. bufStart + sint g + w - 1) gs"

definition hashForward :: "'d chunkerCore \<Rightarrow> (bool \<times> 'd chunkerCore) option" where
  "hashForward c =
     (let w = cc_window c; c = skipPreMin c in
      if cc_hashedTo c \<ge> cc_consumed c then Some (False, c)
      else
        let lead = min (w - 1) (cc_hashedTo c - cc_cbufBase c);
            bufStart = cc_hashedTo c - lead;
            hashEnd = min (wrap_int (cc_hashedTo c + cc_batchSize c)) (cc_consumed c) in do {
          buf \<leftarrow> go_slice (cc_cbuf c) (bufStart - cc_cbufBase c) (hashEnd - cc_cbufBase c);
          if int (length buf) < w then Some (False, c)
          else
            let need = nat (int (length buf) - w + 1);
                c = (if length (cc_la c) < need
                     then c\<lparr>cc_la := replicate need 0, cc_lb := replicate need 0\<rparr> else c) in do {
              (la, lb, na, nb) \<leftarrow>
                cc_brd c (cc_h c) (take need (cc_la c)) (take need (cc_lb c)) buf w (cc_mask c);
              hitsA \<leftarrow> go_slice la 0 (int na);
              hitsB \<leftarrow> go_slice lb 0 (int nb);
              Some (True, c\<lparr>cc_la := la @ drop need (cc_la c), cc_lb := lb @ drop need (cc_lb c),
                            cc_bounds := cc_bounds c @ add_bounds bufStart w hitsA @ add_bounds bufStart w hitsB,
                            cc_hashedTo := hashEnd\<rparr>)
            }
        })"

text \<open>The loop \<open>for c.hashedTo < hashLimit { ... }\<close> of \<open>next\<close>.\<close>

partial_function (option) hash_until :: "int \<Rightarrow> int \<Rightarrow> 'd chunkerCore \<Rightarrow> 'd chunkerCore option" where
  "hash_until hashLimit minByte c =
     (if cc_hashedTo c < hashLimit then
        if cc_bounds c \<noteq> [] \<and> minByte \<le> last (cc_bounds c) then Some c
        else do {
          (progress, c) \<leftarrow> hashForward c;
          if progress then hash_until hashLimit minByte c else Some c
        }
      else Some c)"

declare hash_until.simps [code]

text \<open>The scan of the queued boundaries: the new cursor and the boundary to cut at, if any.\<close>

function scan_bounds :: "int list \<Rightarrow> nat \<Rightarrow> int \<Rightarrow> int \<Rightarrow> nat \<times> int option" where
  "scan_bounds bounds bcur minByte maxByte =
     (if bcur < length bounds then
        let e = bounds ! bcur in
        if e < minByte then scan_bounds bounds (bcur + 1) minByte maxByte
        else if e \<le> maxByte then (bcur + 1, Some e)
        else (bcur, None)
      else (bcur, None))"
  by pat_completeness auto
termination
  by (relation "measure (\<lambda>(bounds, bcur, minByte, maxByte). length bounds - bcur)") auto

declare scan_bounds.simps [simp del]

section \<open>Chunks out\<close>

definition windowSum :: "'d chunkerCore \<Rightarrow> int \<Rightarrow> (u64 \<times> 'd chunkerCore) option" where
  "windowSum c e =
     (let start = e - cc_window c + 1 in
      if start < cc_cbufBase c then Some (0, c)
      else
        let off = start - cc_cbufBase c in do {
          h \<leftarrow> h_Reset (cc_H c) (cc_h c);
          win \<leftarrow> go_slice (cc_cbuf c) off (off + cc_window c);
          h \<leftarrow> h_Write (cc_H c) h win;
          Some (cc_sum c h, c\<lparr>cc_h := h\<rparr>)
        })"

definition core_emit :: "'d chunkerCore \<Rightarrow> int \<Rightarrow> bool \<Rightarrow> 'd chunkerCore option" where
  "core_emit c e contentDefined =
     (let lo = cc_chunkStart c - cc_cbufBase c in do {
        chunk \<leftarrow> go_slice (cc_cbuf c) lo (lo + (e - cc_chunkStart c + 1));
        let c = c\<lparr>cc_chunk := Some chunk, cc_offset := cc_chunkStart c\<rparr>;
        (sumv, c) \<leftarrow> windowSum c e;
        Some (c\<lparr>cc_sumv := sumv, cc_contentDefined := contentDefined, cc_chunkStart := e + 1\<rparr>)
      })"

definition no_chunk :: "'d chunkerCore \<Rightarrow> 'd chunkerCore" where
  "no_chunk c = c\<lparr>cc_chunk := None, cc_sumv := 0, cc_contentDefined := False, cc_offset := 0\<rparr>"

definition core_next :: "'d chunkerCore \<Rightarrow> (coreState \<times> 'd chunkerCore) option" where
  "core_next c =
     (if cc_err c \<noteq> None \<or> cc_done c then Some (coreDone, no_chunk c)
      else
        let minByte = wrap_int (cc_chunkStart c + cc_min c - 1);
            maxByte = (if cc_max c = MaxInt then MaxInt else wrap_int (cc_chunkStart c + cc_max c - 1));
            hashLimit = (if maxByte \<noteq> MaxInt then maxByte + 1 else maxByte) in do {
          c \<leftarrow> hash_until hashLimit minByte c;
          let (bcur, cut) = scan_bounds (cc_bounds c) (cc_bcur c) minByte maxByte;
          let c = c\<lparr>cc_bcur := bcur\<rparr>;
          case cut of
            Some e \<Rightarrow> do { c \<leftarrow> core_emit c e True; Some (emitted, c) }
          | None \<Rightarrow>
              if cc_consumed c - 1 \<ge> maxByte then do { c \<leftarrow> core_emit c maxByte False; Some (emitted, c) }
              else if cc_eof c then
                if cc_chunkStart c < cc_consumed c then do {
                  c \<leftarrow> core_emit (c\<lparr>cc_done := True\<rparr>) (cc_consumed c - 1) False;
                  Some (emitted, c)
                } else Some (coreDone, no_chunk (c\<lparr>cc_done := True\<rparr>))
              else Some (needMore, c)
        })"

section \<open>Accessors\<close>

text \<open>What a client reads of the current chunk; \<open>Bytes\<close> is nil when there is none.\<close>

definition core_Bytes :: "'d chunkerCore \<Rightarrow> byte list option" where
  [simp]: "core_Bytes c = cc_chunk c"

definition core_Sum :: "'d chunkerCore \<Rightarrow> u64" where
  [simp]: "core_Sum c = cc_sumv c"

definition core_ContentDefined :: "'d chunkerCore \<Rightarrow> bool" where
  [simp]: "core_ContentDefined c = cc_contentDefined c"

definition core_Err :: "'d chunkerCore \<Rightarrow> gerror option" where
  [simp]: "core_Err c = cc_err c"

definition core_Offset :: "'d chunkerCore \<Rightarrow> int" where
  [simp]: "core_Offset c = cc_offset c"

definition core_WindowSize :: "'d chunkerCore \<Rightarrow> int" where
  [simp]: "core_WindowSize c = cc_window c"

end
