(* ===== verification/Batch_Core.thy ===== *)
theory Batch_Core
  imports Hash_Iface Chunker_Core
begin

text \<open>
  batchroller.go, the part that does not depend on how bytes arrive: \<open>batchRollerCore\<close> is the struct
  of the same name, which turns the bytes it is fed into batches of consecutive checksums. \<open>bc_h\<close> and
  \<open>bc_br\<close> are the hash behind the interface value \<open>br\<close>, \<open>bc_sumsStore\<close> is its array up to the
  capacity. \<open>Bytes\<close> and \<open>Sums\<close> alias the buffers and are modelled by their contents when a batch is
  handed out. The lemmas show that the batches cover every window of the stream once, in order.
\<close>

section \<open>State\<close>

record 'd batchRollerCore =
  bc_h :: 'd
  bc_br :: "'d batch_roll"
  bc_window :: int
  bc_batchSize :: int
  bc_buf :: "byte list"
  bc_carry :: int
  bc_prevN :: int
  bc_data :: "byte list option"
  bc_sums :: "u64 list option"
  bc_sumsStore :: "u64 list"
  bc_offset :: int
  bc_eof :: bool
  bc_done :: bool
  bc_err :: "gerror option"

definition defaultBatchRollerBufSize :: int where
  "defaultBatchRollerBufSize = 65536"

text \<open>Panics when the hash does not implement \<open>BatchRoll\<close>.\<close>

definition newBatchRollerCore :: "'d hash_iface \<Rightarrow> 'd \<Rightarrow> int \<Rightarrow> int \<Rightarrow> 'd batchRollerCore option" where
  "newBatchRollerCore H h window batchSize = do {
     br \<leftarrow> h_BatchRoll H;
     Some \<lparr>bc_h = h, bc_br = br, bc_window = window, bc_batchSize = max batchSize window,
           bc_buf = [], bc_carry = 0, bc_prevN = 0, bc_data = None, bc_sums = None, bc_sumsStore = [],
           bc_offset = 0, bc_eof = False, bc_done = False, bc_err = None\<rparr>
   }"

definition WithBufferSize :: "int \<Rightarrow> 'd batchRollerCore \<Rightarrow> 'd batchRollerCore" where
  "WithBufferSize n c = c\<lparr>bc_batchSize := n\<rparr>"

definition bcore_reset :: "'d batchRollerCore \<Rightarrow> 'd batchRollerCore" where
  "bcore_reset c = c\<lparr>bc_buf := [], bc_carry := 0, bc_prevN := 0, bc_data := None, bc_sums := None,
     bc_offset := 0, bc_eof := False, bc_done := False, bc_err := None\<rparr>"

definition bcore_finish :: "'d batchRollerCore \<Rightarrow> 'd batchRollerCore" where
  "bcore_finish c = c\<lparr>bc_eof := True\<rparr>"

definition bcore_feed :: "'d batchRollerCore \<Rightarrow> byte list \<Rightarrow> 'd batchRollerCore" where
  "bcore_feed c newBytes = c\<lparr>bc_buf := bc_buf c @ newBytes\<rparr>"

text \<open>\<open>readTail(n)\<close> makes room for \<open>n\<close> bytes and panics on a negative \<open>n\<close>; \<open>commitTail\<close> makes the
  filled part live. The caller reads \<open>got\<close> in between.\<close>

definition bcore_readTail :: "'d batchRollerCore \<Rightarrow> int \<Rightarrow> 'd batchRollerCore option" where
  "bcore_readTail c n = (if n < 0 then None else Some c)"

definition bcore_commitTail :: "'d batchRollerCore \<Rightarrow> byte list \<Rightarrow> 'd batchRollerCore" where
  "bcore_commitTail c got = c\<lparr>bc_buf := bc_buf c @ got\<rparr>"

definition no_batch :: "'d batchRollerCore \<Rightarrow> 'd batchRollerCore" where
  "no_batch c = c\<lparr>bc_data := None, bc_sums := None, bc_offset := 0\<rparr>"

text \<open>The two halves of \<open>next\<close>: past the previous batch, and the next one.\<close>

definition bcore_advance :: "'d batchRollerCore \<Rightarrow> 'd batchRollerCore option" where
  "bcore_advance c =
     (if bc_prevN c > 0 then do {
        rest \<leftarrow> go_slice (bc_buf c) (bc_prevN c - bc_carry c) (int (length (bc_buf c)));
        Some (c\<lparr>bc_offset := bc_offset c + (bc_prevN c - bc_carry c), bc_buf := rest, bc_prevN := 0\<rparr>)
      } else Some c)"

text \<open>\<open>if cap(c.sumsStore) < nsums { c.sumsStore = make([]uint64, nsums) }\<close>\<close>

definition sums_store :: "'d batchRollerCore \<Rightarrow> int \<Rightarrow> u64 list" where
  "sums_store c nsums =
     (if int (length (bc_sumsStore c)) < nsums then replicate (nat nsums) 0 else bc_sumsStore c)"

definition bcore_commit :: "'d batchRollerCore \<Rightarrow> int \<Rightarrow> 'd batchRollerCore" where
  "bcore_commit c n =
     (let c = (if bc_eof c \<and> n = int (length (bc_buf c)) then c\<lparr>bc_done := True, bc_carry := 0\<rparr>
               else c\<lparr>bc_carry := bc_window c - 1\<rparr>)
      in c\<lparr>bc_prevN := n\<rparr>)"

definition bcore_batch :: "'d batchRollerCore \<Rightarrow> 'd batchRollerCore option" where
  "bcore_batch c =
     (let n = min (int (length (bc_buf c))) (bc_batchSize c);
          nsums = n - bc_window c + 1 in do {
        data \<leftarrow> go_slice (bc_buf c) 0 n;
        let store = sums_store c nsums;
        dst \<leftarrow> go_slice store 0 nsums;
        sums \<leftarrow> bc_br c (bc_h c) dst data (bc_window c);
        Some (bcore_commit (c\<lparr>bc_data := Some data, bc_sums := Some sums,
          bc_sumsStore := sums @ drop (nat nsums) store\<rparr>) n)
      })"

definition bcore_next :: "'d batchRollerCore \<Rightarrow> (coreState \<times> 'd batchRollerCore) option" where
  "bcore_next c =
     (if bc_err c \<noteq> None \<or> bc_done c then Some (coreDone, no_batch c)
      else do {
        c \<leftarrow> bcore_advance c;
        if int (length (bc_buf c)) < bc_window c then
          if bc_eof c then Some (coreDone, no_batch (c\<lparr>bc_done := True\<rparr>))
          else Some (needMore, c)
        else do { c \<leftarrow> bcore_batch c; Some (emitted, c) }
      })"

section \<open>Accessors\<close>

definition bcore_Bytes :: "'d batchRollerCore \<Rightarrow> byte list option" where
  [simp]: "bcore_Bytes c = bc_data c"

definition bcore_Sums :: "'d batchRollerCore \<Rightarrow> u64 list option" where
  [simp]: "bcore_Sums c = bc_sums c"

definition bcore_Err :: "'d batchRollerCore \<Rightarrow> gerror option" where
  [simp]: "bcore_Err c = bc_err c"

definition bcore_Offset :: "'d batchRollerCore \<Rightarrow> int" where
  [simp]: "bcore_Offset c = bc_offset c"

definition bcore_WindowSize :: "'d batchRollerCore \<Rightarrow> int" where
  [simp]: "bcore_WindowSize c = bc_window c"

section \<open>What a batch promises\<close>

record batch =
  bt_offset :: int
  bt_bytes :: "byte list"
  bt_sums :: "u64 list"

definition bcore_current :: "'d batchRollerCore \<Rightarrow> batch option" where
  "bcore_current c = do {
     data \<leftarrow> bcore_Bytes c;
     sums \<leftarrow> bcore_Sums c;
     Some \<lparr>bt_offset = bcore_Offset c, bt_bytes = data, bt_sums = sums\<rparr>
   }"

text \<open>The batch at position \<open>s\<close> of the stream \<open>P\<close>: bytes of the stream, with the checksum of every
  window among them.\<close>

definition batch_at :: "(byte list \<Rightarrow> u64) \<Rightarrow> nat \<Rightarrow> byte list \<Rightarrow> nat \<Rightarrow> batch \<Rightarrow> bool" where
  "batch_at S w P s b \<longleftrightarrow>
     bt_offset b = int s \<and> w \<le> length (bt_bytes b) \<and> s + length (bt_bytes b) \<le> length P \<and>
     bt_bytes b = take (length (bt_bytes b)) (drop s P) \<and>
     bt_sums b = map (\<lambda>i. S (window_at w P (s + i))) [0..<Suc (length (bt_bytes b) - w)]"

text \<open>Batches that follow each other from position \<open>s\<close> to position \<open>t\<close>: each starts where the sums of
  the one before end, so neighbours share \<open>w - 1\<close> bytes.\<close>

fun batches_at :: "(byte list \<Rightarrow> u64) \<Rightarrow> nat \<Rightarrow> byte list \<Rightarrow> nat \<Rightarrow> batch list \<Rightarrow> nat \<Rightarrow> bool" where
  "batches_at S w P s [] t \<longleftrightarrow> s = t"
| "batches_at S w P s (b # bs) t \<longleftrightarrow>
     batch_at S w P s b \<and> batches_at S w P (s + length (bt_sums b)) bs t"

lemma batches_at_append:
  "batches_at S w P s (bs @ cs) t \<longleftrightarrow> (\<exists>u. batches_at S w P s bs u \<and> batches_at S w P u cs t)"
  by (induction bs arbitrary: s) auto

lemma batch_at_mono: "batch_at S w P s b \<Longrightarrow> batch_at S w (P @ Q) s b"
proof -
  assume b: "batch_at S w P s b"
  then have len: "s + length (bt_bytes b) \<le> length P" "w \<le> length (bt_bytes b)" by (simp_all add: batch_at_def)
  have "window_at w (P @ Q) (s + i) = window_at w P (s + i)" if "i \<le> length (bt_bytes b) - w" for i
    by (rule window_at_append) (use that len in linarith)
  then show ?thesis using b len by (auto simp: batch_at_def simp del: upt_Suc)
qed

lemma batches_at_mono: "batches_at S w P s bs t \<Longrightarrow> batches_at S w (P @ Q) s bs t"
  by (induction bs arbitrary: s) (auto intro: batch_at_mono)

text \<open>Together they hold the checksum of every window from \<open>s\<close> to \<open>t\<close>.\<close>

lemma batches_at_sums:
  "batches_at S w P s bs t \<Longrightarrow>
   s \<le> t \<and> concat (map bt_sums bs) = map (\<lambda>i. S (window_at w P i)) [s..<t]"
proof (induction bs arbitrary: s)
  case Nil
  then show ?case by simp
next
  case (Cons b bs)
  define k where "k = Suc (length (bt_bytes b) - w)"
  have b: "bt_sums b = map (\<lambda>i. S (window_at w P (s + i))) [0..<k]"
    and rest: "batches_at S w P (s + k) bs t"
    using Cons.prems by (auto simp: batch_at_def k_def simp del: upt_Suc)
  have "map (\<lambda>i. S (window_at w P (s + i))) [0..<k] = map (\<lambda>i. S (window_at w P i)) [s..<s + k]"
    by (rule nth_equalityI) simp_all
  moreover have "[s..<t] = [s..<s + k] @ [s + k..<t]"
    using Cons.IH [OF rest] upt_add_eq_append [of s "s + k" "t - (s + k)"] by simp
  ultimately show ?case using Cons.IH [OF rest] by (simp add: b)
qed

section \<open>The state of a core\<close>

definition batch_params :: "'d hash_iface \<Rightarrow> ('d \<Rightarrow> bool) \<Rightarrow> ('d \<Rightarrow> byte list \<Rightarrow> u64) \<Rightarrow> (nat \<Rightarrow> bool) \<Rightarrow>
    (byte list \<Rightarrow> u64) \<Rightarrow> nat \<Rightarrow> int \<Rightarrow> 'd batchRollerCore \<Rightarrow> bool" where
  "batch_params H dinv S fits S0 w b c \<longleftrightarrow>
     1 \<le> w \<and> bc_window c = int w \<and> bc_batchSize c = b \<and> int w \<le> b \<and>
     dinv (bc_h c) \<and> S (bc_h c) = S0 \<and> fits w \<and> h_BatchRoll H = Some (bc_br c)"

text \<open>Where the core is after \<open>P\<close> was fed and the sums before position \<open>s\<close> were handed out: it holds
  the stream from \<open>off\<close> on, and either waits at \<open>s\<close> or still holds the batch before it.\<close>

definition batch_held :: "nat \<Rightarrow> byte list \<Rightarrow> nat \<Rightarrow> nat \<Rightarrow> 'd batchRollerCore \<Rightarrow> bool" where
  "batch_held w P s off c \<longleftrightarrow>
     bc_offset c = int off \<and> bc_buf c = drop off P \<and> off \<le> length P \<and>
     (if bc_prevN c > 0
      then bc_carry c = int w - 1 \<and> int w \<le> bc_prevN c \<and> int off + bc_prevN c \<le> int (length P) \<and>
        int s = int off + bc_prevN c - (int w - 1)
      else bc_prevN c = 0 \<and> s = off)"

definition batch_pos :: "nat \<Rightarrow> byte list \<Rightarrow> nat \<Rightarrow> 'd batchRollerCore \<Rightarrow> bool" where
  "batch_pos w P s c \<longleftrightarrow>
     (if bc_done c then bc_eof c \<and> s = length P + 1 - w
      else (s = 0 \<or> s + w \<le> length P + 1) \<and> (\<exists>off. batch_held w P s off c))"

lemma batch_pos_le: "batch_pos w P s c \<Longrightarrow> 1 \<le> w \<Longrightarrow> s \<le> length P"
  by (auto simp: batch_pos_def split: if_splits)

lemma advance_ok:
  assumes "batch_pos w P s c" and "1 \<le> w" and "\<not> bc_done c"
  shows "bcore_advance c = Some (c\<lparr>bc_offset := int s, bc_buf := drop s P, bc_prevN := 0\<rparr>)"
proof -
  obtain off where off: "batch_held w P s off c" using assms(1,3) by (auto simp: batch_pos_def)
  then have h: "bc_offset c = int off" "bc_buf c = drop off P" "off \<le> length P" by (simp_all add: batch_held_def)
  show ?thesis
  proof (cases "bc_prevN c > 0")
    case True
    then have n: "bc_carry c = int w - 1" "int w \<le> bc_prevN c" "int off + bc_prevN c \<le> int (length P)"
        "int s = int off + bc_prevN c - (int w - 1)"
      using off by (simp_all add: batch_held_def)
    have so: "off \<le> s" "s \<le> length P" using n assms(2) by linarith+
    have d: "bc_prevN c - bc_carry c = int (s - off)" using n so by simp
    have "go_slice (bc_buf c) (int (s - off)) (int (length (bc_buf c))) = Some (drop s P)"
      using so h by (subst go_slice_nat) (simp_all add: drop_drop)
    moreover have "int off + int (s - off) = int s" using so by simp
    ultimately show ?thesis using True h(1) by (simp add: bcore_advance_def d del: of_nat_diff)
  next
    case False
    then show ?thesis using off by (simp add: bcore_advance_def batch_held_def)
  qed
qed

definition batch_state :: "'d hash_iface \<Rightarrow> ('d \<Rightarrow> bool) \<Rightarrow> ('d \<Rightarrow> byte list \<Rightarrow> u64) \<Rightarrow> (nat \<Rightarrow> bool) \<Rightarrow>
    (byte list \<Rightarrow> u64) \<Rightarrow> nat \<Rightarrow> int \<Rightarrow> byte list \<Rightarrow> nat \<Rightarrow> 'd batchRollerCore \<Rightarrow> bool" where
  "batch_state H dinv S fits S0 w b P s c \<longleftrightarrow>
     batch_params H dinv S fits S0 w b c \<and> bc_err c = None \<and> batch_pos w P s c"

text \<open>Feeding keeps the position; the end of the stream only sets a flag.\<close>

lemma feed_batch_state:
  assumes "batch_state H dinv dS dfits S0 w b P s c" and "\<not> bc_eof c"
  shows "batch_state H dinv dS dfits S0 w b (P @ xs) s (bcore_feed c xs)"
proof -
  have "batch_held w (P @ xs) s off (bcore_feed c xs)" if "batch_held w P s off c" for off
    using that by (auto simp: batch_held_def bcore_feed_def)
  then show ?thesis
    using assms by (auto simp: batch_state_def batch_params_def batch_pos_def) (auto simp: bcore_feed_def)
qed

lemma finish_batch_state:
  assumes "batch_state H dinv dS dfits S0 w b P s c"
  shows "batch_state H dinv dS dfits S0 w b P s (bcore_finish c)"
proof -
  have "batch_held w P s off (c\<lparr>bc_eof := True\<rparr>) = batch_held w P s off c" for off
    by (simp add: batch_held_def)
  then show ?thesis
    using assms by (simp add: batch_state_def batch_params_def batch_pos_def bcore_finish_def split: if_splits)
qed

lemma reset_batch_state:
  "batch_params H dinv dS dfits S0 w b c \<Longrightarrow> batch_state H dinv dS dfits S0 w b [] 0 (bcore_reset c)"
  by (simp add: batch_state_def batch_params_def batch_pos_def batch_held_def bcore_reset_def)

text \<open>What one call of \<open>next\<close> gives.\<close>

definition next_batch :: "(byte list \<Rightarrow> u64) \<Rightarrow> nat \<Rightarrow> byte list \<Rightarrow> nat \<Rightarrow> 'd batchRollerCore \<Rightarrow> coreState \<Rightarrow>
    nat \<Rightarrow> 'd batchRollerCore \<Rightarrow> bool" where
  "next_batch S0 w P s c st t c' \<longleftrightarrow> (case st of
     emitted \<Rightarrow> (\<exists>bt. bcore_current c' = Some bt \<and> batch_at S0 w P s bt \<and> t = s + length (bt_sums bt) \<and> s < t)
   | needMore \<Rightarrow> \<not> bc_eof c \<and> t = s \<and> length P < s + w
   | coreDone \<Rightarrow> bc_eof c \<and> t = s \<and> s = length P + 1 - w \<and> bcore_current c' = None)"

context digest
begin

lemma batch_ok:
  assumes par: "batch_params H inv S fits S0 w b c" and live: "\<not> bc_done c" "bc_err c = None"
    and at: "bc_offset c = int s" "bc_buf c = drop s P" "s \<le> length P" "bc_prevN c = 0"
    and len: "w \<le> length P - s"
  shows "\<exists>t c'. bcore_batch c = Some c' \<and> batch_state H inv S fits S0 w b P t c' \<and> bc_eof c' = bc_eof c \<and>
    next_batch S0 w P s c emitted t c'"
proof -
  define n where "n = min (length P - s) (nat b)"
  have p: "1 \<le> w" "bc_window c = int w" "bc_batchSize c = b" "int w \<le> b" "inv (bc_h c)" "S (bc_h c) = S0"
      "fits w" "h_BatchRoll H = Some (bc_br c)"
    using par by (simp_all add: batch_params_def)
  have n: "w \<le> n" "n \<le> length P - s" "min (int (length (bc_buf c))) (bc_batchSize c) = int n"
    using p len by (auto simp: n_def at min_def)
  define k where "k = n - w"
  define data where "data = take n (drop s P)"
  have data: "length data = n" "go_slice (bc_buf c) 0 (int n) = Some data"
    using n go_slice_nat [of 0 n "bc_buf c"] by (simp_all add: data_def at)
  have kn: "k + w = length data" "int n - int w + 1 = int (Suc k)" using n data by (simp_all add: k_def)
  define store where "store = sums_store c (int (Suc k))"
  have store: "Suc k \<le> length store" by (auto simp: store_def sums_store_def)
  have dst: "go_slice store 0 (int (Suc k)) = Some (take (Suc k) store)"
    using store go_slice_nat [of 0 "Suc k" store] by simp
  define sums where "sums = map (\<lambda>i. S0 (window_at w data i)) [0..<Suc k]"
  have br: "bc_br c (bc_h c) (take (Suc k) store) data (int w) = Some sums"
    using batch_roll [OF p(5,7) _ kn(1), of "take (Suc k) store"] p store
    by (simp add: sums_def del: upt_Suc)
  define c1 where "c1 = c\<lparr>bc_data := Some data, bc_sums := Some sums, bc_sumsStore := sums @ drop (Suc k) store\<rparr>"
  define c' where "c' = bcore_commit c1 (int n)"
  have run: "bcore_batch c = Some c'"
    unfolding bcore_batch_def Let_def n(3) p(2) kn(2) data(2) store_def [symmetric] bind.bind_lunit dst br nat_int
    by (simp only: c'_def c1_def)
  have c1: "bc_offset c1 = int s" "bc_buf c1 = drop s P" "bc_eof c1 = bc_eof c" "bc_data c1 = Some data"
      "bc_sums c1 = Some sums" "bc_window c1 = int w" "bc_batchSize c1 = b" "bc_h c1 = bc_h c" "bc_br c1 = bc_br c"
      "bc_done c1 = bc_done c" "bc_err c1 = bc_err c"
    using at p by (simp_all add: c1_def)
  have c': "bc_offset c' = int s" "bc_buf c' = drop s P" "bc_eof c' = bc_eof c" "bc_data c' = Some data"
      "bc_sums c' = Some sums" "bc_window c' = int w" "bc_batchSize c' = b" "bc_h c' = bc_h c" "bc_br c' = bc_br c"
      "bc_done c' = (bc_eof c \<and> n = length P - s)" "bc_err c' = None" "bc_prevN c' = int n"
      "bc_carry c' = (if bc_done c' then 0 else int w - 1)"
    using live c1 at(3) by (auto simp: c'_def bcore_commit_def Let_def)
  have wins: "window_at w data i = window_at w P (s + i)" if "i < Suc k" for i
  proof -
    have "i + w \<le> n" using that n(1) by (simp add: k_def)
    then show ?thesis by (simp add: data_def window_at_def drop_take min_def add.commute)
  qed
  have sums: "sums = map (\<lambda>i. S0 (window_at w P (s + i))) [0..<Suc k]"
    unfolding sums_def by (rule map_cong) (use wins in auto)
  have cur: "bcore_current c' = Some \<lparr>bt_offset = int s, bt_bytes = data, bt_sums = sums\<rparr>"
    by (simp add: bcore_current_def c')
  have "batch_at S0 w P s \<lparr>bt_offset = int s, bt_bytes = data, bt_sums = sums\<rparr>"
    using n at(3) data(1) unfolding batch_at_def sums by (simp add: data_def k_def del: upt_Suc)
  moreover have "length sums = Suc k" by (simp add: sums del: upt_Suc)
  ultimately have nb: "next_batch S0 w P s c emitted (s + Suc k) c'"
    using cur by (simp add: next_batch_def)
  have "batch_pos w P (s + Suc k) c'"
    using n at(3) p(1) live unfolding batch_pos_def
    by (auto simp: batch_held_def c' k_def intro!: exI [of _ s])
  moreover have "batch_params H inv S fits S0 w b c'" "bc_err c' = None" "bc_eof c' = bc_eof c"
    using p live by (simp_all add: batch_params_def c')
  ultimately show ?thesis using run nb by (auto simp: batch_state_def)
qed

lemma batch_next_ok:
  assumes st: "batch_state H inv S fits S0 w b P s c"
  shows "\<exists>st t c'. bcore_next c = Some (st, c') \<and> batch_state H inv S fits S0 w b P t c' \<and>
    bc_eof c' = bc_eof c \<and> next_batch S0 w P s c st t c'"
proof (cases "bc_done c")
  case True
  then have "bc_eof c" "s = length P + 1 - w" using st by (simp_all add: batch_state_def batch_pos_def)
  then show ?thesis
    using True st
    by (intro exI [of _ coreDone] exI [of _ s] exI [of _ "no_batch c"])
      (simp add: bcore_next_def batch_state_def batch_params_def batch_pos_def next_batch_def no_batch_def
        bcore_current_def)
next
  case False
  have par: "batch_params H inv S fits S0 w b c" and live: "bc_err c = None" and pos: "batch_pos w P s c"
    using st by (simp_all add: batch_state_def)
  have w: "1 \<le> w" "bc_window c = int w" using par by (simp_all add: batch_params_def)
  define c1 where "c1 = c\<lparr>bc_offset := int s, bc_buf := drop s P, bc_prevN := 0\<rparr>"
  have adv: "bcore_advance c = Some c1" using advance_ok [OF pos w(1) False] by (simp add: c1_def)
  have c1s: "int (length (bc_buf c1)) < bc_window c1 \<longleftrightarrow> length P - s < w" "bc_eof c1 = bc_eof c"
    by (simp_all add: c1_def w(2) del: of_nat_diff of_nat_less_iff) linarith
  have le: "s \<le> length P" by (rule batch_pos_le [OF pos w(1)])
  have par1: "batch_params H inv S fits S0 w b c1" using par by (simp add: batch_params_def c1_def)
  have pos1: "batch_pos w P s c1" using pos False le by (auto simp: batch_pos_def batch_held_def c1_def)
  show ?thesis
  proof (cases "length P - s < w")
    case short: True
    show ?thesis
    proof (cases "bc_eof c")
      case True
      define c' where "c' = no_batch (c1\<lparr>bc_done := True\<rparr>)"
      have s: "s = length P + 1 - w"
        using pos False short le w(1) by (auto simp: batch_pos_def)
      have "bcore_next c = Some (coreDone, c')"
        using False live adv c1s(1) short True unfolding bcore_next_def by (simp add: c'_def c1s)
      moreover have "batch_state H inv S fits S0 w b P s c'"
        using par live True s by (simp add: batch_state_def batch_params_def batch_pos_def c'_def c1_def no_batch_def)
      moreover have "bc_eof c' = bc_eof c" "bcore_current c' = None"
        by (simp_all add: c'_def c1_def no_batch_def bcore_current_def)
      ultimately show ?thesis using True s by (intro exI [of _ coreDone] exI [of _ s] exI [of _ c'])
        (simp add: next_batch_def)
    next
      case more: False
      have "bcore_next c = Some (needMore, c1)"
        using False live adv short more unfolding bcore_next_def by (simp add: c1s)
      moreover have "batch_state H inv S fits S0 w b P s c1"
        using par1 live pos1 by (simp add: batch_state_def c1_def)
      ultimately show ?thesis using more short le
        by (intro exI [of _ needMore] exI [of _ s] exI [of _ c1]) (simp add: next_batch_def c1_def)
    qed
  next
    case long: False
    have c1: "\<not> bc_done c1" "bc_err c1 = None" "bc_offset c1 = int s" "bc_buf c1 = drop s P" "bc_prevN c1 = 0"
        "bc_eof c1 = bc_eof c"
      using False live by (simp_all add: c1_def)
    have "w \<le> length P - s" using long by simp
    from batch_ok [OF par1 c1(1,2,3,4) le c1(5) this] obtain t c'
      where b: "bcore_batch c1 = Some c'" "batch_state H inv S fits S0 w b P t c'" "bc_eof c' = bc_eof c"
        "next_batch S0 w P s c1 emitted t c'"
      unfolding c1(6) by blast
    have "bcore_next c = Some (emitted, c')"
      using False live adv long b(1) unfolding bcore_next_def by (simp add: c1s)
    then show ?thesis using b
      by (intro exI [of _ emitted] exI [of _ t] exI [of _ c']) (simp add: next_batch_def)
  qed
qed

text \<open>A new core.\<close>

lemma new_batch_core:
  assumes "inv h" and "fits w" and "1 \<le> w" and "int w \<le> b"
  shows "\<exists>c0. newBatchRollerCore H h (int w) defaultBatchRollerBufSize = Some c0 \<and>
    batch_state H inv S fits (S h) w b [] 0 (WithBufferSize b c0) \<and> bc_eof (WithBufferSize b c0) = False"
proof -
  obtain br where "h_BatchRoll H = Some br"
    using batch_roll [of h w 0 "replicate w 0" "[0]"] assms by auto
  then show ?thesis
    using assms
    by (simp add: newBatchRollerCore_def WithBufferSize_def batch_state_def batch_params_def batch_pos_def batch_held_def)
qed

end

end
