(* ===== verification/Chunker_Inv.thy ===== *)
theory Chunker_Inv
  imports Chunker_Core
begin

text \<open>
  The invariant of \<open>chunkerCore\<close> and its preservation by every operation. \<open>core_inv X P c\<close> says
  that the core \<open>c\<close>, with the parameters of \<open>X\<close>, has been fed the bytes \<open>P\<close>: which of them it
  still buffers, how far it has hashed, and that its queue holds exactly the boundaries that the
  chunks to come may use.
\<close>

section \<open>The invariant\<close>

text \<open>The parameters the theorems are about: a window of at least one byte, a batch that holds a
  window and whose positions fit in \<open>int32\<close>, and a length range that is not empty.\<close>

definition spec_ok :: "chunk_spec \<Rightarrow> int \<Rightarrow> bool" where
  "spec_ok X batch \<longleftrightarrow> 1 \<le> sp_window X \<and> sp_window X \<le> batch \<and> batch + sp_window X \<le> 2 ^ 31 \<and>
     0 \<le> sp_min X \<and> 1 \<le> sp_max X \<and> sp_max X \<le> MaxInt"

text \<open>No sum of an offset and a parameter overflows a Go int.\<close>

definition no_overflow :: "chunk_spec \<Rightarrow> int \<Rightarrow> int \<Rightarrow> bool" where
  "no_overflow X batch n \<longleftrightarrow>
     n + sp_min X + batch < MaxInt \<and> (sp_max X = MaxInt \<or> n + sp_max X \<le> MaxInt)"

definition params_are :: "chunk_spec \<Rightarrow> 'd chunkerCore \<Rightarrow> bool" where
  "params_are X c \<longleftrightarrow> cc_window c = sp_window X \<and> cc_mask c = sp_mask X \<and> cc_min c = sp_min X \<and>
     cc_max c = sp_max X \<and> spec_ok X (cc_batchSize c)"

text \<open>The buffer: the bytes from \<open>cbufBase\<close> on, with the \<open>window-1\<close> bytes of lead-in that the next
  window needs.\<close>

definition buffer_ok :: "chunk_spec \<Rightarrow> byte list \<Rightarrow> 'd chunkerCore \<Rightarrow> bool" where
  "buffer_ok X P c \<longleftrightarrow>
     cc_consumed c = int (length P) \<and> 0 \<le> cc_cbufBase c \<and> cc_cbufBase c \<le> cc_chunkStart c \<and>
     cc_chunkStart c \<le> int (length P) \<and> cc_cbuf c = drop (nat (cc_cbufBase c)) P \<and>
     (cc_cbufBase c = 0 \<or> cc_cbufBase c + sp_window X - 1 \<le> min (cc_chunkStart c) (cc_hashedTo c)) \<and>
     0 \<le> cc_hashedTo c \<and> cc_chunkStart c \<le> max (cc_hashedTo c) (sp_window X - 1) \<and>
     cc_hashedTo c \<le> max (int (length P)) (cc_chunkStart c + sp_min X - 1)"

definition pending_bounds :: "'d chunkerCore \<Rightarrow> int list" where
  "pending_bounds c = drop (cc_bcur c) (cc_bounds c)"

text \<open>The queue: after the cursor, boundaries in ascending order, among them every boundary before
  \<open>hashedTo\<close> that this chunk may use; before the cursor, positions that no chunk can use any more.\<close>

definition queue_ok :: "chunk_spec \<Rightarrow> byte list \<Rightarrow> 'd chunkerCore \<Rightarrow> bool" where
  "queue_ok X P c \<longleftrightarrow>
     cc_bcur c \<le> length (cc_bounds c) \<and> sorted_wrt (<) (pending_bounds c) \<and>
     (\<forall>e \<in> set (pending_bounds c). hit X P e \<and> cc_chunkStart c \<le> e \<and> e < cc_hashedTo c) \<and>
     (\<forall>e. hit X P e \<and> first_cut X (cc_chunkStart c) \<le> e \<and> e < cc_hashedTo c \<longrightarrow>
        e \<in> set (pending_bounds c)) \<and>
     (\<forall>e \<in> set (take (cc_bcur c) (cc_bounds c)). e < first_cut X (cc_chunkStart c))"

lemma queue_okI:
  assumes "cc_bcur c \<le> length (cc_bounds c)" and "sorted_wrt (<) (pending_bounds c)"
    and "\<And>e. e \<in> set (pending_bounds c) \<Longrightarrow> hit X P e \<and> cc_chunkStart c \<le> e \<and> e < cc_hashedTo c"
    and "\<And>e. hit X P e \<Longrightarrow> first_cut X (cc_chunkStart c) \<le> e \<Longrightarrow> e < cc_hashedTo c \<Longrightarrow>
      e \<in> set (pending_bounds c)"
    and "\<And>e. e \<in> set (take (cc_bcur c) (cc_bounds c)) \<Longrightarrow> e < first_cut X (cc_chunkStart c)"
  shows "queue_ok X P c"
  unfolding queue_ok_def by (intro conjI ballI allI impI) (use assms in blast)+

lemma queue_okD:
  assumes "queue_ok X P c"
  shows "cc_bcur c \<le> length (cc_bounds c)" and "sorted_wrt (<) (pending_bounds c)"
    and "\<And>e. e \<in> set (pending_bounds c) \<Longrightarrow> hit X P e"
    and "\<And>e. e \<in> set (pending_bounds c) \<Longrightarrow> cc_chunkStart c \<le> e"
    and "\<And>e. e \<in> set (pending_bounds c) \<Longrightarrow> e < cc_hashedTo c"
    and "\<And>e. hit X P e \<Longrightarrow> first_cut X (cc_chunkStart c) \<le> e \<Longrightarrow> e < cc_hashedTo c \<Longrightarrow>
      e \<in> set (pending_bounds c)"
    and "\<And>e. e \<in> set (take (cc_bcur c) (cc_bounds c)) \<Longrightarrow> e < first_cut X (cc_chunkStart c)"
  using assms unfolding queue_ok_def by blast+

text \<open>The queue condition does not look at the buffer.\<close>

lemma queue_ok_cong:
  assumes "queue_ok X P c" and "cc_bcur c' = cc_bcur c" and "cc_bounds c' = cc_bounds c"
    and "cc_chunkStart c' = cc_chunkStart c" and "cc_hashedTo c' = cc_hashedTo c"
  shows "queue_ok X P c'"
  using assms(1) unfolding queue_ok_def pending_bounds_def assms(2-5) .

lemma buffer_ok_hashedTo:
  assumes "buffer_ok X P c" and "cc_hashedTo c \<le> cc_hashedTo c'"
    and "cc_hashedTo c' \<le> max (int (length P)) (cc_chunkStart c + sp_min X - 1)"
    and "cc_consumed c' = cc_consumed c" "cc_cbufBase c' = cc_cbufBase c"
      "cc_chunkStart c' = cc_chunkStart c" "cc_cbuf c' = cc_cbuf c"
  shows "buffer_ok X P c'"
  using assms(1-3) unfolding buffer_ok_def assms(4-7) by auto

definition core_inv :: "chunk_spec \<Rightarrow> byte list \<Rightarrow> 'd chunkerCore \<Rightarrow> bool" where
  "core_inv X P c \<longleftrightarrow> params_are X c \<and> no_overflow X (cc_batchSize c) (int (length P)) \<and>
     buffer_ok X P c \<and> queue_ok X P c"

text \<open>The hash of the core is a digest whose checksum is that of the specification.\<close>

definition hash_ok :: "'d hash_iface \<Rightarrow> ('d \<Rightarrow> bool) \<Rightarrow> ('d \<Rightarrow> byte list \<Rightarrow> u64) \<Rightarrow> (nat \<Rightarrow> bool) \<Rightarrow>
    chunk_spec \<Rightarrow> 'd chunkerCore \<Rightarrow> bool" where
  "hash_ok H dinv S fits X c \<longleftrightarrow>
     cc_H c = H \<and> dinv (cc_h c) \<and> S (cc_h c) = sp_sum X \<and> fits (nat (sp_window X)) \<and>
     cc_sum c = core_sum H \<and> h_BatchBoundaries H = Some (cc_brd c) \<and>
     length (cc_la c) = length (cc_lb c)"

text \<open>Hashing forward only changes the boundary buffers, the queue and \<open>hashedTo\<close>.\<close>

definition hash_frame :: "'d chunkerCore \<Rightarrow> 'd chunkerCore \<Rightarrow> bool" where
  "hash_frame c c' \<longleftrightarrow> (\<exists>la lb bounds hashedTo.
     c' = c\<lparr>cc_la := la, cc_lb := lb, cc_bounds := bounds, cc_hashedTo := hashedTo\<rparr>)"

lemma hash_frame_refl: "hash_frame c c"
  unfolding hash_frame_def
  by (rule exI [of _ "cc_la c"], rule exI [of _ "cc_lb c"], rule exI [of _ "cc_bounds c"],
      rule exI [of _ "cc_hashedTo c"]) simp

lemma hash_frame_trans: "hash_frame a b \<Longrightarrow> hash_frame b c \<Longrightarrow> hash_frame a c"
  unfolding hash_frame_def by (elim exE, simp, blast)

lemma hash_frameD:
  assumes "hash_frame c c'"
  shows "cc_H c' = cc_H c" "cc_h c' = cc_h c" "cc_brd c' = cc_brd c" "cc_sum c' = cc_sum c"
    "cc_window c' = cc_window c" "cc_mask c' = cc_mask c" "cc_min c' = cc_min c" "cc_max c' = cc_max c"
    "cc_batchSize c' = cc_batchSize c" "cc_cbuf c' = cc_cbuf c" "cc_cbufBase c' = cc_cbufBase c"
    "cc_chunkStart c' = cc_chunkStart c" "cc_consumed c' = cc_consumed c" "cc_bcur c' = cc_bcur c"
    "cc_eof c' = cc_eof c" "cc_done c' = cc_done c" "cc_err c' = cc_err c"
    "cc_chunk c' = cc_chunk c" "cc_offset c' = cc_offset c" "cc_sumv c' = cc_sumv c"
    "cc_contentDefined c' = cc_contentDefined c"
  using assms by (auto simp: hash_frame_def)

section \<open>Skipping and compacting\<close>

definition skip_to :: "chunk_spec \<Rightarrow> 'd chunkerCore \<Rightarrow> int" where
  "skip_to X c = max (cc_hashedTo c) (cc_chunkStart c + sp_min X - 1)"

lemma minByte_eq:
  assumes "core_inv X P c"
  shows "wrap_int (cc_chunkStart c + cc_min c - 1) = cc_chunkStart c + sp_min X - 1"
proof -
  have "cc_min c = sp_min X" "0 \<le> sp_min X" "0 \<le> cc_chunkStart c" "cc_chunkStart c \<le> int (length P)"
    "int (length P) + sp_min X < MaxInt"
    using assms by (simp_all add: core_inv_def params_are_def spec_ok_def no_overflow_def buffer_ok_def)
  then show ?thesis by (simp add: wrap_int_id)
qed

lemma skipPreMin_eq:
  assumes "core_inv X P c"
  shows "skipPreMin c = c\<lparr>cc_hashedTo := skip_to X c\<rparr>"
  by (simp add: skipPreMin_def skip_to_def max_def Let_def minByte_eq [OF assms])

lemma skip_inv:
  assumes inv: "core_inv X P c"
  shows "core_inv X P (c\<lparr>cc_hashedTo := skip_to X c\<rparr>)"
proof -
  let ?c = "c\<lparr>cc_hashedTo := skip_to X c\<rparr>"
  have p: "params_are X ?c" "no_overflow X (cc_batchSize ?c) (int (length P))"
    using inv by (simp_all add: core_inv_def params_are_def)
  have le: "cc_hashedTo c \<le> skip_to X c" "cc_chunkStart c + sp_min X - 1 \<le> skip_to X c"
    by (simp_all add: skip_to_def)
  have b: "buffer_ok X P c" and q: "queue_ok X P c" using inv by (simp_all add: core_inv_def)
  have "skip_to X c \<le> max (int (length P)) (cc_chunkStart c + sp_min X - 1)"
    using b by (simp add: buffer_ok_def skip_to_def)
  with le(1) have "buffer_ok X P ?c"
    by - (rule buffer_ok_hashedTo [OF b], simp_all)
  moreover have "queue_ok X P ?c"
  proof (rule queue_okI)
    show "e \<in> set (pending_bounds ?c)"
      if "hit X P e" "first_cut X (cc_chunkStart ?c) \<le> e" "e < cc_hashedTo ?c" for e
    proof -
      have "e < cc_hashedTo c" using that by (auto simp: first_cut_def skip_to_def less_max_iff_disj)
      then show ?thesis using queue_okD(6) [OF q] that by (simp add: pending_bounds_def)
    qed
    show "hit X P e \<and> cc_chunkStart ?c \<le> e \<and> e < cc_hashedTo ?c" if "e \<in> set (pending_bounds ?c)" for e
      using queue_okD(3-5) [OF q, of e] le that by (simp add: pending_bounds_def)
  qed (use queue_okD [OF q] in \<open>simp_all add: pending_bounds_def\<close>)
  ultimately show ?thesis using p by (simp add: core_inv_def)
qed

text \<open>What compaction keeps from: at least \<open>window-1\<close> bytes before the chunk and before \<open>hashedTo\<close>.\<close>

definition keep_from :: "'d chunkerCore \<Rightarrow> int" where
  "keep_from c = max (min (cc_chunkStart c) (cc_hashedTo c) - (cc_window c - 1)) 0"

definition drop_prefix :: "byte list \<Rightarrow> 'd chunkerCore \<Rightarrow> 'd chunkerCore" where
  "drop_prefix P c = (if keep_from c - cc_cbufBase c > 0
     then c\<lparr>cc_cbuf := drop (nat (keep_from c)) P, cc_cbufBase := keep_from c\<rparr> else c)"

definition drop_bounds :: "'d chunkerCore \<Rightarrow> 'd chunkerCore" where
  "drop_bounds c = c\<lparr>cc_bounds := pending_bounds c, cc_bcur := 0\<rparr>"

lemma drop_prefix_inv:
  assumes inv: "core_inv X P c"
  shows "core_inv X P (drop_prefix P c)"
proof (cases "keep_from c - cc_cbufBase c > 0")
  case True
  have w: "cc_window c = sp_window X" "1 \<le> sp_window X"
    using inv by (simp_all add: core_inv_def params_are_def spec_ok_def)
  have b: "buffer_ok X P c" using inv by (simp add: core_inv_def)
  have k: "keep_from c = min (cc_chunkStart c) (cc_hashedTo c) - (sp_window X - 1)"
    using True b w by (simp add: keep_from_def buffer_ok_def max_def split: if_splits)
  have pos: "0 \<le> keep_from c" "cc_cbufBase c \<le> keep_from c" using True by (simp_all add: keep_from_def)
  have "keep_from c + sp_window X - 1 \<le> min (cc_chunkStart c) (cc_hashedTo c)" "keep_from c \<le> cc_chunkStart c"
    using k w by (simp_all add: min_def)
  then have "buffer_ok X P (drop_prefix P c)"
    using b True pos unfolding buffer_ok_def drop_prefix_def by simp
  moreover have "queue_ok X P c" using inv by (simp add: core_inv_def)
  then have "queue_ok X P (drop_prefix P c)" by (rule queue_ok_cong) (simp_all add: drop_prefix_def)
  moreover have "params_are X (drop_prefix P c)"
    "no_overflow X (cc_batchSize (drop_prefix P c)) (int (length P))"
    using inv by (simp_all add: core_inv_def params_are_def drop_prefix_def)
  ultimately show ?thesis by (simp add: core_inv_def)
next
  case False
  then show ?thesis using inv by (simp add: drop_prefix_def)
qed

lemma drop_bounds_inv:
  assumes "core_inv X P c"
  shows "core_inv X P (drop_bounds c)"
proof -
  have "buffer_ok X P (drop_bounds c)" "params_are X (drop_bounds c)"
    "no_overflow X (cc_batchSize (drop_bounds c)) (int (length P))"
    using assms by (simp_all add: core_inv_def buffer_ok_def params_are_def drop_bounds_def)
  moreover have q: "queue_ok X P c" using assms by (simp add: core_inv_def)
  have "queue_ok X P (drop_bounds c)"
    by (rule queue_okI) (use queue_okD [OF q] in \<open>simp_all add: pending_bounds_def drop_bounds_def\<close>)
  ultimately show ?thesis by (simp add: core_inv_def)
qed

lemma compact_eq:
  assumes inv: "core_inv X P c"
  shows "core_compact c = Some (drop_bounds (drop_prefix P (c\<lparr>cc_hashedTo := skip_to X c\<rparr>)))"
proof -
  define c1 where "c1 = c\<lparr>cc_hashedTo := skip_to X c\<rparr>"
  define c2 where "c2 = drop_prefix P c1"
  have i1: "core_inv X P c1" unfolding c1_def by (rule skip_inv [OF inv])
  have i2: "core_inv X P c2" unfolding c2_def by (rule drop_prefix_inv [OF i1])
  have b: "buffer_ok X P c1" and w: "1 \<le> cc_window c1"
    using i1 by (simp_all add: core_inv_def params_are_def spec_ok_def)
  have "go_slice (cc_cbuf c1) (keep_from c1 - cc_cbufBase c1) (int (length (cc_cbuf c1))) =
      Some (drop (nat (keep_from c1)) P)" if pos: "keep_from c1 - cc_cbufBase c1 > 0"
  proof -
    have le: "keep_from c1 \<le> int (length P)" "0 \<le> cc_cbufBase c1" "cc_cbuf c1 = drop (nat (cc_cbufBase c1)) P"
      using b w by (auto simp: buffer_ok_def keep_from_def)
    have "nat (keep_from c1 - cc_cbufBase c1) + nat (cc_cbufBase c1) = nat (keep_from c1)"
      using pos le by simp
    then show ?thesis using le pos by (simp add: go_slice_def)
  qed
  then have prefix: "(if keep_from c1 - cc_cbufBase c1 > 0 then do {
        kept \<leftarrow> go_slice (cc_cbuf c1) (keep_from c1 - cc_cbufBase c1) (int (length (cc_cbuf c1)));
        Some (c1\<lparr>cc_cbuf := kept, cc_cbufBase := keep_from c1\<rparr>)
      } else Some c1) = Some c2"
    by (simp add: c2_def drop_prefix_def)
  have "go_slice (cc_bounds c2) (int (cc_bcur c2)) (int (length (cc_bounds c2))) = Some (pending_bounds c2)"
    using i2 queue_okD(1) [of X P c2] by (simp add: go_slice_def core_inv_def pending_bounds_def)
  then have bounds: "(if cc_bcur c2 > 0 then do {
        rest \<leftarrow> go_slice (cc_bounds c2) (int (cc_bcur c2)) (int (length (cc_bounds c2)));
        Some (c2\<lparr>cc_bounds := rest, cc_bcur := 0\<rparr>)
      } else Some c2) = Some (drop_bounds c2)"
    by (simp add: drop_bounds_def pending_bounds_def)
  show ?thesis
    unfolding core_compact_def Let_def skipPreMin_eq [OF inv] c1_def [symmetric] keep_from_def [symmetric]
      prefix by (simp add: bounds c2_def [symmetric])
qed

lemma compact_inv:
  assumes "core_inv X P c" and "core_compact c = Some c'"
  shows "core_inv X P c'"
  using assms(2) drop_bounds_inv [OF drop_prefix_inv [OF skip_inv [OF assms(1)]]]
  unfolding compact_eq [OF assms(1)] by simp

section \<open>New bytes\<close>

lemma extend_inv:
  assumes inv: "core_inv X P c" and len: "no_overflow X (cc_batchSize c) (int (length (P @ xs)))"
  shows "core_inv X (P @ xs) (core_commitTail c xs)"
proof -
  let ?c = "core_commitTail c xs"
  have b: "buffer_ok X P c" and q: "queue_ok X P c" and w: "1 \<le> sp_window X"
    using inv by (simp_all add: core_inv_def params_are_def spec_ok_def)
  have "nat (cc_cbufBase c) \<le> length P" using b unfolding buffer_ok_def by linarith
  then have "buffer_ok X (P @ xs) ?c"
    using b unfolding buffer_ok_def core_commitTail_def by auto
  moreover have "params_are X ?c" "no_overflow X (cc_batchSize ?c) (int (length (P @ xs)))"
    using inv len by (simp_all add: core_inv_def params_are_def core_commitTail_def)
  moreover have "queue_ok X (P @ xs) ?c"
  proof (rule queue_okI)
    show "e \<in> set (pending_bounds ?c)"
      if h: "hit X (P @ xs) e" and e: "first_cut X (cc_chunkStart ?c) \<le> e" "e < cc_hashedTo ?c" for e
    proof -
      have "cc_hashedTo c \<le> max (int (length P)) (cc_chunkStart c + sp_min X - 1)"
        using b unfolding buffer_ok_def by blast
      then have "e < int (length P)"
        using e by (auto simp: first_cut_def core_commitTail_def)
      then show ?thesis
        using queue_okD(6) [OF q, of e] h e w by (simp add: hit_append pending_bounds_def core_commitTail_def)
    qed
    show "hit X (P @ xs) e \<and> cc_chunkStart ?c \<le> e \<and> e < cc_hashedTo ?c"
      if "e \<in> set (pending_bounds ?c)" for e
    proof -
      have e: "e \<in> set (pending_bounds c)"
        using that by (simp add: pending_bounds_def core_commitTail_def)
      have "hit X P e" by (rule queue_okD(3) [OF q e])
      then have "hit X (P @ xs) e" using w by (subst hit_append) (simp_all add: hit_def)
      then show ?thesis using queue_okD(4,5) [OF q e] by (simp add: core_commitTail_def)
    qed
  qed (use queue_okD [OF q] in \<open>simp_all add: pending_bounds_def core_commitTail_def\<close>)
  ultimately show ?thesis by (simp add: core_inv_def)
qed

text \<open>Compaction and new bytes leave everything else alone.\<close>

definition feed_frame :: "'d chunkerCore \<Rightarrow> 'd chunkerCore \<Rightarrow> bool" where
  "feed_frame c c' \<longleftrightarrow> (\<exists>cbuf base n bounds bcur hashedTo.
     c' = c\<lparr>cc_cbuf := cbuf, cc_cbufBase := base, cc_consumed := n, cc_bounds := bounds,
             cc_bcur := bcur, cc_hashedTo := hashedTo\<rparr>)"

lemma feed_frameI:
  "c' = c\<lparr>cc_cbuf := cc_cbuf c', cc_cbufBase := cc_cbufBase c', cc_consumed := cc_consumed c',
     cc_bounds := cc_bounds c', cc_bcur := cc_bcur c', cc_hashedTo := cc_hashedTo c'\<rparr> \<Longrightarrow> feed_frame c c'"
  unfolding feed_frame_def by blast

lemma feed_frameD:
  assumes "feed_frame c c'"
  shows "cc_H c' = cc_H c" "cc_h c' = cc_h c" "cc_brd c' = cc_brd c" "cc_sum c' = cc_sum c"
    "cc_window c' = cc_window c" "cc_mask c' = cc_mask c" "cc_min c' = cc_min c" "cc_max c' = cc_max c"
    "cc_batchSize c' = cc_batchSize c" "cc_chunkStart c' = cc_chunkStart c" "cc_la c' = cc_la c"
    "cc_lb c' = cc_lb c" "cc_eof c' = cc_eof c" "cc_done c' = cc_done c" "cc_err c' = cc_err c"
  using assms by (auto simp: feed_frame_def)

lemma compact_feed:
  assumes inv: "core_inv X P c" and len: "no_overflow X (cc_batchSize c) (int (length (P @ xs)))"
  shows "\<exists>c0. core_compact c = Some c0 \<and> core_inv X (P @ xs) (core_commitTail c0 xs) \<and>
    feed_frame c (core_commitTail c0 xs) \<and> cc_bounds (core_commitTail c0 xs) = pending_bounds c \<and>
    cc_bcur (core_commitTail c0 xs) = 0 \<and> cc_hashedTo c \<le> cc_hashedTo (core_commitTail c0 xs)"
proof -
  define c0 where "c0 = drop_bounds (drop_prefix P (c\<lparr>cc_hashedTo := skip_to X c\<rparr>))"
  have c0: "core_compact c = Some c0" unfolding c0_def by (rule compact_eq [OF inv])
  have batch: "cc_batchSize c0 = cc_batchSize c"
    by (simp add: c0_def drop_bounds_def drop_prefix_def)
  have "core_inv X (P @ xs) (core_commitTail c0 xs)"
    by (rule extend_inv) (use compact_inv [OF inv c0] len batch in simp_all)
  moreover have "feed_frame c (core_commitTail c0 xs)"
    by (rule feed_frameI) (simp add: c0_def drop_bounds_def drop_prefix_def core_commitTail_def)
  moreover have "cc_bounds (core_commitTail c0 xs) = pending_bounds c" "cc_bcur (core_commitTail c0 xs) = 0"
    "cc_hashedTo c \<le> cc_hashedTo (core_commitTail c0 xs)"
    by (simp_all add: c0_def drop_bounds_def drop_prefix_def core_commitTail_def pending_bounds_def skip_to_def)
  ultimately show ?thesis using c0 by blast
qed

lemma core_feed_eq: "core_feed c xs = map_option (\<lambda>c. core_commitTail c xs) (core_compact c)"
  by (simp add: core_feed_def core_commitTail_def map_option_case split: bind_splits option.splits)

lemma feed_inv:
  assumes inv: "core_inv X P c" and len: "no_overflow X (cc_batchSize c) (int (length (P @ xs)))"
  shows "\<exists>c'. core_feed c xs = Some c' \<and> core_inv X (P @ xs) c' \<and> feed_frame c c' \<and>
    cc_bounds c' = pending_bounds c \<and> cc_bcur c' = 0 \<and> cc_hashedTo c \<le> cc_hashedTo c'"
  using compact_feed [OF assms] by (auto simp: core_feed_eq)

end
