(* ===== verification/Chunker_Hash.thy ===== *)
theory Chunker_Hash
  imports Chunker_Inv
begin

text \<open>
  Hashing forward: \<open>hashForward\<close> hands one slice of the buffer to \<open>BatchBoundaries\<close> and queues
  exactly the boundaries among the bytes it covers; the loop of \<open>next\<close> always ends, with a usable
  boundary in the queue or with every byte hashed that matters.
\<close>

section \<open>The positions of a batch\<close>

lemma sint_position: "p < 2 ^ 31 \<Longrightarrow> sint (word_of_nat p :: i32) = int p"
  by (simp add: signed_of_nat signed_take_bit_int_eq_self)

text \<open>The window positions of a slice that starts at \<open>b\<close>, as global byte positions.\<close>

lemma positions_sorted:
  "sorted_wrt (<) (map (\<lambda>p. b + int p + w - 1) (filter Q [0..<n]))"
  by (simp add: sorted_wrt_map sorted_wrt_filter sorted_wrt_mono_rel [OF _ sorted_wrt_upt])

lemma buffer_window:
  assumes b: "0 \<le> b" and p: "int p + w \<le> hi - b" and hi: "hi \<le> int (length P)" and w: "1 \<le> w"
  shows "window_at (nat w) (take (nat (hi - b)) (drop (nat b) P)) p = window_at (nat w) P (nat (b + int p))"
proof -
  have "p + nat w \<le> nat (hi - b)" using p w by linarith
  then have "window_at (nat w) (take (nat (hi - b)) (drop (nat b) P)) p = window_at (nat w) (drop (nat b) P) p"
    by (rule window_at_take)
  also have "\<dots> = window_at (nat w) P (nat (b + int p))"
    using b by (simp add: window_at_drop nat_add_distrib)
  finally show ?thesis .
qed

text \<open>The boundaries that a slice from \<open>b\<close> to \<open>hi\<close> reports.\<close>

definition batch_hits :: "chunk_spec \<Rightarrow> byte list \<Rightarrow> int \<Rightarrow> int \<Rightarrow> int list" where
  "batch_hits X P b hi =
     map (\<lambda>p. b + int p + sp_window X - 1)
       (filter (\<lambda>p. sp_sum X (window_at (nat (sp_window X)) (take (nat (hi - b)) (drop (nat b) P)) p) AND sp_mask X = 0)
         [0..<nat (hi - b - sp_window X + 1)])"

lemma batch_hits_sorted: "sorted_wrt (<) (batch_hits X P b hi)"
  unfolding batch_hits_def by (rule positions_sorted)

lemma batch_hits_iff:
  assumes b: "0 \<le> b" and hi: "hi \<le> int (length P)" and w: "1 \<le> sp_window X"
  shows "e \<in> set (batch_hits X P b hi) \<longleftrightarrow> hit X P e \<and> b + sp_window X - 1 \<le> e \<and> e < hi"
proof -
  let ?w = "sp_window X"
  have sum: "sp_sum X (window_at (nat ?w) (take (nat (hi - b)) (drop (nat b) P)) p) = sum_at X P (b + int p + ?w - 1)"
    if "int p < hi - b - ?w + 1" for p
    using b w that buffer_window [OF b _ hi w, of p] by (simp add: sum_at_def)
  show ?thesis
  proof
    assume "e \<in> set (batch_hits X P b hi)"
    then obtain p where "e = b + int p + ?w - 1" "p < nat (hi - b - ?w + 1)"
      "sp_sum X (window_at (nat ?w) (take (nat (hi - b)) (drop (nat b) P)) p) AND sp_mask X = 0"
      by (auto simp: batch_hits_def)
    moreover from this have "int p < hi - b - ?w + 1" by linarith
    ultimately show "hit X P e \<and> b + ?w - 1 \<le> e \<and> e < hi"
      using sum [of p] b w hi by (simp add: hit_def)
  next
    assume e: "hit X P e \<and> b + ?w - 1 \<le> e \<and> e < hi"
    define p where "p = nat (e - b - ?w + 1)"
    have ep: "e = b + int p + ?w - 1" and "int p < hi - b - ?w + 1" using e by (simp_all add: p_def)
    moreover from this have "p < nat (hi - b - ?w + 1)" by linarith
    moreover have "sum_at X P e AND sp_mask X = 0" using e by (simp add: hit_def)
    ultimately show "e \<in> set (batch_hits X P b hi)"
      using sum [of p] ep by (auto simp: batch_hits_def)
  qed
qed

section \<open>One step forward\<close>

text \<open>The slice that \<open>hashForward\<close> hashes: from \<open>slice_from\<close> to \<open>slice_to\<close>.\<close>

definition slice_from :: "'d chunkerCore \<Rightarrow> int" where
  "slice_from c = cc_hashedTo c - min (cc_window c - 1) (cc_hashedTo c - cc_cbufBase c)"

definition slice_to :: "'d chunkerCore \<Rightarrow> int" where
  "slice_to c = min (cc_hashedTo c + cc_batchSize c) (cc_consumed c)"

lemma slice_facts:
  assumes inv: "core_inv X P c" and lt: "cc_hashedTo c < cc_consumed c"
  shows "0 \<le> cc_cbufBase c" "cc_cbufBase c \<le> slice_from c" "slice_from c \<le> cc_hashedTo c"
    "cc_hashedTo c < slice_to c" "slice_to c \<le> int (length P)"
    "slice_from c + sp_window X - 1 = cc_hashedTo c \<or>
       slice_from c = 0 \<and> cc_hashedTo c < sp_window X - 1"
    "slice_to c - slice_from c \<le> cc_batchSize c + sp_window X - 1"
proof -
  have b: "buffer_ok X P c" and p: "cc_window c = sp_window X" "1 \<le> sp_window X" "sp_window X \<le> cc_batchSize c"
    using inv by (simp_all add: core_inv_def params_are_def spec_ok_def)
  have base: "cc_cbufBase c = 0 \<or> cc_cbufBase c + sp_window X - 1 \<le> cc_hashedTo c" "0 \<le> cc_cbufBase c"
      "0 \<le> cc_hashedTo c" "cc_consumed c = int (length P)"
    using b unfolding buffer_ok_def by auto
  show "0 \<le> cc_cbufBase c" "cc_cbufBase c \<le> slice_from c" "slice_from c \<le> cc_hashedTo c"
    "cc_hashedTo c < slice_to c" "slice_to c \<le> int (length P)"
    "slice_from c + sp_window X - 1 = cc_hashedTo c \<or>
       slice_from c = 0 \<and> cc_hashedTo c < sp_window X - 1"
    "slice_to c - slice_from c \<le> cc_batchSize c + sp_window X - 1"
    using base p lt by (auto simp: slice_from_def slice_to_def min_def)
qed

lemma sorted_append_below:
  "sorted_wrt (<) xs \<Longrightarrow> sorted_wrt (<) ys \<Longrightarrow> (\<And>x y. x \<in> set xs \<Longrightarrow> y \<in> set ys \<Longrightarrow> x < y) \<Longrightarrow>
   sorted_wrt (<) (xs @ ys)" for xs :: "int list"
  by (simp add: sorted_wrt_append)

text \<open>Adding the boundaries of the slice keeps the invariant.\<close>

lemma queue_hits:
  assumes inv: "core_inv X P c" and lt: "cc_hashedTo c < cc_consumed c"
    and c': "c' = c\<lparr>cc_la := la, cc_lb := lb,
      cc_bounds := cc_bounds c @ batch_hits X P (slice_from c) (slice_to c), cc_hashedTo := slice_to c\<rparr>"
  shows "core_inv X P c'"
proof -
  let ?new = "batch_hits X P (slice_from c) (slice_to c)"
  note sf = slice_facts [OF inv lt]
  have b: "buffer_ok X P c" and q: "queue_ok X P c" and w: "1 \<le> sp_window X"
    using inv by (simp_all add: core_inv_def params_are_def spec_ok_def)
  have new: "e \<in> set ?new \<longleftrightarrow> hit X P e \<and> slice_from c + sp_window X - 1 \<le> e \<and> e < slice_to c" for e
    by (rule batch_hits_iff) (use sf w in linarith)+
  have le: "max (cc_hashedTo c) (sp_window X - 1) \<le> e" if "e \<in> set ?new" for e
  proof -
    have "sp_window X - 1 \<le> e" "slice_from c + sp_window X - 1 \<le> e"
      using that new [of e] by (simp_all add: hit_def)
    then show ?thesis using sf(6) by auto
  qed
  have start: "cc_chunkStart c \<le> max (cc_hashedTo c) (sp_window X - 1)"
    using b unfolding buffer_ok_def by blast
  have pend: "pending_bounds c' = pending_bounds c @ ?new"
    using queue_okD(1) [OF q] by (simp add: c' pending_bounds_def)
  have "buffer_ok X P c'"
    by (rule buffer_ok_hashedTo [OF b]) (use sf(4,5) in \<open>simp_all add: c' le_max_iff_disj\<close>)
  moreover have "params_are X c'" "no_overflow X (cc_batchSize c') (int (length P))"
    using inv by (simp_all add: core_inv_def params_are_def c')
  moreover have "queue_ok X P c'"
  proof (rule queue_okI)
    show "cc_bcur c' \<le> length (cc_bounds c')" using queue_okD(1) [OF q] by (simp add: c')
    show "sorted_wrt (<) (pending_bounds c')"
      unfolding pend
    proof (rule sorted_append_below [OF queue_okD(2) [OF q] batch_hits_sorted])
      fix x y assume "x \<in> set (pending_bounds c)" "y \<in> set ?new"
      then show "x < y" using queue_okD(5) [OF q, of x] le [of y] by simp
    qed
    show "hit X P e \<and> cc_chunkStart c' \<le> e \<and> e < cc_hashedTo c'"
      if mem: "e \<in> set (pending_bounds c')" for e
    proof -
      consider "e \<in> set (pending_bounds c)" | "e \<in> set ?new" using mem pend by auto
      then show ?thesis
      proof cases
        case 1
        then show ?thesis using queue_okD(3-5) [OF q 1] sf(4) by (simp add: c')
      next
        case 2
        then have "hit X P e" "e < slice_to c" using new [of e] by simp_all
        then show ?thesis using order_trans [OF start le [OF 2]] by (simp add: c')
      qed
    qed
    show "e \<in> set (pending_bounds c')"
      if h: "hit X P e" and e: "first_cut X (cc_chunkStart c') \<le> e" "e < cc_hashedTo c'" for e
    proof (cases "e < cc_hashedTo c")
      case True
      then show ?thesis using queue_okD(6) [OF q h] e pend by (simp add: c')
    next
      case False
      then have "slice_from c + sp_window X - 1 \<le> e"
        using sf(6) h by (auto simp: hit_def)
      then show ?thesis using new [of e] h e pend by (simp add: c')
    qed
    show "e < first_cut X (cc_chunkStart c')" if "e \<in> set (take (cc_bcur c') (cc_bounds c'))" for e
      using that queue_okD(7) [OF q, of e] queue_okD(1) [OF q] by (simp add: c')
  qed
  ultimately show ?thesis by (simp add: core_inv_def)
qed

context digest
begin

text \<open>What \<open>BatchBoundaries\<close> reports for the slice, with the positions made global.\<close>

lemma slice_boundaries:
  assumes h: "hash_ok H inv S fits X c" and w: "1 \<le> sp_window X"
    and b: "0 \<le> b" "hi \<le> int (length P)" and len: "sp_window X \<le> hi - b" "hi - b - sp_window X < 2 ^ 31"
    and need: "need = nat (hi - b - sp_window X + 1)"
    and bufs: "length la = need" "length lb = need"
    and buf: "buf = take (nat (hi - b)) (drop (nat b) P)"
  shows "\<exists>la' lb' na nb. cc_brd c (cc_h c) la lb buf (sp_window X) (sp_mask X) = Some (la', lb', na, nb) \<and>
    length la' = need \<and> length lb' = need \<and>
    go_slice la' 0 (int na) = Some (take na la') \<and> go_slice lb' 0 (int nb) = Some (take nb lb') \<and>
    add_bounds b (sp_window X) (take na la') @ add_bounds b (sp_window X) (take nb lb') = batch_hits X P b hi"
proof -
  define w' where "w' = nat (sp_window X)"
  define n where "n = need - 1"
  have w': "int w' = sp_window X" "0 < w'" using w by (simp_all add: w'_def)
  have nd: "need = Suc n" using len need by (simp add: n_def)
  have lbuf: "int (length buf) = hi - b" using b len w by (simp add: buf)
  have n: "n + w' = length buf" "n < length la" "n < length lb"
    using lbuf len need w' bufs by (simp_all add: n_def)
  have "fits w'" and brd: "h_BatchBoundaries H = Some (cc_brd c)" and "inv (cc_h c)"
    and S: "S (cc_h c) = sp_sum X"
    using h by (simp_all add: hash_ok_def w'_def)
  then obtain la' lb' na nb where r: "cc_brd c (cc_h c) la lb buf (int w') (sp_mask X) = Some (la', lb', na, nb)"
      "length la' = need" "length lb' = need" "na \<le> need" "nb \<le> need"
      "take na la' @ take nb lb' =
        map word_of_nat (filter (\<lambda>p. sp_sum X (window_at w' buf p) AND sp_mask X = 0) [0..<need])"
    using boundaries [of "cc_h c" w' n buf la lb "sp_mask X"] w' n bufs nd
    unfolding boundaries_are_def by auto
  have "add_bounds b (sp_window X) (take na la') @ add_bounds b (sp_window X) (take nb lb') =
      map (\<lambda>g. b + sint g + sp_window X - 1) (take na la' @ take nb lb')"
    by (simp add: add_bounds_def)
  also have "\<dots> = map (\<lambda>p. b + sint (word_of_nat p :: i32) + sp_window X - 1)
      (filter (\<lambda>p. sp_sum X (window_at w' buf p) AND sp_mask X = 0) [0..<need])"
    unfolding r(6) by (simp add: comp_def)
  also have "\<dots> = map (\<lambda>p. b + int p + sp_window X - 1)
      (filter (\<lambda>p. sp_sum X (window_at w' buf p) AND sp_mask X = 0) [0..<need])"
  proof (rule map_cong [OF refl])
    fix p assume "p \<in> set (filter (\<lambda>p. sp_sum X (window_at w' buf p) AND sp_mask X = 0) [0..<need])"
    then have "p < 2 ^ 31" using need len by simp linarith
    then show "b + sint (word_of_nat p :: i32) + sp_window X - 1 = b + int p + sp_window X - 1"
      by (simp add: sint_position)
  qed
  also have "\<dots> = batch_hits X P b hi"
    by (simp add: batch_hits_def need buf w'_def)
  finally show ?thesis
    using r w' by (intro exI [of _ la'] exI [of _ lb'] exI [of _ na] exI [of _ nb]) (simp add: go_slice_def)
qed

lemma hash_ok_skip: "hash_ok H dinv dS dfits X (c\<lparr>cc_hashedTo := t\<rparr>) = hash_ok H dinv dS dfits X c"
  by (simp add: hash_ok_def)

lemma hashForward_cases:
  assumes inv0: "core_inv X P c" and h0: "hash_ok H inv S fits X c"
  obtains (stuck) "hashForward c = Some (False, c\<lparr>cc_hashedTo := skip_to X c\<rparr>)"
      "int (length P) \<le> skip_to X c \<or> int (length P) < sp_window X"
    | (step) c' where "hashForward c = Some (True, c')" "core_inv X P c'" "hash_ok H inv S fits X c'"
      "hash_frame c c'" "\<exists>new. cc_bounds c' = cc_bounds c @ new" "skip_to X c < cc_hashedTo c'"
      "cc_hashedTo c' = min (skip_to X c + cc_batchSize c) (int (length P))"
proof -
  define t where "t = skip_to X c"
  define c1 where "c1 = c\<lparr>cc_hashedTo := t\<rparr>"
  have skip: "skipPreMin c = c1" unfolding c1_def t_def by (rule skipPreMin_eq [OF inv0])
  have inv: "core_inv X P c1" unfolding c1_def t_def by (rule skip_inv [OF inv0])
  have h: "hash_ok H inv S fits X c1" unfolding c1_def hash_ok_skip by (rule h0)
  have win: "cc_window c = cc_window c1" by (simp add: c1_def)
  have par: "cc_window c1 = sp_window X" "cc_mask c1 = sp_mask X" "1 \<le> sp_window X"
      "sp_window X \<le> cc_batchSize c1" "cc_batchSize c1 + sp_window X \<le> 2 ^ 31"
      "cc_consumed c1 = int (length P)" "cc_cbuf c1 = drop (nat (cc_cbufBase c1)) P"
    using inv by (simp_all add: core_inv_def params_are_def spec_ok_def buffer_ok_def)
  show thesis
  proof (cases "cc_consumed c1 \<le> cc_hashedTo c1")
    case True
    then have "hashForward c = Some (False, c1)"
      by (simp add: hashForward_def skip Let_def)
    then show thesis
      using stuck True par by (simp add: c1_def t_def)
  next
    case False
    then have lt: "cc_hashedTo c1 < cc_consumed c1" by simp
    note sf = slice_facts [OF inv lt]
    have ovf: "wrap_int (cc_hashedTo c1 + cc_batchSize c1) = cc_hashedTo c1 + cc_batchSize c1"
    proof -
      have "0 \<le> cc_hashedTo c1" "0 \<le> sp_min X" "int (length P) + sp_min X + cc_batchSize c1 < MaxInt"
        using inv by (simp_all add: core_inv_def buffer_ok_def params_are_def spec_ok_def no_overflow_def)
      then have "0 \<le> cc_hashedTo c1 + cc_batchSize c1" "cc_hashedTo c1 + cc_batchSize c1 \<le> MaxInt"
        using lt par(3,4,6) by linarith+
      then show ?thesis by (simp add: wrap_int_id)
    qed
    define b where "b = slice_from c1"
    define hi where "hi = slice_to c1"
    define buf where "buf = take (nat (hi - b)) (drop (nat b) P)"
    have b0: "0 \<le> b" "cc_cbufBase c1 \<le> b" "b \<le> hi" "hi \<le> int (length P)" "0 \<le> cc_cbufBase c1"
      using sf by (simp_all add: b_def hi_def)
    have "nat (b - cc_cbufBase c1) + nat (cc_cbufBase c1) = nat b" using b0 by simp
    then have slice: "go_slice (cc_cbuf c1) (b - cc_cbufBase c1) (hi - cc_cbufBase c1) = Some buf"
      using b0 par by (simp add: go_slice_def buf_def)
    have lbuf: "int (length buf) = hi - b" using b0 by (simp add: buf_def)
    show thesis
    proof (cases "hi - b < sp_window X")
      case True
      have "hashForward c = Some (False, c1)"
        using False True slice par lbuf
        unfolding hashForward_def skip Let_def win ovf slice_from_def [symmetric] slice_to_def [symmetric]
          b_def [symmetric] hi_def [symmetric] by simp
      moreover have "int (length P) < sp_window X"
      proof -
        have "cc_hashedTo c1 < hi" using sf(4) by (simp add: hi_def)
        then have b: "b = 0" using True sf(6) by (auto simp: b_def)
        have "hi < cc_hashedTo c1 + cc_batchSize c1"
          using True par b b0 inv by (simp add: core_inv_def buffer_ok_def)
        then show ?thesis using True par b by (simp add: hi_def slice_to_def)
      qed
      ultimately show thesis using stuck by (simp add: c1_def t_def)
    next
      case big: False
      define need where "need = nat (hi - b - sp_window X + 1)"
      define c2 where "c2 = (if length (cc_la c1) < need
        then c1\<lparr>cc_la := replicate need 0, cc_lb := replicate need 0\<rparr> else c1)"
      have h2: "hash_ok H inv S fits X c2" using h by (simp add: c2_def hash_ok_def)
      have room: "need \<le> length (cc_la c2)" "length (cc_lb c2) = length (cc_la c2)"
        using h by (auto simp: c2_def hash_ok_def)
      have c2: "cc_brd c2 = cc_brd c1" "cc_h c2 = cc_h c1" "cc_bounds c2 = cc_bounds c1" "cc_mask c2 = sp_mask X"
        using par by (simp_all add: c2_def)
      have small: "hi - b - sp_window X < 2 ^ 31" using sf(7) par by (simp add: hi_def b_def)
      have len: "sp_window X \<le> hi - b" using big by simp
      have bufs: "length (take need (cc_la c2)) = need" "length (take need (cc_lb c2)) = need"
        using room by simp_all
      obtain la lb na nb where
        r: "cc_brd c2 (cc_h c2) (take need (cc_la c2)) (take need (cc_lb c2)) buf (sp_window X) (sp_mask X) =
            Some (la, lb, na, nb)"
        and l: "length la = need" "length lb = need"
        and g: "go_slice la 0 (int na) = Some (take na la)" "go_slice lb 0 (int nb) = Some (take nb lb)"
        and ab: "add_bounds b (sp_window X) (take na la) @ add_bounds b (sp_window X) (take nb lb) =
          batch_hits X P b hi"
        using slice_boundaries [OF h2 par(3) b0(1,4) len small need_def bufs buf_def] by blast
      define c3 where "c3 = c1\<lparr>cc_la := la @ drop need (cc_la c2), cc_lb := lb @ drop need (cc_lb c2),
        cc_bounds := cc_bounds c1 @ batch_hits X P b hi, cc_hashedTo := hi\<rparr>"
      have c3: "c2\<lparr>cc_la := la @ drop need (cc_la c2), cc_lb := lb @ drop need (cc_lb c2),
        cc_bounds := cc_bounds c2 @ batch_hits X P b hi, cc_hashedTo := hi\<rparr> = c3"
        by (simp add: c2_def c3_def)
      have nd: "nat (int (length buf) - sp_window X + 1) = need" by (simp add: need_def lbuf)
      have "hashForward c = Some (True, c3)"
        using False big slice r g ab c3 c2
        unfolding hashForward_def skip Let_def win ovf slice_from_def [symmetric] slice_to_def [symmetric]
          b_def [symmetric] hi_def [symmetric] unfolding par
        by (cases "length (cc_la c1) < need") (simp_all add: lbuf nd need_def [symmetric] c2_def par)
      moreover have "core_inv X P c3"
        by (rule queue_hits [OF inv lt, where la = "la @ drop need (cc_la c2)" and lb = "lb @ drop need (cc_lb c2)"])
          (simp add: c3_def b_def hi_def)
      moreover have "hash_ok H inv S fits X c3"
        using h l room by (simp add: c3_def hash_ok_def)
      moreover have "hash_frame c c3"
        unfolding c3_def c1_def hash_frame_def by simp blast
      moreover have "\<exists>new. cc_bounds c3 = cc_bounds c @ new" by (simp add: c3_def c1_def)
      moreover have "skip_to X c < cc_hashedTo c3" "cc_hashedTo c3 = min (skip_to X c + cc_batchSize c) (int (length P))"
        using sf(4) par by (simp_all add: c3_def hi_def c1_def t_def slice_to_def)
      ultimately show thesis by (rule step)
    qed
  qed
qed

end

section \<open>The loop of next\<close>

text \<open>The loop ends: each round hashes at least one more byte. When it does, either the queue ends
  with a boundary that is not too short, or everything before \<open>hashLimit\<close> that is buffered and can
  end a window has been hashed.\<close>

definition hashed_enough :: "chunk_spec \<Rightarrow> byte list \<Rightarrow> int \<Rightarrow> int \<Rightarrow> 'd chunkerCore \<Rightarrow> bool" where
  "hashed_enough X P hashLimit minByte c \<longleftrightarrow>
     cc_bounds c \<noteq> [] \<and> minByte \<le> last (cc_bounds c) \<or>
     hashLimit \<le> cc_hashedTo c \<or> int (length P) \<le> cc_hashedTo c \<or> int (length P) < sp_window X"

text \<open>The state a core is in when it is fed in steps of at most one batch, as the pull side does: one
  round hashes all that is buffered.\<close>

definition one_batch :: "byte list \<Rightarrow> 'd chunkerCore \<Rightarrow> bool" where
  "one_batch P c \<longleftrightarrow> (cc_bounds c = [] \<or> int (length P) \<le> cc_hashedTo c) \<and>
     int (length P) \<le> cc_hashedTo c + cc_batchSize c"

context digest
begin

lemma hash_until_ok:
  assumes "core_inv X P c" and "hash_ok H inv S fits X c"
  shows "\<exists>c'. hash_until lim m c = Some c' \<and> core_inv X P c' \<and> hash_ok H inv S fits X c' \<and> hash_frame c c' \<and>
    (\<exists>new. cc_bounds c' = cc_bounds c @ new) \<and> cc_hashedTo c \<le> cc_hashedTo c' \<and>
    hashed_enough X P lim m c' \<and> (one_batch P c \<longrightarrow> one_batch P c')"
  using assms
proof (induction "nat (int (length P) - cc_hashedTo c)" arbitrary: c rule: less_induct)
  case less
  show ?case
  proof (cases "cc_hashedTo c < lim \<and> \<not> (cc_bounds c \<noteq> [] \<and> m \<le> last (cc_bounds c))")
    case False
    then have "hash_until lim m c = Some c" "hashed_enough X P lim m c"
      by (auto simp: hash_until.simps hashed_enough_def)
    then show ?thesis using less.prems hash_frame_refl by (intro exI [of _ c]) simp
  next
    case True
    show ?thesis
    proof (cases rule: hashForward_cases [OF less.prems, case_names stuck step])
      case stuck
      define c1 where "c1 = c\<lparr>cc_hashedTo := skip_to X c\<rparr>"
      have "hash_until lim m c = Some c1"
        using True stuck by (subst hash_until.simps) (auto simp: c1_def)
      moreover have "core_inv X P c1" unfolding c1_def by (rule skip_inv [OF less.prems(1)])
      moreover have "hash_ok H inv S fits X c1" unfolding c1_def hash_ok_skip by (rule less.prems(2))
      moreover have "hash_frame c c1"
        unfolding c1_def hash_frame_def
        by (rule exI [of _ "cc_la c"], rule exI [of _ "cc_lb c"], rule exI [of _ "cc_bounds c"], rule exI) simp
      moreover have "\<exists>new. cc_bounds c1 = cc_bounds c @ new" "cc_hashedTo c \<le> cc_hashedTo c1"
        by (simp_all add: c1_def skip_to_def)
      moreover have "hashed_enough X P lim m c1" using stuck(2) by (auto simp: hashed_enough_def c1_def)
      moreover have "one_batch P c \<longrightarrow> one_batch P c1"
        by (auto simp: one_batch_def c1_def skip_to_def le_max_iff_disj)
      ultimately show ?thesis by blast
    next
      case (step c1)
      have p: "1 \<le> sp_window X" "sp_window X \<le> cc_batchSize c"
        using less.prems(1) by (simp_all add: core_inv_def params_are_def spec_ok_def)
      have le: "cc_hashedTo c \<le> skip_to X c" by (simp add: skip_to_def)
      have "cc_hashedTo c1 \<le> int (length P)" using step(7) by simp
      then have "nat (int (length P) - cc_hashedTo c1) < nat (int (length P) - cc_hashedTo c)"
        using step(6) le by linarith
      from less.hyps [OF this step(2,3)] obtain c' where c': "hash_until lim m c1 = Some c'"
        "core_inv X P c'" "hash_ok H inv S fits X c'" "hash_frame c1 c'"
        "\<exists>new. cc_bounds c' = cc_bounds c1 @ new" "cc_hashedTo c1 \<le> cc_hashedTo c'" "hashed_enough X P lim m c'"
        "one_batch P c1 \<longrightarrow> one_batch P c'" by blast
      have run: "hash_until lim m c = Some c'"
        using True step(1) c'(1) by (subst hash_until.simps) auto
      have "\<exists>new. cc_bounds c' = cc_bounds c @ new" using step(5) c'(5) by fastforce
      moreover have "one_batch P c \<longrightarrow> one_batch P c1"
      proof
        assume "one_batch P c"
        then have "int (length P) \<le> skip_to X c + cc_batchSize c" using le by (simp add: one_batch_def)
        then show "one_batch P c1"
          using step(7) p hash_frameD(9) [OF step(4)] by (simp add: one_batch_def)
      qed
      moreover have "cc_hashedTo c \<le> cc_hashedTo c'" using step(6) le c'(6) by simp
      ultimately show ?thesis
        using run c' hash_frame_trans [OF step(4) c'(4)] by (intro exI [of _ c']) blast
    qed
  qed
qed

end

section \<open>The scan of the queue\<close>

lemma scan_bounds_cases:
  assumes "bcur \<le> length bounds"
  obtains (cut) pre e post where "drop bcur bounds = pre @ e # post" "\<And>x. x \<in> set pre \<Longrightarrow> x < m"
      "m \<le> e" "e \<le> M" "scan_bounds bounds bcur m M = (bcur + length pre + 1, Some e)"
    | (far) pre e post where "drop bcur bounds = pre @ e # post" "\<And>x. x \<in> set pre \<Longrightarrow> x < m"
      "m \<le> e" "M < e" "scan_bounds bounds bcur m M = (bcur + length pre, None)"
    | (empty) "\<And>x. x \<in> set (drop bcur bounds) \<Longrightarrow> x < m"
      "scan_bounds bounds bcur m M = (length bounds, None)"
proof -
  have "(\<exists>pre e post. drop bcur bounds = pre @ e # post \<and> (\<forall>x \<in> set pre. x < m) \<and> m \<le> e \<and>
      (e \<le> M \<and> scan_bounds bounds bcur m M = (bcur + length pre + 1, Some e) \<or>
       M < e \<and> scan_bounds bounds bcur m M = (bcur + length pre, None))) \<or>
    (\<forall>x \<in> set (drop bcur bounds). x < m) \<and> scan_bounds bounds bcur m M = (length bounds, None)"
    using assms
  proof (induction "length bounds - bcur" arbitrary: bcur)
    case 0
    then show ?case by (subst (1 2 3) scan_bounds.simps) simp
  next
    case (Suc k)
    then have lt: "bcur < length bounds" by simp
    then have dr: "drop bcur bounds = bounds ! bcur # drop (Suc bcur) bounds" by (rule Cons_nth_drop_Suc [symmetric])
    show ?case
    proof (cases "bounds ! bcur < m")
      case False
      then show ?thesis
        using lt dr by (intro disjI1 exI [of _ "[]"] exI [of _ "bounds ! bcur"] exI [of _ "drop (Suc bcur) bounds"])
          (auto simp: scan_bounds.simps [of bounds bcur] Let_def)
    next
      case True
      have step: "scan_bounds bounds bcur m M = scan_bounds bounds (Suc bcur) m M"
        using True lt by (simp add: scan_bounds.simps [of bounds bcur])
      have "k = length bounds - Suc bcur" "Suc bcur \<le> length bounds" using Suc.hyps(2) lt by simp_all
      from Suc.hyps(1) [OF this] show ?thesis
        unfolding step dr
      proof (elim disjE exE conjE, goal_cases)
        case (1 pre e post)
        then show ?case using True
          by (intro disjI1 exI [of _ "bounds ! bcur # pre"] exI [of _ e] exI [of _ post]) simp
      next
        case (2 pre e post)
        then show ?case using True
          by (intro disjI1 exI [of _ "bounds ! bcur # pre"] exI [of _ e] exI [of _ post]) simp
      next
        case 3
        then show ?case using True by simp
      qed
    qed
  qed
  then show thesis using cut far empty by blast
qed

end
