(* ===== verification/Chunker_Next.thy ===== *)
theory Chunker_Next
  imports Chunker_Hash
begin

text \<open>
  One call of \<open>next\<close>: the chunk it hands out is the chunk of the specification, whatever bytes
  still follow; it asks for more bytes only when no cut is determined yet; and it reports the end
  exactly when every byte has been handed out.
\<close>

section \<open>What a call of next hands out\<close>

text \<open>The accessors \<open>Bytes\<close>, \<open>Sum\<close>, \<open>ContentDefined\<close> and \<open>Offset\<close>; no chunk when \<open>Bytes\<close> is nil.\<close>

definition core_chunk :: "'d chunkerCore \<Rightarrow> chunk option" where
  "core_chunk c = map_option (\<lambda>b.
     \<lparr>ch_offset = core_Offset c, ch_bytes = b, ch_contentDefined = core_ContentDefined c, ch_sum = core_Sum c\<rparr>)
     (core_Bytes c)"

text \<open>No entry before the cursor looks like a usable boundary to the loop of \<open>next\<close>: the minimum is
  positive, or nothing has been used, or everything is hashed already.\<close>

definition no_stale :: "chunk_spec \<Rightarrow> byte list \<Rightarrow> 'd chunkerCore \<Rightarrow> bool" where
  "no_stale X P c \<longleftrightarrow> 1 \<le> sp_min X \<or> cc_bcur c = 0 \<or> int (length P) \<le> cc_hashedTo c"

section \<open>The queue and the buffer after a cut\<close>

lemma first_cut_mono: "s \<le> t \<Longrightarrow> first_cut X s \<le> first_cut X t"
  by (auto simp: first_cut_def)

lemma queue_emit:
  assumes q: "queue_ok X P c" and pend: "pending_bounds c = pre @ rest"
    and s: "cc_chunkStart c \<le> cc_chunkStart c'"
    and pre: "\<And>x. x \<in> set pre \<Longrightarrow> x < first_cut X (cc_chunkStart c')"
    and rest: "\<And>x. x \<in> set rest \<Longrightarrow> cc_chunkStart c' \<le> x"
    and c': "cc_bounds c' = cc_bounds c" "cc_hashedTo c' = cc_hashedTo c"
      "cc_bcur c' = cc_bcur c + length pre"
  shows "queue_ok X P c'"
proof -
  have b: "cc_bounds c = take (cc_bcur c) (cc_bounds c) @ pre @ rest"
    using pend append_take_drop_id [of "cc_bcur c" "cc_bounds c"] by (simp only: pending_bounds_def)
  have l: "length (cc_bounds c) = cc_bcur c + length pre + length rest"
    using queue_okD(1) [OF q] arg_cong [OF pend, of length] by (simp add: pending_bounds_def)
  have "take (cc_bcur c') (cc_bounds c') = take (cc_bcur c) (cc_bounds c) @ pre"
    using queue_okD(1) [OF q] by (subst c'(1), subst b) (simp add: c'(3))
  moreover have "pending_bounds c' = rest"
    using queue_okD(1) [OF q] unfolding pending_bounds_def c'(1) by (subst b) (simp add: c'(3))
  moreover have sub: "\<And>x. x \<in> set rest \<Longrightarrow> x \<in> set (pending_bounds c)" by (simp add: pend)
  moreover have mono: "first_cut X (cc_chunkStart c) \<le> first_cut X (cc_chunkStart c')"
    by (rule first_cut_mono [OF s])
  moreover have "x \<in> set rest"
    if "hit X P x" "first_cut X (cc_chunkStart c') \<le> x" "x < cc_hashedTo c" for x
  proof -
    have "x \<in> set (pending_bounds c)" using queue_okD(6) [OF q that(1) _ that(3)] that(2) mono by simp
    then show ?thesis using pre [of x] that(2) by (auto simp: pend)
  qed
  moreover have "sorted_wrt (<) rest" using queue_okD(2) [OF q] by (simp add: pend sorted_wrt_append)
  moreover have "x < first_cut X (cc_chunkStart c')" if "x \<in> set (take (cc_bcur c) (cc_bounds c))" for x
    using queue_okD(7) [OF q that] mono by simp
  ultimately show ?thesis
    using queue_okD(3,5) [OF q] rest pre l c' by (intro queue_okI) auto
qed

lemma buffer_emit:
  assumes "buffer_ok X P c" and "cc_chunkStart c \<le> cc_chunkStart c'" and "cc_chunkStart c' \<le> int (length P)"
    and "cc_chunkStart c' \<le> max (cc_hashedTo c) (sp_window X - 1)"
    and c': "cc_consumed c' = cc_consumed c" "cc_cbufBase c' = cc_cbufBase c" "cc_cbuf c' = cc_cbuf c"
      "cc_hashedTo c' = cc_hashedTo c"
  shows "buffer_ok X P c'"
  using assms(1-4) unfolding buffer_ok_def c' by auto

section \<open>Emitting a chunk\<close>

lemma slice_of_drop:
  assumes "0 \<le> base" "base \<le> lo" "lo \<le> hi" "hi \<le> int (length P)"
  shows "go_slice (drop (nat base) P) (lo - base) (hi - base) = Some (take (nat (hi - lo)) (drop (nat lo) P))"
proof -
  have "nat (lo - base) + nat base = nat lo" using assms by simp
  then show ?thesis using assms by (simp add: go_slice_def)
qed

text \<open>The state after a chunk is recorded.\<close>

definition emitted_core :: "chunk_spec \<Rightarrow> byte list \<Rightarrow> 'd chunkerCore \<Rightarrow> int \<Rightarrow> bool \<Rightarrow> 'd \<Rightarrow> 'd chunkerCore" where
  "emitted_core X P c e cd h' = c\<lparr>cc_h := h',
     cc_chunk := Some (take (nat (e - cc_chunkStart c + 1)) (drop (nat (cc_chunkStart c)) P)),
     cc_offset := cc_chunkStart c, cc_sumv := sum_at X P e, cc_contentDefined := cd, cc_chunkStart := e + 1\<rparr>"

context digest
begin

lemma windowSum_ok:
  assumes b: "buffer_ok X P c" and par: "params_are X c" and h: "hash_ok H inv S fits X c"
    and e: "cc_chunkStart c \<le> e" "e < int (length P)"
  shows "\<exists>h'. windowSum c e = Some (sum_at X P e, c\<lparr>cc_h := h'\<rparr>) \<and> inv h' \<and> S h' = sp_sum X"
proof (cases "e - cc_window c + 1 < cc_cbufBase c")
  case True
  then have "cc_cbufBase c = 0" using b par e unfolding buffer_ok_def params_are_def by auto
  then have "sum_at X P e = 0" using True par by (simp add: sum_at_def params_are_def)
  then show ?thesis
    using True h by (intro exI [of _ "cc_h c"]) (simp add: windowSum_def hash_ok_def)
next
  case False
  define start where "start = e - sp_window X + 1"
  have w: "cc_window c = sp_window X" "1 \<le> sp_window X" using par by (simp_all add: params_are_def spec_ok_def)
  have base: "0 \<le> cc_cbufBase c" "cc_cbufBase c \<le> start" "cc_cbuf c = drop (nat (cc_cbufBase c)) P"
    using b False w by (simp_all add: buffer_ok_def start_def)
  define win where "win = window_at (nat (sp_window X)) P (nat start)"
  have hi: "start - cc_cbufBase c + sp_window X = e + 1 - cc_cbufBase c" by (simp add: start_def)
  have slice: "go_slice (cc_cbuf c) (start - cc_cbufBase c) (start - cc_cbufBase c + sp_window X) = Some win"
    unfolding hi base(3) using slice_of_drop [of "cc_cbufBase c" start "e + 1" P] base e w
    by (simp add: start_def win_def window_at_def)
  have "length win = nat (sp_window X)"
    unfolding win_def using base e w by (intro length_window_at) (simp add: start_def)
  then have "fits (length win)" and hh: "inv (cc_h c)" "S (cc_h c) = sp_sum X" "cc_H c = H" "cc_sum c = core_sum H"
    using h by (simp_all add: hash_ok_def)
  then obtain h0 h' where r: "h_Reset H (cc_h c) = Some h0" "h_Write H h0 win = Some h'"
      "inv h'" "S h' = sp_sum X" "core_sum H h' = sp_sum X win"
    using reset_write_sum [OF hh(1), of win] by auto
  have "sum_at X P e = sp_sum X win"
    using base by (simp add: sum_at_def win_def start_def)
  moreover have "windowSum c e = Some (core_sum H h', c\<lparr>cc_h := h'\<rparr>)"
    using False r slice unfolding windowSum_def w Let_def start_def [symmetric] by (simp add: hh)
  ultimately show ?thesis using r by auto
qed

lemma emit_ok:
  assumes b: "buffer_ok X P c" and par: "params_are X c" and h: "hash_ok H inv S fits X c"
    and e: "cc_chunkStart c \<le> e" "e < int (length P)"
  shows "\<exists>h'. core_emit c e cd = Some (emitted_core X P c e cd h') \<and> inv h' \<and> S h' = sp_sum X"
proof -
  define c1 where "c1 = c\<lparr>cc_chunk := Some (take (nat (e - cc_chunkStart c + 1)) (drop (nat (cc_chunkStart c)) P)),
    cc_offset := cc_chunkStart c\<rparr>"
  have same: "buffer_ok X P c1" "params_are X c1" "hash_ok H inv S fits X c1" "cc_chunkStart c1 = cc_chunkStart c"
    using b par h by (simp_all add: c1_def buffer_ok_def params_are_def hash_ok_def)
  obtain h' where h': "windowSum c1 e = Some (sum_at X P e, c1\<lparr>cc_h := h'\<rparr>)" "inv h'" "S h' = sp_sum X"
    using windowSum_ok [OF same(1-3)] e same(4) by auto
  have hi: "cc_chunkStart c - cc_cbufBase c + (e - cc_chunkStart c + 1) = e + 1 - cc_cbufBase c" by simp
  have "go_slice (cc_cbuf c) (cc_chunkStart c - cc_cbufBase c) (e + 1 - cc_cbufBase c) =
      Some (take (nat (e - cc_chunkStart c + 1)) (drop (nat (cc_chunkStart c)) P))"
    using slice_of_drop [of "cc_cbufBase c" "cc_chunkStart c" "e + 1" P] b e
    by (simp add: buffer_ok_def algebra_simps)
  then have "core_emit c e cd = Some (emitted_core X P c e cd h')"
    using h'(1) unfolding core_emit_def Let_def hi by (simp add: c1_def emitted_core_def)
  then show ?thesis using h' by blast
qed

lemma emit_inv:
  assumes inv: "core_inv X P c" and h: "hash_ok H inv S fits X c" and pend: "pending_bounds c = pre @ rest"
    and e: "cc_chunkStart c \<le> e" "e < int (length P)" "e + 1 \<le> max (cc_hashedTo c) (sp_window X - 1)"
    and pre: "\<And>x. x \<in> set pre \<Longrightarrow> x < first_cut X (e + 1)"
    and rest: "\<And>x. x \<in> set rest \<Longrightarrow> e + 1 \<le> x"
  shows "\<exists>c'. core_emit (c\<lparr>cc_bcur := cc_bcur c + length pre\<rparr>) e cd = Some c' \<and> core_inv X P c' \<and>
    hash_ok H inv S fits X c' \<and> cc_chunkStart c' = e + 1 \<and>
    core_chunk c' = Some (cut_chunk X P (cc_chunkStart c) e cd) \<and>
    cc_eof c' = cc_eof c \<and> cc_done c' = cc_done c \<and> cc_err c' = cc_err c \<and>
    cc_bounds c' = cc_bounds c \<and> cc_hashedTo c' = cc_hashedTo c \<and> cc_batchSize c' = cc_batchSize c"
proof -
  define c2 where "c2 = c\<lparr>cc_bcur := cc_bcur c + length pre\<rparr>"
  have b: "buffer_ok X P c" and par: "params_are X c" and q: "queue_ok X P c"
    using inv by (simp_all add: core_inv_def)
  have same: "buffer_ok X P c2" "params_are X c2" "hash_ok H inv S fits X c2"
    "cc_chunkStart c2 = cc_chunkStart c"
    using b par h by (simp_all add: c2_def buffer_ok_def params_are_def hash_ok_def)
  obtain h' where h': "core_emit c2 e cd = Some (emitted_core X P c2 e cd h')" "inv h'" "S h' = sp_sum X"
    using emit_ok [OF same(1-3), of e cd] e same(4) by auto
  define c' where "c' = emitted_core X P c2 e cd h'"
  have q': "queue_ok X P c'"
    by (rule queue_emit [OF q pend]) (use e pre rest in \<open>simp_all add: c'_def emitted_core_def c2_def\<close>)
  have b': "buffer_ok X P c'"
    by (rule buffer_emit [OF b]) (use e in \<open>simp_all add: c'_def emitted_core_def c2_def\<close>)
  have "core_inv X P c'"
    using inv q' b' by (simp add: core_inv_def params_are_def c'_def emitted_core_def c2_def)
  moreover have "hash_ok H inv S fits X c'"
    using h h'(2,3) by (simp add: hash_ok_def c'_def emitted_core_def c2_def)
  moreover have "core_chunk c' = Some (cut_chunk X P (cc_chunkStart c) e cd)"
    by (simp add: core_chunk_def cut_chunk_def c'_def emitted_core_def c2_def)
  ultimately show ?thesis
    using h'(1) unfolding c2_def [symmetric] c'_def [symmetric]
    by (intro exI [of _ c']) (simp add: c'_def emitted_core_def c2_def)
qed

end

section \<open>The cuts are those of the specification\<close>

text \<open>When the scan finds a boundary in range, the specification cuts there, whatever follows.\<close>

lemma scan_cut:
  assumes inv: "core_inv X P c" and pend: "pending_bounds c = pre @ e # post"
    and pre: "\<And>x. x \<in> set pre \<Longrightarrow> x < cc_chunkStart c + sp_min X - 1"
    and e: "cc_chunkStart c + sp_min X - 1 \<le> e" "e < cc_chunkStart c + sp_max X"
  shows "ref_cut X (P @ Q) (cc_chunkStart c) = (e, True)"
proof (rule ref_cut_hit)
  have q: "queue_ok X P c" and w: "1 \<le> sp_window X"
    using inv by (simp_all add: core_inv_def params_are_def spec_ok_def)
  have eq: "e \<in> set (pending_bounds c)" by (simp add: pend)
  have eP: "e < int (length P)" using queue_okD(3) [OF q eq] by (simp add: hit_def)
  show "hit X (P @ Q) e" using queue_okD(3) [OF q eq] eP w by (simp add: hit_append)
  show "first_cut X (cc_chunkStart c) \<le> e" using e queue_okD(4) [OF q eq] by (simp add: first_cut_def)
  show "e < cc_chunkStart c + sp_max X" by (rule e(2))
  show "\<not> hit X (P @ Q) i" if i: "first_cut X (cc_chunkStart c) \<le> i" "i < e" for i
  proof
    assume "hit X (P @ Q) i"
    then have hi: "hit X P i" using i eP w by (simp add: hit_append)
    have "i < cc_hashedTo c" using i queue_okD(5) [OF q eq] by simp
    then have "i \<in> set (pre @ e # post)"
      using queue_okD(6) [OF q hi i(1)] by (simp add: pend)
    moreover have "i \<notin> set pre" using pre [of i] i by (auto simp: first_cut_def)
    moreover have "i \<notin> set post" using queue_okD(2) [OF q] i by (auto simp: pend sorted_wrt_append)
    ultimately show False using i by simp
  qed
qed

text \<open>When the scan finds none, everything that matters has been hashed.\<close>

lemma scan_none_covered:
  assumes inv: "core_inv X P c" and enough: "hashed_enough X P lim m c" and stale: "no_stale X P c"
    and m: "m = cc_chunkStart c + sp_min X - 1"
    and pend: "pending_bounds c = pre @ rest" "\<And>x. x \<in> set pre \<Longrightarrow> x < m"
    and rest: "\<And>x. x \<in> set rest \<Longrightarrow> M < x"
    and lim: "M + 1 \<le> lim \<or> int (length P) \<le> lim"
  shows "M + 1 \<le> cc_hashedTo c \<or> int (length P) \<le> cc_hashedTo c \<or> int (length P) < sp_window X"
proof -
  have q: "queue_ok X P c" using inv by (simp add: core_inv_def)
  consider (last) "cc_bounds c \<noteq> []" "m \<le> last (cc_bounds c)" | (lim) "lim \<le> cc_hashedTo c"
    | "int (length P) \<le> cc_hashedTo c" | "int (length P) < sp_window X"
    using enough unfolding hashed_enough_def by blast
  then show ?thesis
  proof cases
    case last
    show ?thesis
    proof (cases "rest = []")
      case False
      then obtain x where x: "x \<in> set rest" by (cases rest) auto
      have "x < cc_hashedTo c" by (rule queue_okD(5) [OF q]) (simp add: pend x)
      then show ?thesis using rest [OF x] by simp
    next
      case True
      have split: "cc_bounds c = take (cc_bcur c) (cc_bounds c) @ pending_bounds c"
        by (simp add: pending_bounds_def)
      have "last (cc_bounds c) \<in> set (take (cc_bcur c) (cc_bounds c)) \<union> set (pending_bounds c)"
        using last(1) split by (metis last_in_set set_append)
      moreover have "last (cc_bounds c) \<notin> set (pending_bounds c)"
        using pend True last(2) by fastforce
      ultimately have used: "last (cc_bounds c) \<in> set (take (cc_bcur c) (cc_bounds c))" by simp
      then have "m < first_cut X (cc_chunkStart c)" using queue_okD(7) [OF q used] last(2) by simp
      then have "\<not> 1 \<le> sp_min X" by (auto simp: m first_cut_def)
      moreover have "cc_bcur c \<noteq> 0" using used by (cases "cc_bcur c") auto
      ultimately show ?thesis using stale by (simp add: no_stale_def)
    qed
  qed (use lim in auto)
qed

text \<open>Then no byte up to \<open>M\<close> is a boundary for this chunk, whatever follows.\<close>

lemma scan_none_hits:
  assumes inv: "core_inv X P c" and cov: "M + 1 \<le> cc_hashedTo c \<or> int (length P) \<le> cc_hashedTo c \<or>
      int (length P) < sp_window X"
    and pend: "pending_bounds c = pre @ rest" "\<And>x. x \<in> set pre \<Longrightarrow> x < cc_chunkStart c + sp_min X - 1"
    and rest: "\<And>x. x \<in> set rest \<Longrightarrow> M < x"
    and i: "first_cut X (cc_chunkStart c) \<le> i" "i \<le> M" "i < int (length P)"
  shows "\<not> hit X (P @ Q) i"
proof
  have q: "queue_ok X P c" and w: "1 \<le> sp_window X"
    using inv by (simp_all add: core_inv_def params_are_def spec_ok_def)
  assume "hit X (P @ Q) i"
  then have h: "hit X P i" using i w by (simp add: hit_append)
  then have "i < cc_hashedTo c" using cov i by (auto simp: hit_def)
  then have "i \<in> set (pre @ rest)" using queue_okD(6) [OF q h i(1)] by (simp add: pend)
  then show False using pend(2) [of i] rest [of i] i by (auto simp: first_cut_def)
qed

section \<open>One call of next\<close>

definition next_result :: "chunk_spec \<Rightarrow> byte list \<Rightarrow> 'd chunkerCore \<Rightarrow> coreState \<Rightarrow> 'd chunkerCore \<Rightarrow> bool" where
  "next_result X P c st c' \<longleftrightarrow> (case st of
     emitted \<Rightarrow> (\<exists>e cd. cc_chunkStart c < int (length P) \<and> e < int (length P) \<and>
       (\<forall>Q. (cc_eof c \<longrightarrow> Q = []) \<longrightarrow> ref_cut X (P @ Q) (cc_chunkStart c) = (e, cd)) \<and>
       cc_chunkStart c' = e + 1 \<and> core_chunk c' = Some (cut_chunk X P (cc_chunkStart c) e cd) \<and>
       (cc_done c' \<longrightarrow> cc_eof c \<and> e + 1 = int (length P)))
   | needMore \<Rightarrow> \<not> cc_eof c \<and> cc_chunkStart c' = cc_chunkStart c \<and> \<not> cc_done c' \<and>
       core_chunk c' = core_chunk c \<and> cc_bcur c' = length (cc_bounds c') \<and>
       (int (length P) \<le> cc_hashedTo c' \<or> int (length P) < sp_window X)
   | coreDone \<Rightarrow> cc_eof c \<and> cc_chunkStart c' = cc_chunkStart c \<and> cc_chunkStart c = int (length P) \<and>
       cc_done c' \<and> core_chunk c' = None)"

lemma next_end: "cc_err c \<noteq> None \<or> cc_done c \<Longrightarrow> core_next c = Some (coreDone, no_chunk c)"
  by (simp add: core_next_def)

lemma no_chunk_chunk [simp]: "core_chunk (no_chunk c) = None"
  by (simp add: core_chunk_def no_chunk_def)

text \<open>The queue after a scan that does not cut.\<close>

lemma advance_inv:
  assumes inv: "core_inv X P c" and pend: "pending_bounds c = pre @ rest"
    and pre: "\<And>x. x \<in> set pre \<Longrightarrow> x < cc_chunkStart c + sp_min X - 1"
  shows "core_inv X P (c\<lparr>cc_bcur := cc_bcur c + length pre\<rparr>)"
proof -
  let ?c = "c\<lparr>cc_bcur := cc_bcur c + length pre\<rparr>"
  have q: "queue_ok X P c" using inv by (simp add: core_inv_def)
  have "x < first_cut X (cc_chunkStart c)" if "x \<in> set pre" for x
    using pre [OF that] by (simp add: first_cut_def)
  moreover have "cc_chunkStart c \<le> x" if "x \<in> set rest" for x
    using queue_okD(4) [OF q, of x] that by (simp add: pend)
  ultimately have "queue_ok X P ?c" by (intro queue_emit [OF q pend]) simp_all
  then show ?thesis using inv by (simp add: core_inv_def params_are_def buffer_ok_def)
qed

lemma maxByte_cases:
  assumes inv: "core_inv X P c"
    and M: "M = (if cc_max c = MaxInt then MaxInt else wrap_int (cc_chunkStart c + cc_max c - 1))"
  shows "M = cc_chunkStart c + sp_max X - 1 \<or> M = MaxInt \<and> sp_max X = MaxInt"
    and "int (length P) < MaxInt" and "0 \<le> cc_chunkStart c"
proof -
  have p: "cc_max c = sp_max X" "1 \<le> sp_max X" "0 \<le> cc_chunkStart c" "cc_chunkStart c \<le> int (length P)"
    "sp_max X = MaxInt \<or> int (length P) + sp_max X \<le> MaxInt" "0 \<le> sp_min X" "1 \<le> cc_batchSize c"
    "int (length P) + sp_min X + cc_batchSize c < MaxInt"
    using inv by (auto simp: core_inv_def params_are_def spec_ok_def no_overflow_def buffer_ok_def)
  have "wrap_int (cc_chunkStart c + cc_max c - 1) = cc_chunkStart c + sp_max X - 1" if "sp_max X \<noteq> MaxInt"
    using p that by (simp add: wrap_int_id)
  then show "M = cc_chunkStart c + sp_max X - 1 \<or> M = MaxInt \<and> sp_max X = MaxInt"
    using M p by auto
  show "int (length P) < MaxInt" "0 \<le> cc_chunkStart c" using p by linarith+
qed

text \<open>The part of \<open>next\<close> after its two loops.\<close>

definition finish_next :: "int \<Rightarrow> 'd chunkerCore \<Rightarrow> int option \<Rightarrow> (coreState \<times> 'd chunkerCore) option" where
  "finish_next maxByte c found = (case found of
     Some e \<Rightarrow> do { c \<leftarrow> core_emit c e True; Some (emitted, c) }
   | None \<Rightarrow>
       if cc_consumed c - 1 \<ge> maxByte then do { c \<leftarrow> core_emit c maxByte False; Some (emitted, c) }
       else if cc_eof c then
         if cc_chunkStart c < cc_consumed c then do {
           c \<leftarrow> core_emit (c\<lparr>cc_done := True\<rparr>) (cc_consumed c - 1) False;
           Some (emitted, c)
         } else Some (coreDone, no_chunk (c\<lparr>cc_done := True\<rparr>))
       else Some (needMore, c))"

text \<open>What the callers of \<open>next\<close> rely on.\<close>

definition next_spec :: "'d hash_iface \<Rightarrow> ('d \<Rightarrow> bool) \<Rightarrow> ('d \<Rightarrow> byte list \<Rightarrow> u64) \<Rightarrow> (nat \<Rightarrow> bool) \<Rightarrow> chunk_spec \<Rightarrow>
    byte list \<Rightarrow> 'd chunkerCore \<Rightarrow> (coreState \<times> 'd chunkerCore) option \<Rightarrow> bool" where
  "next_spec H dinv S fits X P c r \<longleftrightarrow> (\<exists>st c'. r = Some (st, c') \<and> core_inv X P c' \<and>
     hash_ok H dinv S fits X c' \<and> next_result X P c st c' \<and> cc_eof c' = cc_eof c \<and> cc_err c' = None \<and>
     cc_batchSize c' = cc_batchSize c \<and> (one_batch P c \<longrightarrow> one_batch P c'))"

lemma next_specI:
  "r = Some (st, c') \<Longrightarrow> core_inv X P c' \<Longrightarrow> hash_ok H dinv S fits X c' \<Longrightarrow> next_result X P c st c' \<Longrightarrow>
   cc_eof c' = cc_eof c \<Longrightarrow> cc_err c' = None \<Longrightarrow> cc_batchSize c' = cc_batchSize c \<Longrightarrow>
   (one_batch P c \<Longrightarrow> one_batch P c') \<Longrightarrow> next_spec H dinv S fits X P c r"
  unfolding next_spec_def by blast

text \<open>The result only depends on where the chunk starts and on the flags, not on what was hashed.\<close>

lemma next_spec_frame:
  assumes "hash_frame c c1" and "one_batch P c \<longrightarrow> one_batch P c1" and "next_spec H dinv S fits X P c1 r"
  shows "next_spec H dinv S fits X P c r"
proof -
  note f = hash_frameD [OF assms(1)]
  have chunk: "core_chunk c1 = core_chunk c" by (simp add: core_chunk_def f)
  have "next_result X P c1 st c' = next_result X P c st c'" for st c'
    unfolding next_result_def f chunk by (rule refl)
  then show ?thesis using assms(2,3) by (auto simp: next_spec_def f)
qed

text \<open>The invariant does not look at the flags and the current chunk.\<close>

lemma core_inv_flags [simp]:
  "core_inv X P (c\<lparr>cc_done := b\<rparr>) = core_inv X P c"
  "core_inv X P (c\<lparr>cc_eof := b\<rparr>) = core_inv X P c"
  "core_inv X P (c\<lparr>cc_err := err\<rparr>) = core_inv X P c"
  "core_inv X P (no_chunk c) = core_inv X P c"
  by (simp_all add: core_inv_def params_are_def buffer_ok_def queue_ok_def pending_bounds_def no_chunk_def)

lemma hash_ok_flags [simp]:
  "hash_ok H dinv dS dfits X (c\<lparr>cc_done := b\<rparr>) = hash_ok H dinv dS dfits X c"
  "hash_ok H dinv dS dfits X (c\<lparr>cc_eof := b\<rparr>) = hash_ok H dinv dS dfits X c"
  "hash_ok H dinv dS dfits X (c\<lparr>cc_err := err\<rparr>) = hash_ok H dinv dS dfits X c"
  "hash_ok H dinv dS dfits X (c\<lparr>cc_bcur := k\<rparr>) = hash_ok H dinv dS dfits X c"
  "hash_ok H dinv dS dfits X (no_chunk c) = hash_ok H dinv dS dfits X c"
  by (simp_all add: hash_ok_def no_chunk_def)

context digest
begin

lemma finish_cut:
  assumes inv: "core_inv X P c" and h: "hash_ok H inv S fits X c" and live: "cc_err c = None" "\<not> cc_done c"
    and pend: "pending_bounds c = pre @ e # post"
    and pre: "\<And>x. x \<in> set pre \<Longrightarrow> x < cc_chunkStart c + sp_min X - 1"
    and e: "cc_chunkStart c + sp_min X - 1 \<le> e" "e < cc_chunkStart c + sp_max X"
  shows "next_spec H inv S fits X P c (finish_next M (c\<lparr>cc_bcur := cc_bcur c + length pre + 1\<rparr>) (Some e))"
proof -
  have q: "queue_ok X P c" using inv by (simp add: core_inv_def)
  have eq: "e \<in> set (pending_bounds c)" by (simp add: pend)
  have se: "cc_chunkStart c \<le> e" by (rule queue_okD(4) [OF q eq])
  have eP: "e < int (length P)" using queue_okD(3) [OF q eq] by (simp add: hit_def)
  have et: "e + 1 \<le> max (cc_hashedTo c) (sp_window X - 1)" using queue_okD(5) [OF q eq] by simp
  have pend': "pending_bounds c = (pre @ [e]) @ post" by (simp add: pend)
  have mn: "0 \<le> sp_min X" using inv by (simp add: core_inv_def params_are_def spec_ok_def)
  have "x < first_cut X (e + 1)" if "x \<in> set (pre @ [e])" for x
    using that pre [of x] e(1) se mn by (auto simp: first_cut_def)
  moreover have "e + 1 \<le> x" if "x \<in> set post" for x
    using queue_okD(2) [OF q] that by (auto simp: pend sorted_wrt_append)
  ultimately obtain c' where r: "core_emit (c\<lparr>cc_bcur := cc_bcur c + length (pre @ [e])\<rparr>) e True = Some c'"
    and c': "core_inv X P c'" "hash_ok H inv S fits X c'" "cc_chunkStart c' = e + 1"
      "core_chunk c' = Some (cut_chunk X P (cc_chunkStart c) e True)" "cc_eof c' = cc_eof c"
      "cc_done c' = cc_done c" "cc_err c' = cc_err c" "cc_bounds c' = cc_bounds c"
      "cc_hashedTo c' = cc_hashedTo c" "cc_batchSize c' = cc_batchSize c"
    using emit_inv [OF inv h pend' se eP et, of True] by blast
  have "next_result X P c emitted c'"
    using scan_cut [OF inv pend pre e] se eP c' live by (auto simp: next_result_def)
  then show ?thesis
    using r c' live by (intro next_specI [of _ emitted c']) (simp_all add: finish_next_def one_batch_def)
qed

lemma finish_none:
  assumes inv: "core_inv X P c" and h: "hash_ok H inv S fits X c" and live: "cc_err c = None" "\<not> cc_done c"
    and pend: "pending_bounds c = pre @ rest"
    and pre: "\<And>x. x \<in> set pre \<Longrightarrow> x < cc_chunkStart c + sp_min X - 1"
    and rest: "\<And>x. x \<in> set rest \<Longrightarrow> M < x"
    and cov: "M + 1 \<le> cc_hashedTo c \<or> int (length P) \<le> cc_hashedTo c \<or> int (length P) < sp_window X"
    and M: "M = cc_chunkStart c + sp_max X - 1 \<or> M = MaxInt \<and> sp_max X = MaxInt" "int (length P) < MaxInt"
  shows "next_spec H inv S fits X P c (finish_next M (c\<lparr>cc_bcur := cc_bcur c + length pre\<rparr>) None)"
proof -
  have q: "queue_ok X P c" and b: "buffer_ok X P c" using inv by (simp_all add: core_inv_def)
  have par: "1 \<le> sp_window X" "0 \<le> sp_min X" "1 \<le> sp_max X"
    using inv by (simp_all add: core_inv_def params_are_def spec_ok_def)
  have pos: "cc_consumed c = int (length P)" "0 \<le> cc_chunkStart c" "cc_chunkStart c \<le> int (length P)"
    using b by (auto simp: buffer_ok_def)
  have nohit: "\<not> hit X (P @ Q) i"
    if "first_cut X (cc_chunkStart c) \<le> i" "i \<le> M" "i < int (length P)" for Q i
    by (rule scan_none_hits [OF inv cov pend pre rest that])
  have pre_cut: "x < first_cut X (e + 1)" if "x \<in> set pre" "cc_chunkStart c \<le> e" for x e
    using pre [OF that(1)] that(2) by (simp add: first_cut_def)
  define c2 where "c2 = c\<lparr>cc_bcur := cc_bcur c + length pre\<rparr>"
  have c2: "cc_consumed c2 = cc_consumed c" "cc_eof c2 = cc_eof c" "cc_chunkStart c2 = cc_chunkStart c"
    by (simp_all add: c2_def)
  consider (forced) "M \<le> cc_consumed c - 1" | (final) "\<not> M \<le> cc_consumed c - 1" "cc_eof c"
      "cc_chunkStart c < cc_consumed c"
    | (stop) "\<not> M \<le> cc_consumed c - 1" "cc_eof c" "\<not> cc_chunkStart c < cc_consumed c"
    | (more) "\<not> M \<le> cc_consumed c - 1" "\<not> cc_eof c" by blast
  then have "next_spec H inv S fits X P c (finish_next M c2 None)" (is ?goal)
  proof cases
    case forced
    then have m: "M = cc_chunkStart c + sp_max X - 1" using M pos by auto
    have e: "cc_chunkStart c \<le> M" "M < int (length P)" "M + 1 \<le> max (cc_hashedTo c) (sp_window X - 1)"
      using forced m par pos cov by auto
    have pre3: "x < first_cut X (M + 1)" if "x \<in> set pre" for x
      by (rule pre_cut [OF that e(1)])
    have rest3: "M + 1 \<le> x" if "x \<in> set rest" for x using rest [OF that] by simp
    obtain c' where r: "core_emit c2 M False = Some c'"
      and c': "core_inv X P c'" "hash_ok H inv S fits X c'" "cc_chunkStart c' = M + 1"
        "core_chunk c' = Some (cut_chunk X P (cc_chunkStart c) M False)" "cc_eof c' = cc_eof c"
        "cc_done c' = cc_done c" "cc_err c' = cc_err c" "cc_bounds c' = cc_bounds c"
        "cc_hashedTo c' = cc_hashedTo c" "cc_batchSize c' = cc_batchSize c"
      using emit_inv [OF inv h pend e pre3 rest3, of False, folded c2_def] by blast
    have "ref_cut X (P @ Q) (cc_chunkStart c) = (M, False)" for Q
    proof (subst ref_cut_none)
      show "\<not> hit X (P @ Q) i" if "first_cut X (cc_chunkStart c) \<le> i" "i < cc_chunkStart c + sp_max X" for i
        using nohit [of i Q] that m e(2) by simp
      show "(min (int (length (P @ Q))) (cc_chunkStart c + sp_max X) - 1, False) = (M, False)"
        using m e(2) by simp
    qed
    then have "next_result X P c emitted c'" using e c' live by (auto simp: next_result_def)
    then show ?goal
      using r c' live forced c2 by (intro next_specI [of _ emitted c']) (simp_all add: finish_next_def one_batch_def)
  next
    case final
    define c3 where "c3 = c\<lparr>cc_done := True\<rparr>"
    define e where "e = cc_consumed c - 1"
    have c3: "core_inv X P c3" "hash_ok H inv S fits X c3" "pending_bounds c3 = pre @ rest"
      "cc_chunkStart c3 = cc_chunkStart c" "cc_hashedTo c3 = cc_hashedTo c"
      "c3\<lparr>cc_bcur := cc_bcur c3 + length pre\<rparr> = c2\<lparr>cc_done := True\<rparr>"
      using inv h pend by (simp_all add: c3_def c2_def pending_bounds_def)
    have norest: "rest = []"
    proof (rule ccontr)
      assume "rest \<noteq> []"
      then obtain x where x: "x \<in> set rest" by (cases rest) auto
      have "hit X P x" by (rule queue_okD(3) [OF q]) (simp add: pend x)
      then show False using rest [OF x] final pos by (simp add: hit_def)
    qed
    have e: "cc_chunkStart c \<le> e" "e < int (length P)" "e + 1 \<le> max (cc_hashedTo c) (sp_window X - 1)"
      using final pos cov by (auto simp: e_def)
    have pre3: "x < first_cut X (e + 1)" if "x \<in> set pre" for x
      by (rule pre_cut [OF that e(1)])
    have rest3: "e + 1 \<le> x" if "x \<in> set rest" for x using that norest by simp
    obtain c' where r: "core_emit (c2\<lparr>cc_done := True\<rparr>) e False = Some c'"
      and c': "core_inv X P c'" "hash_ok H inv S fits X c'" "cc_chunkStart c' = e + 1"
        "core_chunk c' = Some (cut_chunk X P (cc_chunkStart c) e False)" "cc_eof c' = cc_eof c3"
        "cc_done c' = cc_done c3" "cc_err c' = cc_err c3" "cc_bounds c' = cc_bounds c3"
        "cc_hashedTo c' = cc_hashedTo c" "cc_batchSize c' = cc_batchSize c3"
      using emit_inv [OF c3(1-3), unfolded c3(4-6), OF e pre3 rest3, of False] by blast
    have "ref_cut X P (cc_chunkStart c) = (e, False)"
    proof (subst ref_cut_none)
      show "\<not> hit X P i" if "first_cut X (cc_chunkStart c) \<le> i" "i < cc_chunkStart c + sp_max X" for i
        using nohit [of i "[]"] that final pos by (auto simp: hit_def)
      show "(min (int (length P)) (cc_chunkStart c + sp_max X) - 1, False) = (e, False)"
        using final pos M by (auto simp: e_def)
    qed
    then have "next_result X P c emitted c'"
      using e c' final pos by (auto simp: next_result_def e_def c3_def)
    then show ?goal
      using r c' live final c2
      by (intro next_specI [of _ emitted c']) (simp_all add: finish_next_def one_batch_def c3_def e_def)
  next
    case stop
    define c' where "c' = no_chunk (c2\<lparr>cc_done := True\<rparr>)"
    have "core_inv X P c2" unfolding c2_def by (rule advance_inv [OF inv pend pre])
    then have "core_inv X P c'" "hash_ok H inv S fits X c'"
      using h by (simp_all add: c'_def c2_def)
    moreover have "next_result X P c coreDone c'"
      using stop pos by (simp add: next_result_def c'_def) (simp add: no_chunk_def c2_def)
    ultimately show ?goal
      using stop live c2
      by (intro next_specI [of _ coreDone c'])
        (simp_all add: finish_next_def c'_def no_chunk_def c2_def one_batch_def)
  next
    case more
    have i2: "core_inv X P c2" unfolding c2_def by (rule advance_inv [OF inv pend pre])
    have norest: "rest = []"
    proof (rule ccontr)
      assume "rest \<noteq> []"
      then obtain x where x: "x \<in> set rest" by (cases rest) auto
      have "hit X P x" by (rule queue_okD(3) [OF q]) (simp add: pend x)
      then show False using rest [OF x] more pos by (simp add: hit_def)
    qed
    have "cc_bcur c + length pre = length (cc_bounds c)"
    proof -
      have "length (pending_bounds c) = length pre" using pend norest by simp
      then show ?thesis using queue_okD(1) [OF q] by (simp add: pending_bounds_def)
    qed
    then have "next_result X P c needMore c2"
      using more live cov pos by (auto simp: next_result_def c2_def core_chunk_def)
    then show ?goal
      using more i2 h live c2
      by (intro next_specI [of _ needMore c2])
        (simp_all add: finish_next_def c2_def hash_ok_def one_batch_def)
  qed
  then show ?thesis by (simp only: c2_def)
qed

text \<open>One call of \<open>next\<close> on a live core.\<close>

theorem next_ok:
  assumes inv: "core_inv X P c" and h: "hash_ok H inv S fits X c" and live: "cc_err c = None" "\<not> cc_done c"
    and stale: "no_stale X P c"
  shows "next_spec H inv S fits X P c (core_next c)"
proof -
  define m where "m = cc_chunkStart c + sp_min X - 1"
  define M where "M = (if cc_max c = MaxInt then MaxInt else wrap_int (cc_chunkStart c + cc_max c - 1))"
  define lim where "lim = (if M \<noteq> MaxInt then M + 1 else M)"
  note Mc = maxByte_cases [OF inv M_def]
  obtain c1 where c1: "hash_until lim m c = Some c1" "core_inv X P c1" "hash_ok H inv S fits X c1"
    and fr: "hash_frame c c1" and mono: "cc_hashedTo c \<le> cc_hashedTo c1"
    and enough: "hashed_enough X P lim m c1" and one: "one_batch P c \<longrightarrow> one_batch P c1"
    using hash_until_ok [OF inv h, of lim m] by blast
  note f = hash_frameD [OF fr]
  have live1: "cc_err c1 = None" "\<not> cc_done c1" using live by (simp_all add: f)
  have m1: "m = cc_chunkStart c1 + sp_min X - 1" by (simp add: m_def f)
  have stale1: "no_stale X P c1" using stale mono by (auto simp: no_stale_def f)
  have limM: "M + 1 \<le> lim \<or> int (length P) \<le> lim" using Mc(2) by (auto simp: lim_def)
  have M1: "M = cc_chunkStart c1 + sp_max X - 1 \<or> M = MaxInt \<and> sp_max X = MaxInt"
    using Mc(1) by (simp add: f)
  have bcur: "cc_bcur c1 \<le> length (cc_bounds c1)"
    using queue_okD(1) c1(2) unfolding core_inv_def by blast
  have tail: "core_next c = (case scan_bounds (cc_bounds c1) (cc_bcur c1) m M of
      (bcur, found) \<Rightarrow> finish_next M (c1\<lparr>cc_bcur := bcur\<rparr>) found)"
    using live c1(1) minByte_eq [OF inv]
    unfolding core_next_def Let_def M_def [symmetric] lim_def [symmetric] finish_next_def
    by (simp add: m_def split_beta)
  have "next_spec H inv S fits X P c1 (core_next c)"
  proof (cases rule: scan_bounds_cases [OF bcur, of m M, case_names cut far empty])
    case (cut pre e post)
    have "e < int (length P)"
    proof -
      have "e \<in> set (pending_bounds c1)" by (simp add: pending_bounds_def cut(1))
      then show ?thesis using queue_okD(3) c1(2) by (auto simp: core_inv_def hit_def)
    qed
    then have "e < cc_chunkStart c1 + sp_max X"
      using cut(4) M1 Mc(2,3) by (auto simp: f)
    then show ?thesis
      unfolding tail cut(5)
      using finish_cut [OF c1(2,3) live1 cut(1) [folded pending_bounds_def], of M] cut(2,3) m1 by simp
  next
    case (far pre e post)
    have sorted: "sorted_wrt (<) (pre @ e # post)"
      using queue_okD(2) c1(2) far(1) unfolding core_inv_def pending_bounds_def by metis
    have rest: "M < x" if "x \<in> set (e # post)" for x
      using that sorted far(4) by (auto simp: sorted_wrt_append)
    have cov: "M + 1 \<le> cc_hashedTo c1 \<or> int (length P) \<le> cc_hashedTo c1 \<or> int (length P) < sp_window X"
      by (rule scan_none_covered [OF c1(2) enough stale1 m1 far(1) [folded pending_bounds_def] far(2) rest limM])
    show ?thesis
      unfolding tail far(5)
      using finish_none [OF c1(2,3) live1 far(1) [folded pending_bounds_def] far(2) [unfolded m1] rest cov M1 Mc(2)]
      by simp
  next
    case empty
    have pend: "pending_bounds c1 = drop (cc_bcur c1) (cc_bounds c1) @ []" by (simp add: pending_bounds_def)
    have rest: "M < x" if "x \<in> set []" for x using that by simp
    have cov: "M + 1 \<le> cc_hashedTo c1 \<or> int (length P) \<le> cc_hashedTo c1 \<or> int (length P) < sp_window X"
      by (rule scan_none_covered [OF c1(2) enough stale1 m1 pend empty(1) rest limM])
    have len: "c1\<lparr>cc_bcur := length (cc_bounds c1)\<rparr> =
        c1\<lparr>cc_bcur := cc_bcur c1 + length (drop (cc_bcur c1) (cc_bounds c1))\<rparr>"
      using bcur by simp
    show ?thesis
      unfolding tail empty(2) prod.case len
      by (rule finish_none [OF c1(2,3) live1 pend empty(1) [unfolded m1] rest cov M1 Mc(2)])
  qed
  then show ?thesis by (rule next_spec_frame [OF fr one])
qed

end

end
