(* ===== verification/Chunk_Writer.thy ===== *)
theory Chunk_Writer
  imports Chunker_Next
begin

text \<open>
  chunkwriter.go: the push side of the chunker. \<open>chunkWriter\<close> is the struct of the same name, a core
  and the bytes that \<open>Write\<close> holds back until a batch is full. The lemmas follow the chunks that
  any sequence of calls hands out: they are the chunks of the specification for the bytes written,
  whatever the sizes of the writes and wherever the calls of \<open>Next\<close> fall.
\<close>

section \<open>The writer\<close>

record 'd chunkWriter =
  cw_core :: "'d chunkerCore"
  cw_pending :: "byte list"

definition NewChunkWriter :: "'d hash_iface \<Rightarrow> 'd \<Rightarrow> int \<Rightarrow> u64 \<Rightarrow> ('d chunkerCore \<Rightarrow> 'd chunkerCore) list \<Rightarrow>
    'd chunkWriter option" where
  "NewChunkWriter H h window msk opts = do {
     core \<leftarrow> newChunkerCore H h window msk 0 MaxInt;
     let core = fold (\<lambda>opt c. opt c) opts core;
     Some \<lparr>cw_core = core, cw_pending = []\<rparr>
   }"

text \<open>\<open>for len(p) >= batchSize { w.core.feed(p[:batchSize]); p = p[batchSize:] }\<close>\<close>

partial_function (option) feed_batches ::
    "int \<Rightarrow> 'd chunkerCore \<Rightarrow> byte list \<Rightarrow> ('d chunkerCore \<times> byte list) option" where
  "feed_batches batchSize core p =
     (if batchSize \<le> int (length p) then do {
        head \<leftarrow> go_slice p 0 batchSize;
        core \<leftarrow> core_feed core head;
        p \<leftarrow> go_slice p batchSize (int (length p));
        feed_batches batchSize core p
      } else Some (core, p))"

declare feed_batches.simps [code]

definition chunkWriter_Write ::
    "'d chunkWriter \<Rightarrow> byte list \<Rightarrow> (int \<times> gerror option \<times> 'd chunkWriter) option" where
  "chunkWriter_Write w p =
     (if cc_eof (cw_core w) then Some (0, Some ErrClosed, w)
      else
        let n = int (length p);
            batchSize = max (cc_batchSize (cw_core w)) 1 in
        if length (cw_pending w) > 0 then
          let need = batchSize - int (length (cw_pending w)) in
          if need > int (length p)
          then Some (n, None, w\<lparr>cw_pending := cw_pending w @ p\<rparr>)
          else do {
            head \<leftarrow> go_slice p 0 need;
            core \<leftarrow> core_feed (cw_core w) (cw_pending w @ head);
            p \<leftarrow> go_slice p need (int (length p));
            (core, p) \<leftarrow> feed_batches batchSize core p;
            Some (n, None, w\<lparr>cw_core := core, cw_pending := p\<rparr>)
          }
        else do {
          (core, p) \<leftarrow> feed_batches batchSize (cw_core w) p;
          Some (n, None, w\<lparr>cw_core := core, cw_pending := p\<rparr>)
        })"

definition chunkWriter_Close :: "'d chunkWriter \<Rightarrow> (gerror option \<times> 'd chunkWriter) option" where
  "chunkWriter_Close w = do {
     w \<leftarrow> (if length (cw_pending w) > 0 then do {
             core \<leftarrow> core_feed (cw_core w) (cw_pending w);
             Some (w\<lparr>cw_core := core, cw_pending := []\<rparr>)
           } else Some w);
     Some (None, w\<lparr>cw_core := core_finish (cw_core w)\<rparr>)
   }"

definition chunkWriter_Next :: "'d chunkWriter \<Rightarrow> (bool \<times> 'd chunkWriter) option" where
  "chunkWriter_Next w = do {
     (st, core) \<leftarrow> core_next (cw_core w);
     Some (st = emitted, w\<lparr>cw_core := core\<rparr>)
   }"

definition chunkWriter_Reset :: "'d chunkWriter \<Rightarrow> 'd chunkWriter" where
  "chunkWriter_Reset w = w\<lparr>cw_core := core_reset (cw_core w), cw_pending := []\<rparr>"

section \<open>Accessors\<close>

definition chunkWriter_Bytes :: "'d chunkWriter \<Rightarrow> byte list option" where
  [simp]: "chunkWriter_Bytes x = core_Bytes (cw_core x)"

definition chunkWriter_Sum :: "'d chunkWriter \<Rightarrow> u64" where
  [simp]: "chunkWriter_Sum x = core_Sum (cw_core x)"

definition chunkWriter_ContentDefined :: "'d chunkWriter \<Rightarrow> bool" where
  [simp]: "chunkWriter_ContentDefined x = core_ContentDefined (cw_core x)"

definition chunkWriter_Err :: "'d chunkWriter \<Rightarrow> gerror option" where
  [simp]: "chunkWriter_Err x = core_Err (cw_core x)"

definition chunkWriter_Offset :: "'d chunkWriter \<Rightarrow> int" where
  [simp]: "chunkWriter_Offset x = core_Offset (cw_core x)"

definition chunkWriter_WindowSize :: "'d chunkWriter \<Rightarrow> int" where
  [simp]: "chunkWriter_WindowSize x = core_WindowSize (cw_core x)"

section \<open>Sequences of calls\<close>

text \<open>The calls a client makes, and the chunks it sees: one for every \<open>Next\<close> that returns true.\<close>

datatype push_op = PushWrite "byte list" | PushNext | PushClose

fun cw_step :: "push_op \<Rightarrow> 'd chunkWriter \<Rightarrow> (chunk list \<times> 'd chunkWriter) option" where
  "cw_step (PushWrite p) w = do { (n, err, w) \<leftarrow> chunkWriter_Write w p; Some ([], w) }"
| "cw_step PushNext w = do {
     (ok, w) \<leftarrow> chunkWriter_Next w;
     Some (if ok then (case core_chunk (cw_core w) of Some ch \<Rightarrow> [ch] | None \<Rightarrow> []) else [], w)
   }"
| "cw_step PushClose w = do { (err, w) \<leftarrow> chunkWriter_Close w; Some ([], w) }"

fun cw_run :: "push_op list \<Rightarrow> 'd chunkWriter \<Rightarrow> (chunk list \<times> 'd chunkWriter) option" where
  "cw_run [] w = Some ([], w)"
| "cw_run (op # ops) w = do {
     (out, w) \<leftarrow> cw_step op w;
     (out', w) \<leftarrow> cw_run ops w;
     Some (out @ out', w)
   }"

text \<open>\<open>for w.Next() { ... }\<close>\<close>

partial_function (option) cw_drain :: "'d chunkWriter \<Rightarrow> (chunk list \<times> 'd chunkWriter) option" where
  "cw_drain w = do {
     (ok, w) \<leftarrow> chunkWriter_Next w;
     if ok then do {
       (out, w') \<leftarrow> cw_drain w;
       Some ((case core_chunk (cw_core w) of Some ch \<Rightarrow> [ch] | None \<Rightarrow> []) @ out, w')
     } else Some ([], w)
   }"

declare cw_drain.simps [code]

text \<open>The bytes a sequence of calls writes: those before the first \<open>Close\<close>.\<close>

fun push_bytes :: "push_op list \<Rightarrow> byte list" where
  "push_bytes [] = []"
| "push_bytes (PushWrite p # ops) = p @ push_bytes ops"
| "push_bytes (PushNext # ops) = push_bytes ops"
| "push_bytes (PushClose # ops) = []"

section \<open>The chunks handed out so far\<close>

text \<open>A core in use: the invariant, and after the last chunk nothing is left.\<close>

definition core_state :: "'d hash_iface \<Rightarrow> ('d \<Rightarrow> bool) \<Rightarrow> ('d \<Rightarrow> byte list \<Rightarrow> u64) \<Rightarrow> (nat \<Rightarrow> bool) \<Rightarrow>
    chunk_spec \<Rightarrow> byte list \<Rightarrow> 'd chunkerCore \<Rightarrow> bool" where
  "core_state H dinv S fits X P c \<longleftrightarrow> core_inv X P c \<and> hash_ok H dinv S fits X c \<and> cc_err c = None \<and>
     (cc_done c \<longrightarrow> cc_eof c \<and> cc_chunkStart c = int (length P))"

text \<open>The chunks \<open>out\<close> are those of the specification before \<open>s\<close>, whatever bytes follow (none, once
  the stream is closed).\<close>

definition chunks_so_far :: "chunk_spec \<Rightarrow> byte list \<Rightarrow> bool \<Rightarrow> int \<Rightarrow> chunk list \<Rightarrow> bool" where
  "chunks_so_far X P closed s out \<longleftrightarrow>
     (\<forall>Q. (closed \<longrightarrow> Q = []) \<longrightarrow> out @ ref_chunks X (P @ Q) s = ref_chunks X (P @ Q) 0)"

lemma chunks_start: "chunks_so_far X P closed 0 []"
  by (simp add: chunks_so_far_def)

lemma chunks_extend: "chunks_so_far X P False s out \<Longrightarrow> chunks_so_far X (P @ xs) closed s out"
  by (simp add: chunks_so_far_def)

lemma chunks_close: "chunks_so_far X P closed s out \<Longrightarrow> chunks_so_far X P True s out"
  unfolding chunks_so_far_def by blast

lemma chunks_all: "chunks_so_far X P True (int (length P)) out \<Longrightarrow> out = ref_chunks X P 0"
  by (auto simp: chunks_so_far_def ref_chunks_end)

lemma chunks_emit:
  assumes out: "chunks_so_far X P closed s out" and s: "0 \<le> s" "s < int (length P)" and e: "e < int (length P)"
    and cut: "\<And>Q. (closed \<longrightarrow> Q = []) \<Longrightarrow> ref_cut X (P @ Q) s = (e, cd)"
    and par: "1 \<le> sp_window X" "1 \<le> sp_max X"
  shows "chunks_so_far X P closed (e + 1) (out @ [cut_chunk X P s e cd])"
  unfolding chunks_so_far_def
proof (intro allI impI)
  fix Q :: "byte list" assume Q: "closed \<longrightarrow> Q = []"
  have "ref_chunks X (P @ Q) s = cut_chunk X (P @ Q) s e cd # ref_chunks X (P @ Q) (e + 1)"
    by (rule ref_chunks_step [OF cut [OF Q] _ par(2)]) (use s in simp)
  moreover have "out @ ref_chunks X (P @ Q) s = ref_chunks X (P @ Q) 0"
    using out Q unfolding chunks_so_far_def by blast
  ultimately show "(out @ [cut_chunk X P s e cd]) @ ref_chunks X (P @ Q) (e + 1) = ref_chunks X (P @ Q) 0"
    using cut_chunk_append [OF s(1) e par(1), of Q cd] by simp
qed

text \<open>What one call of \<open>next\<close> does to the chunks handed out so far.\<close>

definition next_chunks :: "chunk_spec \<Rightarrow> byte list \<Rightarrow> 'd chunkerCore \<Rightarrow> chunk list \<Rightarrow> coreState \<Rightarrow>
    'd chunkerCore \<Rightarrow> bool" where
  "next_chunks X P c out st c' \<longleftrightarrow> (case st of
     emitted \<Rightarrow> (\<exists>ch. core_chunk c' = Some ch \<and> cc_chunkStart c < cc_chunkStart c' \<and>
       cc_chunkStart c' \<le> int (length P) \<and>
       chunks_so_far X P (cc_eof c) (cc_chunkStart c') (out @ [ch]))
   | needMore \<Rightarrow> \<not> cc_eof c \<and> \<not> cc_done c' \<and> cc_chunkStart c' = cc_chunkStart c \<and> chunks_so_far X P False (cc_chunkStart c') out \<and>
       core_chunk c' = core_chunk c \<and> pending_bounds c' = [] \<and>
       (int (length P) \<le> cc_hashedTo c' \<or> int (length P) < sp_window X)
   | coreDone \<Rightarrow> cc_eof c \<and> cc_done c' \<and> core_chunk c' = None \<and> out = ref_chunks X P 0)"

context digest
begin

lemma next_step:
  assumes st: "core_state H inv S fits X P c" and stale: "no_stale X P c"
    and out: "chunks_so_far X P (cc_eof c) (cc_chunkStart c) out"
  shows "\<exists>st c'. core_next c = Some (st, c') \<and> core_state H inv S fits X P c' \<and> cc_eof c' = cc_eof c \<and>
    cc_batchSize c' = cc_batchSize c \<and> next_chunks X P c out st c' \<and> (one_batch P c \<longrightarrow> one_batch P c') \<and>
    (st \<noteq> emitted \<longrightarrow> chunks_so_far X P (cc_eof c) (cc_chunkStart c') out)"
proof (cases "cc_done c")
  case True
  then have "cc_eof c" "cc_chunkStart c = int (length P)" using st by (simp_all add: core_state_def)
  moreover from this have "out = ref_chunks X P 0" using out by (simp add: chunks_all)
  ultimately show ?thesis
    using True st out next_end [of c]
    by (intro exI [of _ coreDone] exI [of _ "no_chunk c"])
      (simp add: core_state_def next_chunks_def no_chunk_def core_chunk_def one_batch_def
        core_inv_flags(4) [unfolded no_chunk_def] hash_ok_flags(5) [unfolded no_chunk_def])
next
  case False
  have inv: "core_inv X P c" and h: "hash_ok H inv S fits X c" and live: "cc_err c = None"
    using st by (simp_all add: core_state_def)
  have par: "1 \<le> sp_window X" "1 \<le> sp_max X" "0 \<le> cc_chunkStart c"
    using inv by (simp_all add: core_inv_def params_are_def spec_ok_def buffer_ok_def)
  obtain st c' where r: "core_next c = Some (st, c')" "core_inv X P c'" "hash_ok H inv S fits X c'"
      "next_result X P c st c'" "cc_eof c' = cc_eof c" "cc_err c' = None" "cc_batchSize c' = cc_batchSize c"
      "one_batch P c \<longrightarrow> one_batch P c'"
    using next_ok [OF inv h live False stale] unfolding next_spec_def by blast
  have "core_state H inv S fits X P c' \<and> next_chunks X P c out st c' \<and>
      (st \<noteq> emitted \<longrightarrow> chunks_so_far X P (cc_eof c) (cc_chunkStart c') out)"
  proof (cases st)
    case emitted
    obtain e cd where e: "cc_chunkStart c < int (length P)" "e < int (length P)"
        "\<And>Q. (cc_eof c \<longrightarrow> Q = []) \<Longrightarrow> ref_cut X (P @ Q) (cc_chunkStart c) = (e, cd)"
        "cc_chunkStart c' = e + 1" "core_chunk c' = Some (cut_chunk X P (cc_chunkStart c) e cd)"
        "cc_done c' \<Longrightarrow> cc_eof c \<and> e + 1 = int (length P)"
      using r(4) emitted unfolding next_result_def by auto
    have "ref_cut X P (cc_chunkStart c) = (e, cd)" using e(3) [of "[]"] by simp
    then have "cc_chunkStart c \<le> e" by (rule ref_cut_bounds(1) [OF _ e(1) par(2)])
    moreover have "chunks_so_far X P (cc_eof c) (e + 1) (out @ [cut_chunk X P (cc_chunkStart c) e cd])"
      by (rule chunks_emit [OF out par(3) e(1,2) e(3) par(1,2)])
    ultimately show ?thesis
      using r emitted e by (auto simp: core_state_def next_chunks_def)
  next
    case needMore
    then have "pending_bounds c' = []" using r(4) by (simp add: next_result_def pending_bounds_def)
    then show ?thesis
      using r out needMore by (simp add: core_state_def next_chunks_def next_result_def)
  next
    case coreDone
    then have "cc_eof c" "cc_chunkStart c = int (length P)" using r(4) by (simp_all add: next_result_def)
    then have "out = ref_chunks X P 0" using out by (simp add: chunks_all)
    then show ?thesis
      using r out coreDone by (simp add: core_state_def next_chunks_def next_result_def)
  qed
  then show ?thesis using r by blast
qed

end

section \<open>Writing\<close>

lemma no_overflow_mono: "no_overflow X b m \<Longrightarrow> n \<le> m \<Longrightarrow> no_overflow X b n"
  by (auto simp: no_overflow_def)

text \<open>Feeding does not touch what \<open>next\<close> handed out, nor where the current chunk starts.\<close>

definition same_chunk :: "'d chunkerCore \<Rightarrow> 'd chunkerCore \<Rightarrow> bool" where
  "same_chunk c c' \<longleftrightarrow> cc_chunkStart c' = cc_chunkStart c \<and> cc_eof c' = cc_eof c \<and>
     cc_done c' = cc_done c \<and> cc_batchSize c' = cc_batchSize c \<and> core_chunk c' = core_chunk c"

lemma same_chunk_trans: "same_chunk a b \<Longrightarrow> same_chunk b c \<Longrightarrow> same_chunk a c"
  by (simp add: same_chunk_def)

lemma feed_frame_same_chunk: "feed_frame c c' \<Longrightarrow> same_chunk c c'"
  by (auto simp: feed_frame_def same_chunk_def core_chunk_def)

lemma feed_state:
  assumes st: "core_state H dinv dS dfits X P c" and live: "\<not> cc_eof c"
    and len: "no_overflow X (cc_batchSize c) (int (length (P @ xs)))"
  shows "\<exists>c'. core_feed c xs = Some c' \<and> core_state H dinv dS dfits X (P @ xs) c' \<and> same_chunk c c'"
proof -
  have inv: "core_inv X P c" using st by (simp add: core_state_def)
  obtain c' where c': "core_feed c xs = Some c'" "core_inv X (P @ xs) c'" "feed_frame c c'"
    using feed_inv [OF inv len] by blast
  have "core_state H dinv dS dfits X (P @ xs) c'"
    using st live c'(2) feed_frameD [OF c'(3)] by (simp add: core_state_def hash_ok_def)
  then show ?thesis using c' feed_frame_same_chunk by blast
qed

lemma feed_batches_state:
  assumes "core_state H dinv dS dfits X P c" and "\<not> cc_eof c" and "1 \<le> b"
    and "no_overflow X (cc_batchSize c) (int (length (P @ p)))"
  shows "\<exists>k c'. feed_batches b c p = Some (c', drop k p) \<and> core_state H dinv dS dfits X (P @ take k p) c' \<and>
    same_chunk c c' \<and> int (length (drop k p)) < b"
  using assms
proof (induction "length p" arbitrary: P c p rule: less_induct)
  case less
  show ?case
  proof (cases "b \<le> int (length p)")
    case False
    then show ?thesis using less.prems
      by (subst feed_batches.simps) (intro exI [of _ 0] exI [of _ c], simp add: same_chunk_def)
  next
    case True
    define m where "m = nat b"
    have m: "int m = b" "0 < m" "m \<le> length p" using less.prems(3) True by (simp_all add: m_def)
    have sl: "go_slice p 0 b = Some (take m p)" "go_slice p b (int (length p)) = Some (drop m p)"
      using m by (auto simp: go_slice_def nat_diff_distrib)
    have "no_overflow X (cc_batchSize c) (int (length (P @ take m p)))"
      by (rule no_overflow_mono [OF less.prems(4)]) simp
    then obtain c1 where c1: "core_feed c (take m p) = Some c1"
        "core_state H dinv dS dfits X (P @ take m p) c1" "same_chunk c c1"
      using feed_state [OF less.prems(1,2)] by blast
    have "length (drop m p) < length p" "\<not> cc_eof c1"
        "no_overflow X (cc_batchSize c1) (int (length ((P @ take m p) @ drop m p)))"
      using m c1(3) less.prems(2,4) by (simp_all add: same_chunk_def)
    from less.hyps [OF this(1) c1(2) this(2) less.prems(3) this(3)] obtain k c'
      where c': "feed_batches b c1 (drop m p) = Some (c', drop k (drop m p))"
        "core_state H dinv dS dfits X ((P @ take m p) @ take k (drop m p)) c'" "same_chunk c1 c'"
        "int (length (drop k (drop m p))) < b" by blast
    have "feed_batches b c p = Some (c', drop (k + m) p)"
      using True sl c1(1) c'(1) by (subst feed_batches.simps) simp
    moreover have "take (k + m) p = take m p @ take k (drop m p)"
      using take_add [of m k p] by (simp add: add.commute)
    ultimately show ?thesis
      using c' same_chunk_trans [OF c1(3) c'(3)] by (intro exI [of _ "k + m"] exI [of _ c']) simp
  qed
qed

text \<open>The state of a writer after \<open>D\<close> was written and \<open>out\<close> was handed out.\<close>

definition writer_state :: "'d hash_iface \<Rightarrow> ('d \<Rightarrow> bool) \<Rightarrow> ('d \<Rightarrow> byte list \<Rightarrow> u64) \<Rightarrow> (nat \<Rightarrow> bool) \<Rightarrow>
    chunk_spec \<Rightarrow> int \<Rightarrow> byte list \<Rightarrow> chunk list \<Rightarrow> 'd chunkWriter \<Rightarrow> bool" where
  "writer_state H dinv S fits X b D out w \<longleftrightarrow> (\<exists>P. D = P @ cw_pending w \<and>
     core_state H dinv S fits X P (cw_core w) \<and> cc_batchSize (cw_core w) = b \<and>
     chunks_so_far X P (cc_eof (cw_core w)) (cc_chunkStart (cw_core w)) out \<and>
     int (length (cw_pending w)) < b \<and> (cc_eof (cw_core w) \<longrightarrow> cw_pending w = []))"

lemma writer_stateI:
  "D = P @ cw_pending w \<Longrightarrow> core_state H dinv dS dfits X P (cw_core w) \<Longrightarrow> cc_batchSize (cw_core w) = b \<Longrightarrow>
   chunks_so_far X P (cc_eof (cw_core w)) (cc_chunkStart (cw_core w)) out \<Longrightarrow>
   int (length (cw_pending w)) < b \<Longrightarrow> (cc_eof (cw_core w) \<Longrightarrow> cw_pending w = []) \<Longrightarrow>
   writer_state H dinv dS dfits X b D out w"
  unfolding writer_state_def by blast

lemma writer_batch: "writer_state H dinv dS dfits X b D out w \<Longrightarrow> 1 \<le> b"
  by (auto simp: writer_state_def core_state_def core_inv_def params_are_def spec_ok_def)

text \<open>\<open>Write\<close> takes every byte; after \<open>Close\<close> it returns \<open>ErrClosed\<close> and changes nothing.\<close>

lemma writer_Write_closed:
  "cc_eof (cw_core w) \<Longrightarrow> chunkWriter_Write w p = Some (0, Some ErrClosed, w)"
  by (simp add: chunkWriter_Write_def)

lemma writer_Write:
  assumes st: "writer_state H dinv dS dfits X b D out w" and live: "\<not> cc_eof (cw_core w)"
    and len: "no_overflow X b (int (length (D @ p)))"
  shows "\<exists>w'. chunkWriter_Write w p = Some (int (length p), None, w') \<and>
    writer_state H dinv dS dfits X b (D @ p) out w' \<and> \<not> cc_eof (cw_core w') \<and>
    core_chunk (cw_core w') = core_chunk (cw_core w)"
proof -
  define q where "q = cw_pending w"
  define c where "c = cw_core w"
  obtain P where D: "D = P @ q" and core: "core_state H dinv dS dfits X P c" and b: "cc_batchSize c = b"
    and out: "chunks_so_far X P False (cc_chunkStart c) out" and q: "int (length q) < b"
    using st live by (auto simp: writer_state_def q_def c_def)
  have b1: "1 \<le> b" by (rule writer_batch [OF st])
  have mx: "max b 1 = b" using b1 by simp
  have fin: "\<exists>w'. w\<lparr>cw_core := c', cw_pending := drop k r\<rparr> = w' \<and>
      writer_state H dinv dS dfits X b (D @ p) out w' \<and> \<not> cc_eof (cw_core w') \<and>
      core_chunk (cw_core w') = core_chunk (cw_core w)"
    if c': "core_state H dinv dS dfits X (R @ take k r) c'" and same: "same_chunk c c'" and R: "R @ r = D @ p"
      and k: "int (length (drop k r)) < b" and ext: "\<exists>xs. R = P @ xs" for R r k c'
  proof -
    obtain xs where xs: "R @ take k r = P @ xs" using ext by auto
    have "chunks_so_far X (R @ take k r) False (cc_chunkStart c') out"
      using chunks_extend [OF out, of xs False] same by (simp add: xs same_chunk_def)
    moreover have "D @ p = (R @ take k r) @ drop k r" using R by simp
    ultimately have "writer_state H dinv dS dfits X b (D @ p) out (w\<lparr>cw_core := c', cw_pending := drop k r\<rparr>)"
      using c' same k live b by (intro writer_stateI [of _ "R @ take k r"]) (simp_all add: same_chunk_def c_def)
    then show ?thesis using same live by (simp add: same_chunk_def c_def)
  qed
  show ?thesis
  proof (cases "q = []")
    case True
    have len': "no_overflow X (cc_batchSize c) (int (length (P @ p)))" using len True by (simp add: D b)
    obtain k c' where r: "feed_batches b c p = Some (c', drop k p)"
        "core_state H dinv dS dfits X (P @ take k p) c'" "same_chunk c c'" "int (length (drop k p)) < b"
      using feed_batches_state [OF core live [folded c_def] b1 len'] by blast
    then show ?thesis
      using fin [OF r(2,3) _ r(4)] True live
      by (simp add: chunkWriter_Write_def c_def [symmetric] q_def [symmetric] b mx D)
  next
    case False
    define need where "need = b - int (length q)"
    show ?thesis
    proof (cases "int (length p) < need")
      case True
      have "writer_state H dinv dS dfits X b (D @ p) out (w\<lparr>cw_pending := q @ p\<rparr>)"
        using True core b out live by (auto simp: writer_state_def D need_def c_def)
      then show ?thesis
        using True False live by (simp add: chunkWriter_Write_def c_def [symmetric] q_def [symmetric] b mx need_def)
    next
      case big: False
      define m where "m = nat need"
      have m: "int m = need" "m \<le> length p" using big q by (simp_all add: m_def need_def)
      have sl: "go_slice p 0 need = Some (take m p)" "go_slice p need (int (length p)) = Some (drop m p)"
        using m by (auto simp: go_slice_def nat_diff_distrib)
      have len1: "no_overflow X (cc_batchSize c) (int (length (P @ q @ take m p)))"
        unfolding b by (rule no_overflow_mono [OF len]) (simp add: D)
      obtain c1 where c1: "core_feed c (q @ take m p) = Some c1"
          "core_state H dinv dS dfits X (P @ q @ take m p) c1" "same_chunk c c1"
        using feed_state [OF core live [folded c_def] len1] by blast
      have live1: "\<not> cc_eof c1" and len2: "no_overflow X (cc_batchSize c1) (int (length ((P @ q @ take m p) @ drop m p)))"
        using c1(3) live len b by (simp_all add: same_chunk_def c_def D)
      obtain k c' where r: "feed_batches b c1 (drop m p) = Some (c', drop k (drop m p))"
          "core_state H dinv dS dfits X ((P @ q @ take m p) @ take k (drop m p)) c'" "same_chunk c1 c'"
          "int (length (drop k (drop m p))) < b"
        using feed_batches_state [OF c1(2) live1 b1 len2] by blast
      have "chunkWriter_Write w p = Some (int (length p), None, w\<lparr>cw_core := c', cw_pending := drop k (drop m p)\<rparr>)"
        using False big live sl c1(1) r(1)
        by (simp add: chunkWriter_Write_def c_def [symmetric] q_def [symmetric] b mx need_def)
      then show ?thesis
        using fin [OF r(2) same_chunk_trans [OF c1(3) r(3)] _ r(4)] by (simp add: D)
    qed
  qed
qed

lemma writer_Close:
  assumes st: "writer_state H dinv dS dfits X b D out w"
    and len: "no_overflow X b (int (length D))"
  shows "\<exists>w'. chunkWriter_Close w = Some (None, w') \<and>
    writer_state H dinv dS dfits X b D out w' \<and> cc_eof (cw_core w')"
proof -
  define q where "q = cw_pending w"
  define c where "c = cw_core w"
  obtain P where D: "D = P @ q" and core: "core_state H dinv dS dfits X P c" and b: "cc_batchSize c = b"
    and out: "chunks_so_far X P (cc_eof c) (cc_chunkStart c) out" and eof: "cc_eof c \<longrightarrow> q = []"
    using st by (auto simp: writer_state_def q_def c_def)
  have b1: "1 \<le> b" by (rule writer_batch [OF st])
  have flag: "core_state H dinv dS dfits X R (core_finish c') \<and> core_finish c' = c'\<lparr>cc_eof := True\<rparr>"
    if "core_state H dinv dS dfits X R c'" for R c'
    using that by (simp add: core_state_def core_finish_def)
  show ?thesis
  proof (cases "q = []")
    case True
    have "writer_state H dinv dS dfits X b D out (w\<lparr>cw_core := core_finish c\<rparr>)"
      using flag [OF core] True b1 b chunks_close [OF out]
      by (auto simp: writer_state_def D q_def [symmetric])
    then show ?thesis
      using True flag [OF core]
      by (simp add: chunkWriter_Close_def q_def [symmetric] c_def [symmetric])
  next
    case False
    then have live: "\<not> cc_eof c" using eof by blast
    obtain c1 where c1: "core_feed c q = Some c1" "core_state H dinv dS dfits X (P @ q) c1" "same_chunk c c1"
      using feed_state [OF core live] len b by (auto simp: D)
    have "chunks_so_far X (P @ q) True (cc_chunkStart c1) out"
      using chunks_extend [of X P "cc_chunkStart c" out q True] out live c1(3) by (simp add: same_chunk_def)
    then have "writer_state H dinv dS dfits X b D out (w\<lparr>cw_pending := [], cw_core := core_finish c1\<rparr>)"
      using flag [OF c1(2)] c1(3) b b1 by (auto simp: writer_state_def D same_chunk_def)
    then show ?thesis
      using False c1(1) flag [OF c1(2)]
      by (simp add: chunkWriter_Close_def q_def [symmetric] c_def [symmetric])
  qed
qed

section \<open>Runs\<close>

context digest
begin

text \<open>One call of \<open>Next\<close> on the writer.\<close>

lemma writer_Next:
  assumes st: "writer_state H inv S fits X b D out w" and mn: "1 \<le> sp_min X"
  shows "\<exists>ok w'. chunkWriter_Next w = Some (ok, w') \<and> cc_eof (cw_core w') = cc_eof (cw_core w) \<and>
    cc_chunkStart (cw_core w') \<le> int (length D) \<and>
    (if ok then \<exists>ch. core_chunk (cw_core w') = Some ch \<and> writer_state H inv S fits X b D (out @ [ch]) w' \<and>
        cc_chunkStart (cw_core w) < cc_chunkStart (cw_core w')
     else writer_state H inv S fits X b D out w' \<and> (cc_eof (cw_core w) \<longrightarrow> out = ref_chunks X D 0) \<and>
       core_chunk (cw_core w') = (if cc_eof (cw_core w) then None else core_chunk (cw_core w)))"
proof -
  define c where "c = cw_core w"
  obtain P where D: "D = P @ cw_pending w" and core: "core_state H inv S fits X P c" and b: "cc_batchSize c = b"
    and out: "chunks_so_far X P (cc_eof c) (cc_chunkStart c) out"
    and pend: "int (length (cw_pending w)) < b" "cc_eof c \<longrightarrow> cw_pending w = []"
    using st by (auto simp: writer_state_def c_def)
  have "no_stale X P c" using mn by (simp add: no_stale_def)
  from next_step [OF core this out] obtain st c' where r: "core_next c = Some (st, c')"
      "core_state H inv S fits X P c'" "cc_eof c' = cc_eof c" "cc_batchSize c' = cc_batchSize c"
      "next_chunks X P c out st c'" "st \<noteq> emitted \<longrightarrow> chunks_so_far X P (cc_eof c) (cc_chunkStart c') out"
    by blast
  define w' where "w' = w\<lparr>cw_core := c'\<rparr>"
  have nx: "chunkWriter_Next w = Some (st = emitted, w')"
    using r(1) by (simp add: chunkWriter_Next_def c_def w'_def)
  have le: "cc_chunkStart c' \<le> int (length P)"
    using r(2) by (simp add: core_state_def core_inv_def buffer_ok_def)
  have eof: "cc_eof (cw_core w') = cc_eof (cw_core w)" and leD: "cc_chunkStart (cw_core w') \<le> int (length D)"
    using r(3) le by (simp_all add: w'_def c_def D)
  have ws: "writer_state H inv S fits X b D out' w'" if "chunks_so_far X P (cc_eof c) (cc_chunkStart c') out'" for out'
    using that r(2-4) b pend by (auto simp: writer_state_def w'_def D)
  show ?thesis
  proof (cases st)
    case emitted
    then show ?thesis
      using nx eof leD r(5) ws unfolding next_chunks_def
      by (intro exI [of _ True] exI [of _ w']) (auto simp: w'_def c_def)
  next
    case needMore
    then show ?thesis
      using nx eof leD r(5,6) ws unfolding next_chunks_def
      by (intro exI [of _ False] exI [of _ w']) (auto simp: w'_def c_def)
  next
    case coreDone
    then have "cc_eof c" "out = ref_chunks X P 0" using r(5) by (simp_all add: next_chunks_def)
    then show ?thesis
      using nx eof leD r(5,6) ws coreDone pend(2) unfolding next_chunks_def
      by (intro exI [of _ False] exI [of _ w']) (auto simp: w'_def c_def D)
  qed
qed

lemma cw_run_state:
  assumes "writer_state H inv S fits X b D out w" and "1 \<le> sp_min X"
    and "no_overflow X b (int (length (D @ (if cc_eof (cw_core w) then [] else push_bytes ops))))"
  shows "\<exists>out' w'. cw_run ops w = Some (out', w') \<and>
    writer_state H inv S fits X b (D @ (if cc_eof (cw_core w) then [] else push_bytes ops)) (out @ out') w' \<and>
    (cc_eof (cw_core w') \<longleftrightarrow> cc_eof (cw_core w) \<or> PushClose \<in> set ops)"
  using assms
proof (induction ops arbitrary: D out w)
  case Nil
  then show ?case by simp
next
  case (Cons op ops)
  define E where "E = D @ (if cc_eof (cw_core w) then [] else push_bytes (op # ops))"
  obtain D1 out1 w1 where step: "cw_step op w = Some (out1, w1)" "writer_state H inv S fits X b D1 (out @ out1) w1"
    and E: "D1 @ (if cc_eof (cw_core w1) then [] else push_bytes ops) = E"
    and eof: "cc_eof (cw_core w1) \<longleftrightarrow> cc_eof (cw_core w) \<or> op = PushClose"
  proof (cases op)
    case (PushWrite p)
    show thesis
    proof (cases "cc_eof (cw_core w)")
      case True
      then show thesis
        using that [of "[]" w D] Cons.prems(1) PushWrite by (simp add: writer_Write_closed E_def)
    next
      case False
      have "no_overflow X b (int (length (D @ p)))"
        by (rule no_overflow_mono [OF Cons.prems(3)]) (simp add: PushWrite False)
      then obtain w' where "chunkWriter_Write w p = Some (int (length p), None, w')"
          "writer_state H inv S fits X b (D @ p) out w'" "\<not> cc_eof (cw_core w')"
        using writer_Write [OF Cons.prems(1) False] by blast
      then show thesis using that [of "[]" w' "D @ p"] PushWrite False by (simp add: E_def)
    qed
  next
    case PushNext
    obtain ok w' where n: "chunkWriter_Next w = Some (ok, w')" "cc_eof (cw_core w') = cc_eof (cw_core w)"
        "if ok then \<exists>ch. core_chunk (cw_core w') = Some ch \<and> writer_state H inv S fits X b D (out @ [ch]) w'
         else writer_state H inv S fits X b D out w'"
      using writer_Next [OF Cons.prems(1,2)] by (metis (no_types, lifting))
    show thesis
    proof (cases ok)
      case True
      then obtain ch where "core_chunk (cw_core w') = Some ch" "writer_state H inv S fits X b D (out @ [ch]) w'"
        using n(3) by auto
      then show thesis using that [of "[ch]" w' D] n True PushNext by (simp add: E_def)
    next
      case False
      then show thesis using that [of "[]" w' D] n PushNext by (simp add: E_def)
    qed
  next
    case PushClose
    have "no_overflow X b (int (length D))"
      by (rule no_overflow_mono [OF Cons.prems(3)]) simp
    then obtain w' where "chunkWriter_Close w = Some (None, w')" "writer_state H inv S fits X b D out w'"
        "cc_eof (cw_core w')"
      using writer_Close [OF Cons.prems(1)] by blast
    then show thesis using that [of "[]" w' D] PushClose by (simp add: E_def)
  qed
  have "no_overflow X b (int (length (D1 @ (if cc_eof (cw_core w1) then [] else push_bytes ops))))"
    using Cons.prems(3) unfolding E E_def .
  from Cons.IH [OF step(2) Cons.prems(2) this] obtain out' w' where "cw_run ops w1 = Some (out', w')"
      "writer_state H inv S fits X b E ((out @ out1) @ out') w'"
      "cc_eof (cw_core w') \<longleftrightarrow> cc_eof (cw_core w1) \<or> PushClose \<in> set ops"
    unfolding E by blast
  then show ?case
    using step(1) eof unfolding E_def [symmetric]
    by (intro exI [of _ "out1 @ out'"] exI [of _ w']) auto
qed

text \<open>Draining a closed writer ends, with the remaining chunks.\<close>

lemma cw_drain_all:
  assumes "writer_state H inv S fits X b D out w" and "1 \<le> sp_min X" and "cc_eof (cw_core w)"
  shows "\<exists>out' w'. cw_drain w = Some (out', w') \<and> out @ out' = ref_chunks X D 0 \<and>
    core_chunk (cw_core w') = None \<and> writer_state H inv S fits X b D (out @ out') w'"
  using assms
proof (induction "nat (int (length D) - cc_chunkStart (cw_core w))" arbitrary: out w rule: less_induct)
  case less
  obtain ok w1 where n: "chunkWriter_Next w = Some (ok, w1)" "cc_eof (cw_core w1) = cc_eof (cw_core w)"
      "cc_chunkStart (cw_core w1) \<le> int (length D)"
    and c: "if ok then \<exists>ch. core_chunk (cw_core w1) = Some ch \<and> writer_state H inv S fits X b D (out @ [ch]) w1 \<and>
        cc_chunkStart (cw_core w) < cc_chunkStart (cw_core w1)
     else writer_state H inv S fits X b D out w1 \<and> (cc_eof (cw_core w) \<longrightarrow> out = ref_chunks X D 0) \<and>
       core_chunk (cw_core w1) = (if cc_eof (cw_core w) then None else core_chunk (cw_core w))"
    using writer_Next [OF less.prems(1,2)] by blast
  show ?case
  proof (cases ok)
    case False
    then show ?thesis
      using n c less.prems(3) by (subst cw_drain.simps) (intro exI [of _ "[]"] exI [of _ w1], auto)
  next
    case True
    then obtain ch where ch: "core_chunk (cw_core w1) = Some ch" "writer_state H inv S fits X b D (out @ [ch]) w1"
        "cc_chunkStart (cw_core w) < cc_chunkStart (cw_core w1)"
      using c by auto
    have "nat (int (length D) - cc_chunkStart (cw_core w1)) < nat (int (length D) - cc_chunkStart (cw_core w))"
      using ch(3) n(3) by simp
    moreover have "cc_eof (cw_core w1)" using n(2) less.prems(3) by simp
    ultimately obtain out' w' where "cw_drain w1 = Some (out', w')" "(out @ [ch]) @ out' = ref_chunks X D 0"
        "core_chunk (cw_core w') = None" "writer_state H inv S fits X b D ((out @ [ch]) @ out') w'"
      using less.hyps [OF _ ch(2) less.prems(2)] by blast
    then show ?thesis
      using n(1) True ch(1)
      by (subst cw_drain.simps) (intro exI [of _ "ch # out'"] exI [of _ w'], simp)
  qed
qed

text \<open>A new core.\<close>

lemma new_core_state:
  assumes d: "inv h" and X: "X = \<lparr>sp_sum = S h, sp_window = window, sp_mask = msk, sp_min = mn, sp_max = mx\<rparr>"
    and ok: "spec_ok X b" "no_overflow X b 0" and fits: "fits (nat window)"
    and new: "newChunkerCore H h window msk 0 MaxInt = Some c0"
    and c: "c = WithBatchSize b (WithBoundaries mn mx c0)"
  shows "core_state H inv S fits X [] c" "cc_chunkStart c = 0" "cc_eof c = False" "cc_batchSize c = b"
    "one_batch [] c" "cc_bcur c = 0" "core_chunk c = None"
proof -
  obtain brd where brd: "h_BatchBoundaries H = Some brd"
    using new unfolding newChunkerCore_def by (auto split: bind_splits)
  have c': "c = \<lparr>cc_H = H, cc_h = h, cc_brd = brd, cc_sum = core_sum H, cc_window = window, cc_mask = msk,
           cc_min = mn, cc_max = mx, cc_la = [], cc_lb = [], cc_batchSize = b,
           cc_cbuf = [], cc_cbufBase = 0, cc_chunkStart = 0, cc_consumed = 0, cc_bounds = [],
           cc_bcur = 0, cc_hashedTo = 0, cc_eof = False, cc_done = False, cc_err = None,
           cc_chunk = None, cc_sumv = 0, cc_contentDefined = False, cc_offset = 0\<rparr>"
    using new brd by (auto simp: c newChunkerCore_def WithBatchSize_def WithBoundaries_def)
  have w: "1 \<le> sp_window X" "1 \<le> b" using ok by (simp_all add: spec_ok_def)
  have "\<not> hit X [] e" for e using w by (simp add: hit_def)
  then have "queue_ok X [] c" by (intro queue_okI) (simp_all add: c' pending_bounds_def)
  then show "core_state H inv S fits X [] c"
    using ok d fits brd
    by (simp add: core_state_def core_inv_def params_are_def buffer_ok_def hash_ok_def c' X)
  show "cc_chunkStart c = 0" "cc_eof c = False" "cc_batchSize c = b" "cc_bcur c = 0" "core_chunk c = None"
    by (simp_all add: c' core_chunk_def)
  show "one_batch [] c" using w by (simp add: one_batch_def c')
qed

lemma has_boundaries:
  assumes "inv h" and "fits w" and "0 < w"
  shows "\<exists>brd. h_BatchBoundaries H = Some brd"
  using boundaries [of h w 0 "replicate w 0" "[0]" "[0]"] assms by auto

end

text \<open>\<open>reset\<close> makes a core ready for a new stream: the parameters and the hash stay.\<close>

lemma reset_state:
  assumes "params_are X c" and "hash_ok H dinv dS dfits X c" and "no_overflow X (cc_batchSize c) 0"
  shows "core_state H dinv dS dfits X [] (core_reset c)" "cc_chunkStart (core_reset c) = 0"
    "cc_eof (core_reset c) = False" "cc_batchSize (core_reset c) = cc_batchSize c"
    "one_batch [] (core_reset c)" "cc_bcur (core_reset c) = 0" "core_chunk (core_reset c) = None"
proof -
  have w: "1 \<le> sp_window X" "1 \<le> cc_batchSize c" using assms(1) by (simp_all add: params_are_def spec_ok_def)
  have "\<not> hit X [] e" for e using w by (simp add: hit_def)
  then have "queue_ok X [] (core_reset c)" by (intro queue_okI) (simp_all add: core_reset_def pending_bounds_def)
  then show "core_state H dinv dS dfits X [] (core_reset c)"
    using assms by (simp add: core_state_def core_inv_def params_are_def buffer_ok_def hash_ok_def core_reset_def)
  show "cc_chunkStart (core_reset c) = 0" "cc_eof (core_reset c) = False" "cc_bcur (core_reset c) = 0"
    "cc_batchSize (core_reset c) = cc_batchSize c" "core_chunk (core_reset c) = None"
    by (simp_all add: core_reset_def core_chunk_def)
  show "one_batch [] (core_reset c)" using w by (simp add: one_batch_def core_reset_def)
qed

section \<open>Whole streams\<close>

context digest
begin

text \<open>Calls that include a \<open>Close\<close>, on a writer that has seen nothing yet, and then the drain.\<close>

lemma fresh_writer:
  assumes core: "core_state H inv S fits X [] (cw_core w)" "cc_chunkStart (cw_core w) = 0"
      "cc_eof (cw_core w) = False" and pend: "cw_pending w = []"
    and mn: "1 \<le> sp_min X" and closed: "PushClose \<in> set ops"
    and len: "no_overflow X (cc_batchSize (cw_core w)) (int (length (push_bytes ops)))"
  shows "\<exists>out w1 out' w2. cw_run ops w = Some (out, w1) \<and> cw_drain w1 = Some (out', w2) \<and>
    out @ out' = ref_chunks X (push_bytes ops) 0 \<and> core_chunk (cw_core w2) = None"
proof -
  define b where "b = cc_batchSize (cw_core w)"
  have b1: "1 \<le> b" using core(1) by (simp add: core_state_def core_inv_def params_are_def spec_ok_def b_def)
  have st: "writer_state H inv S fits X b [] [] w"
    using core pend b1 chunks_start [of X "[]" False]
    by (intro writer_stateI [of _ "[]"]) (simp_all add: b_def)
  have "no_overflow X b (int (length ([] @ (if cc_eof (cw_core w) then [] else push_bytes ops))))"
    using len core(3) by (simp add: b_def)
  from cw_run_state [OF st mn this] obtain out w1 where run: "cw_run ops w = Some (out, w1)"
      "writer_state H inv S fits X b (push_bytes ops) out w1" "cc_eof (cw_core w1)"
    using core(3) closed by auto
  obtain out' w2 where "cw_drain w1 = Some (out', w2)" "out @ out' = ref_chunks X (push_bytes ops) 0"
      "core_chunk (cw_core w2) = None"
    using cw_drain_all [OF run(2) mn run(3)] by blast
  then show ?thesis using run(1) by blast
qed

lemma new_writer_state:
  assumes h: "inv h" and X: "X = \<lparr>sp_sum = S h, sp_window = window, sp_mask = msk, sp_min = mn, sp_max = mx\<rparr>"
    and ok: "spec_ok X b" and mn: "1 \<le> mn" and fits: "fits (nat window)"
    and len: "no_overflow X b (int (length (push_bytes ops)))"
  shows "\<exists>w out w1. NewChunkWriter H h window msk [WithBoundaries mn mx, WithBatchSize b] = Some w \<and>
    cw_run ops w = Some (out, w1) \<and> writer_state H inv S fits X b (push_bytes ops) out w1 \<and>
    (cc_eof (cw_core w1) \<longleftrightarrow> PushClose \<in> set ops)"
proof -
  have w: "1 \<le> window" "1 \<le> b" using ok by (simp_all add: spec_ok_def X)
  obtain brd where "h_BatchBoundaries H = Some brd" using has_boundaries [OF h fits] w by auto
  then obtain c0 where c0: "newChunkerCore H h window msk 0 MaxInt = Some c0"
    by (simp add: newChunkerCore_def)
  define core where "core = WithBatchSize b (WithBoundaries mn mx c0)"
  have len0: "no_overflow X b 0" by (rule no_overflow_mono [OF len]) simp
  note n = new_core_state [OF h X ok len0 fits c0 core_def]
  define w where "w = \<lparr>cw_core = core, cw_pending = []\<rparr>"
  have new: "NewChunkWriter H h window msk [WithBoundaries mn mx, WithBatchSize b] = Some w"
    using c0 by (auto simp: NewChunkWriter_def w_def core_def Let_def)
  have "writer_state H inv S fits X b [] [] w"
    using n w chunks_start [of X "[]" False] by (intro writer_stateI [of _ "[]"]) (simp_all add: w_def)
  then show ?thesis
    using cw_run_state [of X b "[]" "[]" w ops] new n(3) mn len by (auto simp: w_def X)
qed

lemma new_writer:
  assumes "inv h" and X: "X = \<lparr>sp_sum = S h, sp_window = window, sp_mask = msk, sp_min = mn, sp_max = mx\<rparr>"
    and "spec_ok X b" and "1 \<le> mn" and "fits (nat window)" and closed: "PushClose \<in> set ops"
    and "no_overflow X b (int (length (push_bytes ops)))"
  shows "\<exists>w out w1 out' w2. NewChunkWriter H h window msk [WithBoundaries mn mx, WithBatchSize b] = Some w \<and>
    cw_run ops w = Some (out, w1) \<and> cw_drain w1 = Some (out', w2) \<and>
    out @ out' = ref_chunks X (push_bytes ops) 0 \<and> core_chunk (cw_core w2) = None"
proof -
  obtain w out w1 where w: "NewChunkWriter H h window msk [WithBoundaries mn mx, WithBatchSize b] = Some w"
      "cw_run ops w = Some (out, w1)" "writer_state H inv S fits X b (push_bytes ops) out w1" "cc_eof (cw_core w1)"
    using new_writer_state [OF assms(1-5,7)] closed by blast
  have "1 \<le> sp_min X" using assms(4) by (simp add: X)
  then show ?thesis using cw_drain_all [OF w(3) _ w(4)] w by blast
qed

text \<open>\<open>Reset\<close> in the middle of a stream makes the writer new, whatever was written or closed before.\<close>

lemma reset_writer:
  assumes st: "writer_state H inv S fits X b D out w" and mn: "1 \<le> sp_min X" and closed: "PushClose \<in> set ops"
    and len: "no_overflow X b (int (length (push_bytes ops)))"
  shows "\<exists>out w1 out' w2. cw_run ops (chunkWriter_Reset w) = Some (out, w1) \<and> cw_drain w1 = Some (out', w2) \<and>
    out @ out' = ref_chunks X (push_bytes ops) 0 \<and> core_chunk (cw_core w2) = None"
proof -
  have p: "params_are X (cw_core w)" "hash_ok H inv S fits X (cw_core w)" "cc_batchSize (cw_core w) = b"
    using st by (auto simp: writer_state_def core_state_def core_inv_def)
  have len0: "no_overflow X (cc_batchSize (cw_core w)) 0"
    unfolding p(3) by (rule no_overflow_mono [OF len]) simp
  note n = reset_state [OF p(1,2) len0]
  show ?thesis
    by (rule fresh_writer [OF _ _ _ _ mn closed]) (use n p(3) len in \<open>simp_all add: chunkWriter_Reset_def\<close>)
qed

end

end
