(* ===== verification/Batch_Writer.thy ===== *)
theory Batch_Writer
  imports Batch_Core Chunk_Writer
begin

text \<open>
  batchwriter.go: the push side of the batch roller, a core and the bytes that \<open>Write\<close> holds back
  until a batch is full. The lemmas follow the batches that any sequence of calls hands out; the calls
  are those of \<open>push_op\<close>, as for the chunk writer.
\<close>

section \<open>The writer\<close>

record 'd batchWriter =
  bw_core :: "'d batchRollerCore"
  bw_pending :: "byte list"

definition NewBatchWriter :: "'d hash_iface \<Rightarrow> 'd \<Rightarrow> int \<Rightarrow> ('d batchRollerCore \<Rightarrow> 'd batchRollerCore) list \<Rightarrow>
    'd batchWriter option" where
  "NewBatchWriter H h window opts = do {
     core \<leftarrow> newBatchRollerCore H h window defaultBatchRollerBufSize;
     let core = fold (\<lambda>opt c. opt c) opts core;
     Some \<lparr>bw_core = core, bw_pending = []\<rparr>
   }"

text \<open>\<open>for len(p) >= batchSize { w.core.feed(p[:batchSize]); p = p[batchSize:] }\<close>\<close>

partial_function (option) bw_feed_batches ::
    "int \<Rightarrow> 'd batchRollerCore \<Rightarrow> byte list \<Rightarrow> ('d batchRollerCore \<times> byte list) option" where
  "bw_feed_batches batchSize core p =
     (if batchSize \<le> int (length p) then do {
        head \<leftarrow> go_slice p 0 batchSize;
        p \<leftarrow> go_slice p batchSize (int (length p));
        bw_feed_batches batchSize (bcore_feed core head) p
      } else Some (core, p))"

declare bw_feed_batches.simps [code]

definition batchWriter_Write ::
    "'d batchWriter \<Rightarrow> byte list \<Rightarrow> (int \<times> gerror option \<times> 'd batchWriter) option" where
  "batchWriter_Write w p =
     (if bc_eof (bw_core w) then Some (0, Some ErrClosed, w)
      else
        let n = int (length p);
            batchSize = max (bc_batchSize (bw_core w)) 1 in
        if length (bw_pending w) > 0 then
          let need = batchSize - int (length (bw_pending w)) in
          if need > int (length p)
          then Some (n, None, w\<lparr>bw_pending := bw_pending w @ p\<rparr>)
          else do {
            head \<leftarrow> go_slice p 0 need;
            let core = bcore_feed (bw_core w) (bw_pending w @ head);
            p \<leftarrow> go_slice p need (int (length p));
            (core, p) \<leftarrow> bw_feed_batches batchSize core p;
            Some (n, None, w\<lparr>bw_core := core, bw_pending := p\<rparr>)
          }
        else do {
          (core, p) \<leftarrow> bw_feed_batches batchSize (bw_core w) p;
          Some (n, None, w\<lparr>bw_core := core, bw_pending := p\<rparr>)
        })"

definition batchWriter_Close :: "'d batchWriter \<Rightarrow> gerror option \<times> 'd batchWriter" where
  "batchWriter_Close w =
     (let w = (if length (bw_pending w) > 0
               then w\<lparr>bw_core := bcore_feed (bw_core w) (bw_pending w), bw_pending := []\<rparr> else w)
      in (None, w\<lparr>bw_core := bcore_finish (bw_core w)\<rparr>))"

definition batchWriter_Next :: "'d batchWriter \<Rightarrow> (bool \<times> 'd batchWriter) option" where
  "batchWriter_Next w = do {
     (st, core) \<leftarrow> bcore_next (bw_core w);
     Some (st = emitted, w\<lparr>bw_core := core\<rparr>)
   }"

definition batchWriter_Reset :: "'d batchWriter \<Rightarrow> 'd batchWriter" where
  "batchWriter_Reset w = w\<lparr>bw_core := bcore_reset (bw_core w), bw_pending := []\<rparr>"

section \<open>Accessors\<close>

definition batchWriter_Sums :: "'d batchWriter \<Rightarrow> u64 list option" where
  [simp]: "batchWriter_Sums x = bcore_Sums (bw_core x)"

definition batchWriter_Bytes :: "'d batchWriter \<Rightarrow> byte list option" where
  [simp]: "batchWriter_Bytes x = bcore_Bytes (bw_core x)"

definition batchWriter_Err :: "'d batchWriter \<Rightarrow> gerror option" where
  [simp]: "batchWriter_Err x = bcore_Err (bw_core x)"

definition batchWriter_Offset :: "'d batchWriter \<Rightarrow> int" where
  [simp]: "batchWriter_Offset x = bcore_Offset (bw_core x)"

definition batchWriter_WindowSize :: "'d batchWriter \<Rightarrow> int" where
  [simp]: "batchWriter_WindowSize x = bcore_WindowSize (bw_core x)"

section \<open>Sequences of calls\<close>

text \<open>The batches a client sees: one for every \<open>Next\<close> that returns true.\<close>

definition seen :: "bool \<Rightarrow> 'd batchRollerCore \<Rightarrow> batch list" where
  "seen ok c = (if ok then case bcore_current c of Some b \<Rightarrow> [b] | None \<Rightarrow> [] else [])"

fun bw_step :: "push_op \<Rightarrow> 'd batchWriter \<Rightarrow> (batch list \<times> 'd batchWriter) option" where
  "bw_step (PushWrite p) w = do { (n, err, w) \<leftarrow> batchWriter_Write w p; Some ([], w) }"
| "bw_step PushNext w = do { (ok, w) \<leftarrow> batchWriter_Next w; Some (seen ok (bw_core w), w) }"
| "bw_step PushClose w = Some ([], snd (batchWriter_Close w))"

fun bw_run :: "push_op list \<Rightarrow> 'd batchWriter \<Rightarrow> (batch list \<times> 'd batchWriter) option" where
  "bw_run [] w = Some ([], w)"
| "bw_run (op # ops) w = do {
     (out, w) \<leftarrow> bw_step op w;
     (out', w) \<leftarrow> bw_run ops w;
     Some (out @ out', w)
   }"

partial_function (option) bw_drain :: "'d batchWriter \<Rightarrow> (batch list \<times> 'd batchWriter) option" where
  "bw_drain w = do {
     (ok, w) \<leftarrow> batchWriter_Next w;
     if ok then do {
       (out, w') \<leftarrow> bw_drain w;
       Some (seen True (bw_core w) @ out, w')
     } else Some ([], w)
   }"

declare bw_drain.simps [code]

section \<open>Writing\<close>

lemma bw_feed_batches_state:
  assumes "batch_state H dinv dS dfits S0 w b P s c" and "\<not> bc_eof c" and "1 \<le> m"
  shows "\<exists>k c'. bw_feed_batches m c p = Some (c', drop k p) \<and>
    batch_state H dinv dS dfits S0 w b (P @ take k p) s c' \<and> \<not> bc_eof c' \<and> int (length (drop k p)) < m"
  using assms
proof (induction "length p" arbitrary: P c p rule: less_induct)
  case less
  show ?case
  proof (cases "m \<le> int (length p)")
    case False
    then show ?thesis using less.prems
      by (subst bw_feed_batches.simps) (intro exI [of _ 0] exI [of _ c], simp)
  next
    case True
    define n where "n = nat m"
    have n: "int n = m" "0 < n" "n \<le> length p" using less.prems(3) True by (simp_all add: n_def)
    have sl: "go_slice p 0 m = Some (take n p)" "go_slice p m (int (length p)) = Some (drop n p)"
      using n by (auto simp: go_slice_def nat_diff_distrib)
    define c1 where "c1 = bcore_feed c (take n p)"
    have c1: "batch_state H dinv dS dfits S0 w b (P @ take n p) s c1" "\<not> bc_eof c1"
      using feed_batch_state [OF less.prems(1,2)] less.prems(2) by (simp_all add: c1_def) (simp add: bcore_feed_def)
    have "length (drop n p) < length p" using n by simp
    from less.hyps [OF this c1 less.prems(3)] obtain k c'
      where c': "bw_feed_batches m c1 (drop n p) = Some (c', drop k (drop n p))"
        "batch_state H dinv dS dfits S0 w b ((P @ take n p) @ take k (drop n p)) s c'" "\<not> bc_eof c'"
        "int (length (drop k (drop n p))) < m" by blast
    have "bw_feed_batches m c p = Some (c', drop (k + n) p)"
      using True sl c'(1) by (subst bw_feed_batches.simps) (simp add: c1_def)
    moreover have "take (k + n) p = take n p @ take k (drop n p)"
      using take_add [of n k p] by (simp add: add.commute)
    ultimately show ?thesis using c' by (intro exI [of _ "k + n"] exI [of _ c']) simp
  qed
qed

text \<open>The state of a writer after \<open>D\<close> was written and \<open>out\<close> was handed out.\<close>

definition bwriter_state :: "'d hash_iface \<Rightarrow> ('d \<Rightarrow> bool) \<Rightarrow> ('d \<Rightarrow> byte list \<Rightarrow> u64) \<Rightarrow> (nat \<Rightarrow> bool) \<Rightarrow>
    (byte list \<Rightarrow> u64) \<Rightarrow> nat \<Rightarrow> int \<Rightarrow> byte list \<Rightarrow> batch list \<Rightarrow> nat \<Rightarrow> 'd batchWriter \<Rightarrow> bool" where
  "bwriter_state H dinv S fits S0 w b D out s bw \<longleftrightarrow> (\<exists>P. D = P @ bw_pending bw \<and>
     batch_state H dinv S fits S0 w b P s (bw_core bw) \<and> batches_at S0 w P 0 out s \<and>
     int (length (bw_pending bw)) < b \<and> (bc_eof (bw_core bw) \<longrightarrow> bw_pending bw = []))"

lemma bwriter_stateI:
  "D = P @ bw_pending bw \<Longrightarrow> batch_state H dinv dS dfits S0 w b P s (bw_core bw) \<Longrightarrow>
   batches_at S0 w P 0 out s \<Longrightarrow> int (length (bw_pending bw)) < b \<Longrightarrow>
   (bc_eof (bw_core bw) \<Longrightarrow> bw_pending bw = []) \<Longrightarrow> bwriter_state H dinv dS dfits S0 w b D out s bw"
  unfolding bwriter_state_def by blast

lemma bwriter_batch: "bwriter_state H dinv dS dfits S0 w b D out s bw \<Longrightarrow> 1 \<le> b \<and> bc_batchSize (bw_core bw) = b"
  by (auto simp: bwriter_state_def batch_state_def batch_params_def)

lemma bwriter_Write_closed:
  "bc_eof (bw_core w) \<Longrightarrow> batchWriter_Write w p = Some (0, Some ErrClosed, w)"
  by (simp add: batchWriter_Write_def)

lemma bwriter_Write:
  assumes st: "bwriter_state H dinv dS dfits S0 w b D out s bw" and live: "\<not> bc_eof (bw_core bw)"
  shows "\<exists>bw'. batchWriter_Write bw p = Some (int (length p), None, bw') \<and>
    bwriter_state H dinv dS dfits S0 w b (D @ p) out s bw' \<and> \<not> bc_eof (bw_core bw')"
proof -
  define q where "q = bw_pending bw"
  define c where "c = bw_core bw"
  obtain P where D: "D = P @ q" and core: "batch_state H dinv dS dfits S0 w b P s c"
    and out: "batches_at S0 w P 0 out s" and q: "int (length q) < b"
    using st by (auto simp: bwriter_state_def q_def c_def)
  have b: "1 \<le> b" "bc_batchSize c = b" using bwriter_batch [OF st] by (simp_all add: c_def)
  have mx: "max b 1 = b" using b by simp
  have fin: "bwriter_state H dinv dS dfits S0 w b (D @ p) out s (bw\<lparr>bw_core := c', bw_pending := drop k r\<rparr>)"
    if c': "batch_state H dinv dS dfits S0 w b (R @ take k r) s c'" "\<not> bc_eof c'" and R: "R @ r = D @ p"
      and k: "int (length (drop k r)) < b" and ext: "R = P @ xs" for R r k c' xs
  proof (rule bwriter_stateI [of _ "R @ take k r"])
    show "D @ p = (R @ take k r) @ bw_pending (bw\<lparr>bw_core := c', bw_pending := drop k r\<rparr>)" using R by simp
    show "batches_at S0 w (R @ take k r) 0 out s" using out by (simp add: ext batches_at_mono)
  qed (use c' k in simp_all)
  show ?thesis
  proof (cases "q = []")
    case True
    obtain k c' where r: "bw_feed_batches b c p = Some (c', drop k p)"
        "batch_state H dinv dS dfits S0 w b (P @ take k p) s c'" "\<not> bc_eof c'" "int (length (drop k p)) < b"
      using bw_feed_batches_state [OF core live [folded c_def] b(1)] by blast
    then show ?thesis
      using fin [OF r(2,3) _ r(4), of "[]"] True live
      by (simp add: batchWriter_Write_def c_def [symmetric] q_def [symmetric] b mx D)
  next
    case False
    define need where "need = b - int (length q)"
    show ?thesis
    proof (cases "int (length p) < need")
      case True
      have "bwriter_state H dinv dS dfits S0 w b (D @ p) out s (bw\<lparr>bw_pending := q @ p\<rparr>)"
        using True core out live by (intro bwriter_stateI [of _ P]) (simp_all add: D need_def c_def)
      then show ?thesis
        using True False live by (simp add: batchWriter_Write_def c_def [symmetric] q_def [symmetric] b mx need_def)
    next
      case big: False
      define m where "m = nat need"
      have m: "int m = need" "m \<le> length p" using big q by (simp_all add: m_def need_def)
      have sl: "go_slice p 0 need = Some (take m p)" "go_slice p need (int (length p)) = Some (drop m p)"
        using m by (auto simp: go_slice_def nat_diff_distrib)
      define c1 where "c1 = bcore_feed c (q @ take m p)"
      have c1: "batch_state H dinv dS dfits S0 w b (P @ q @ take m p) s c1" "\<not> bc_eof c1"
        using feed_batch_state [OF core live [folded c_def]] live
        by (simp_all add: c1_def) (simp add: bcore_feed_def c_def)
      obtain k c' where r: "bw_feed_batches b c1 (drop m p) = Some (c', drop k (drop m p))"
          "batch_state H dinv dS dfits S0 w b ((P @ q @ take m p) @ take k (drop m p)) s c'" "\<not> bc_eof c'"
          "int (length (drop k (drop m p))) < b"
        using bw_feed_batches_state [OF c1 b(1)] by blast
      have "batchWriter_Write bw p = Some (int (length p), None, bw\<lparr>bw_core := c', bw_pending := drop k (drop m p)\<rparr>)"
        using False big live sl r(1)
        by (simp add: batchWriter_Write_def c_def [symmetric] q_def [symmetric] b mx need_def c1_def)
      then show ?thesis
        using fin [OF r(2,3) _ r(4), of "q @ take m p"] r(3) by (simp add: D)
    qed
  qed
qed

lemma bwriter_Close:
  assumes st: "bwriter_state H dinv dS dfits S0 w b D out s bw"
  shows "\<exists>bw'. batchWriter_Close bw = (None, bw') \<and> bwriter_state H dinv dS dfits S0 w b D out s bw' \<and>
    bc_eof (bw_core bw')"
proof -
  obtain P where P: "D = P @ bw_pending bw" "batch_state H dinv dS dfits S0 w b P s (bw_core bw)"
      "batches_at S0 w P 0 out s" "bc_eof (bw_core bw) \<longrightarrow> bw_pending bw = []"
    using st by (auto simp: bwriter_state_def)
  have b: "1 \<le> b" using bwriter_batch [OF st] by blast
  show ?thesis
  proof (cases "bw_pending bw = []")
    case True
    then show ?thesis
      using P b by (auto simp: batchWriter_Close_def intro!: bwriter_stateI [of _ P] finish_batch_state)
        (simp add: bcore_finish_def)
  next
    case False
    then have "batch_state H dinv dS dfits S0 w b (P @ bw_pending bw) s (bcore_finish (bcore_feed (bw_core bw) (bw_pending bw)))"
      using P by (intro finish_batch_state feed_batch_state) auto
    then show ?thesis
      using False P b by (auto simp: batchWriter_Close_def batches_at_mono intro!: bwriter_stateI [of _ D])
        (simp add: bcore_finish_def)
  qed
qed

section \<open>Runs\<close>

context digest
begin

lemma bwriter_Next:
  assumes st: "bwriter_state H inv S fits S0 w b D out s bw"
  shows "\<exists>ok t bw'. batchWriter_Next bw = Some (ok, bw') \<and> bc_eof (bw_core bw') = bc_eof (bw_core bw) \<and>
    bwriter_state H inv S fits S0 w b D (out @ seen ok (bw_core bw')) t bw' \<and>
    (if ok then s < t \<and> t \<le> length D
     else t = s \<and> (bc_eof (bw_core bw) \<longrightarrow> s = length D + 1 - w \<and> bcore_current (bw_core bw') = None))"
proof -
  obtain P where P: "D = P @ bw_pending bw" "batch_state H inv S fits S0 w b P s (bw_core bw)"
      "batches_at S0 w P 0 out s" "int (length (bw_pending bw)) < b" "bc_eof (bw_core bw) \<longrightarrow> bw_pending bw = []"
    using st by (auto simp: bwriter_state_def)
  obtain r t c' where n: "bcore_next (bw_core bw) = Some (r, c')" "batch_state H inv S fits S0 w b P t c'"
      "bc_eof c' = bc_eof (bw_core bw)" "next_batch S0 w P s (bw_core bw) r t c'"
    using batch_next_ok [OF P(2)] by blast
  define bw' where "bw' = bw\<lparr>bw_core := c'\<rparr>"
  have run: "batchWriter_Next bw = Some (r = emitted, bw')"
    using n(1) by (simp add: batchWriter_Next_def bw'_def)
  have le: "t \<le> length P"
    using n(2) batch_pos_le by (auto simp: batch_state_def batch_params_def)
  have out: "batches_at S0 w P 0 (out @ seen (r = emitted) c') t"
  proof (cases "r = emitted")
    case True
    then obtain bt where "bcore_current c' = Some bt" "batch_at S0 w P s bt" "t = s + length (bt_sums bt)"
      using n(4) by (auto simp: next_batch_def)
    then show ?thesis using P(3) True by (auto simp: seen_def batches_at_append)
  next
    case False
    then have "t = s" using n(4) by (cases r) (simp_all add: next_batch_def)
    then show ?thesis using P(3) False by (simp add: seen_def)
  qed
  have "bwriter_state H inv S fits S0 w b D (out @ seen (r = emitted) (bw_core bw')) t bw'"
    by (rule bwriter_stateI [of _ P]) (use P n out in \<open>simp_all add: bw'_def\<close>)
  then show ?thesis
    using run n P(1,5) le
    by (intro exI [of _ "r = emitted"] exI [of _ t] exI [of _ bw'])
      (cases r; auto simp: next_batch_def bw'_def)
qed

lemma bw_run_state:
  assumes "bwriter_state H inv S fits S0 w b D out s bw"
  shows "\<exists>out' t bw'. bw_run ops bw = Some (out', bw') \<and>
    bwriter_state H inv S fits S0 w b (D @ (if bc_eof (bw_core bw) then [] else push_bytes ops)) (out @ out') t bw' \<and>
    (bc_eof (bw_core bw') \<longleftrightarrow> bc_eof (bw_core bw) \<or> PushClose \<in> set ops)"
  using assms
proof (induction ops arbitrary: D out s bw)
  case Nil
  then show ?case by (intro exI [of _ "[]"] exI [of _ s] exI [of _ bw]) simp
next
  case (Cons op ops)
  define E where "E = D @ (if bc_eof (bw_core bw) then [] else push_bytes (op # ops))"
  obtain D1 out1 s1 bw1 where step: "bw_step op bw = Some (out1, bw1)"
      "bwriter_state H inv S fits S0 w b D1 (out @ out1) s1 bw1"
    and E: "D1 @ (if bc_eof (bw_core bw1) then [] else push_bytes ops) = E"
    and eof: "bc_eof (bw_core bw1) \<longleftrightarrow> bc_eof (bw_core bw) \<or> op = PushClose"
  proof (cases op)
    case (PushWrite p)
    show thesis
    proof (cases "bc_eof (bw_core bw)")
      case True
      then show thesis
        using that [of "[]" bw D s] Cons.prems(1) PushWrite by (simp add: bwriter_Write_closed E_def)
    next
      case False
      then obtain bw' where "batchWriter_Write bw p = Some (int (length p), None, bw')"
          "bwriter_state H inv S fits S0 w b (D @ p) out s bw'" "\<not> bc_eof (bw_core bw')"
        using bwriter_Write [OF Cons.prems(1) False] by blast
      then show thesis using that [of "[]" bw' "D @ p" s] PushWrite False by (simp add: E_def)
    qed
  next
    case PushNext
    obtain ok t bw' where n: "batchWriter_Next bw = Some (ok, bw')" "bc_eof (bw_core bw') = bc_eof (bw_core bw)"
        "bwriter_state H inv S fits S0 w b D (out @ seen ok (bw_core bw')) t bw'"
      using bwriter_Next [OF Cons.prems(1)] by blast
    then show thesis using that [of "seen ok (bw_core bw')" bw' D t] PushNext by (simp add: E_def)
  next
    case PushClose
    obtain bw' where "batchWriter_Close bw = (None, bw')" "bwriter_state H inv S fits S0 w b D out s bw'"
        "bc_eof (bw_core bw')"
      using bwriter_Close [OF Cons.prems(1)] by blast
    then show thesis using that [of "[]" bw' D s] PushClose by (simp add: E_def)
  qed
  from Cons.IH [OF step(2)] obtain out' t bw' where "bw_run ops bw1 = Some (out', bw')"
      "bwriter_state H inv S fits S0 w b E ((out @ out1) @ out') t bw'"
      "bc_eof (bw_core bw') \<longleftrightarrow> bc_eof (bw_core bw1) \<or> PushClose \<in> set ops"
    unfolding E by blast
  then show ?case
    using step(1) eof unfolding E_def [symmetric]
    by (intro exI [of _ "out1 @ out'"] exI [of _ t] exI [of _ bw']) auto
qed

lemma bw_drain_all:
  assumes "bwriter_state H inv S fits S0 w b D out s bw" and "bc_eof (bw_core bw)"
  shows "\<exists>out' bw'. bw_drain bw = Some (out', bw') \<and>
    batches_at S0 w D 0 (out @ out') (length D + 1 - w) \<and> bcore_current (bw_core bw') = None"
  using assms
proof (induction "length D - s" arbitrary: out s bw rule: less_induct)
  case less
  obtain ok t bw1 where n: "batchWriter_Next bw = Some (ok, bw1)" "bc_eof (bw_core bw1) = bc_eof (bw_core bw)"
      "bwriter_state H inv S fits S0 w b D (out @ seen ok (bw_core bw1)) t bw1"
      "if ok then s < t \<and> t \<le> length D
       else t = s \<and> (bc_eof (bw_core bw) \<longrightarrow> s = length D + 1 - w \<and> bcore_current (bw_core bw1) = None)"
    using bwriter_Next [OF less.prems(1)] by blast
  show ?case
  proof (cases ok)
    case False
    then have t: "t = length D + 1 - w" "bcore_current (bw_core bw1) = None" using n(4) less.prems(2) by auto
    have "batches_at S0 w D 0 out t"
      using n(3) False by (auto simp: bwriter_state_def seen_def intro: batches_at_mono)
    then show ?thesis
      using n(1) False t by (subst bw_drain.simps) (intro exI [of _ "[]"] exI [of _ bw1], simp)
  next
    case True
    have "length D - t < length D - s" using n(4) True by auto
    then obtain out' bw' where "bw_drain bw1 = Some (out', bw')"
        "batches_at S0 w D 0 ((out @ seen ok (bw_core bw1)) @ out') (length D + 1 - w)"
        "bcore_current (bw_core bw') = None"
      using less.hyps [OF _ n(3)] less.prems(2) n(2) by blast
    then show ?thesis
      using n(1) True by (subst bw_drain.simps) (intro exI [of _ "seen True (bw_core bw1) @ out'"] exI [of _ bw'], simp)
  qed
qed

end

end
