(* ===== verification/Batch_Reader.thy ===== *)
theory Batch_Reader
  imports Batch_Core Readers
begin

text \<open>
  batchroller.go, the pull side: \<open>batchRoller\<close> reads its own bytes from an \<open>io.Reader\<close>, a parameter
  \<open>rd\<close> of the model with its state in the record.
\<close>

section \<open>The batch roller\<close>

record ('d, 'r) batchRoller =
  br_core :: "'d batchRollerCore"
  br_r :: 'r
  br_readSize :: int

definition NewBatchRoller :: "'r \<Rightarrow> 'd hash_iface \<Rightarrow> 'd \<Rightarrow> int \<Rightarrow> ('d batchRollerCore \<Rightarrow> 'd batchRollerCore) list \<Rightarrow>
    ('d, 'r) batchRoller option" where
  "NewBatchRoller r H h window opts = do {
     core \<leftarrow> newBatchRollerCore H h window defaultBatchRollerBufSize;
     let core = fold (\<lambda>opt c. opt c) opts core;
     Some \<lparr>br_core = core, br_r = r, br_readSize = bc_batchSize core\<rparr>
   }"

definition batchRoller_Reset :: "('d, 'r) batchRoller \<Rightarrow> 'r \<Rightarrow> ('d, 'r) batchRoller" where
  "batchRoller_Reset s r = s\<lparr>br_r := r, br_core := bcore_reset (br_core s)\<rparr>"

definition br_fillCore :: "'r reader \<Rightarrow> ('d, 'r) batchRoller \<Rightarrow> (bool \<times> ('d, 'r) batchRoller) option" where
  "br_fillCore rd s =
     (if bc_eof (br_core s) then Some (False, s)
      else do {
        core \<leftarrow> bcore_readTail (br_core s) (br_readSize s);
        (buf, eof, err, r) \<leftarrow> read_block rd (br_r s) (nat (br_readSize s)) [];
        let core = bcore_commitTail core buf;
        let s = s\<lparr>br_r := r\<rparr>;
        case err of
          Some e \<Rightarrow> Some (False, s\<lparr>br_core := core\<lparr>bc_err := Some e\<rparr>\<rparr>)
        | None \<Rightarrow> if eof then Some (False, s\<lparr>br_core := bcore_finish core\<rparr>)
                  else Some (True, s\<lparr>br_core := core\<rparr>)
      })"

partial_function (option) batchRoller_Next :: "'r reader \<Rightarrow> ('d, 'r) batchRoller \<Rightarrow> (bool \<times> ('d, 'r) batchRoller) option" where
  "batchRoller_Next rd s = do {
     (st, core) \<leftarrow> bcore_next (br_core s);
     let s = s\<lparr>br_core := core\<rparr>;
     case st of
       emitted \<Rightarrow> Some (True, s)
     | coreDone \<Rightarrow> Some (False, s)
     | needMore \<Rightarrow> do {
         (more, s) \<leftarrow> br_fillCore rd s;
         if \<not> more \<and> bc_err (br_core s) \<noteq> None then Some (False, s)
         else batchRoller_Next rd s
       }
   }"

declare batchRoller_Next.simps [code]

text \<open>\<open>for s.Next() { ... }\<close>: the batches seen.\<close>

partial_function (option) br_drain :: "'r reader \<Rightarrow> ('d, 'r) batchRoller \<Rightarrow> (batch list \<times> ('d, 'r) batchRoller) option" where
  "br_drain rd s = do {
     (ok, s) \<leftarrow> batchRoller_Next rd s;
     if ok then do {
       (out, s') \<leftarrow> br_drain rd s;
       Some ((case bcore_current (br_core s) of Some b \<Rightarrow> [b] | None \<Rightarrow> []) @ out, s')
     } else Some ([], s)
   }"

declare br_drain.simps [code]

section \<open>Accessors\<close>

definition batchRoller_Sums :: "('d, 'r) batchRoller \<Rightarrow> u64 list option" where
  [simp]: "batchRoller_Sums x = bcore_Sums (br_core x)"

definition batchRoller_Bytes :: "('d, 'r) batchRoller \<Rightarrow> byte list option" where
  [simp]: "batchRoller_Bytes x = bcore_Bytes (br_core x)"

definition batchRoller_Err :: "('d, 'r) batchRoller \<Rightarrow> gerror option" where
  [simp]: "batchRoller_Err x = bcore_Err (br_core x)"

definition batchRoller_Offset :: "('d, 'r) batchRoller \<Rightarrow> int" where
  [simp]: "batchRoller_Offset x = bcore_Offset (br_core x)"

definition batchRoller_WindowSize :: "('d, 'r) batchRoller \<Rightarrow> int" where
  [simp]: "batchRoller_WindowSize x = bcore_WindowSize (br_core x)"

text \<open>When \<open>Next\<close> returns true there is a batch.\<close>

lemma bcore_next_emitted: "bcore_next c = Some (emitted, c') \<Longrightarrow> bcore_current c' \<noteq> None"
  by (auto simp: bcore_next_def bcore_batch_def bcore_commit_def bcore_current_def Let_def split: if_splits bind_splits)

lemma batchRoller_Next_current:
  assumes "batchRoller_Next rd s = Some y"
  shows "fst y \<longrightarrow> bcore_current (br_core (snd y)) \<noteq> None"
proof (rule batchRoller_Next.raw_induct [OF _ assms, where P = "\<lambda>rd s y. fst y \<longrightarrow> bcore_current (br_core (snd y)) \<noteq> None"])
  fix next_rec :: "'r reader \<Rightarrow> ('d, 'r) batchRoller \<Rightarrow> (bool \<times> ('d, 'r) batchRoller) option" and rd s y
  assume IH: "\<And>rd s y. next_rec rd s = Some y \<Longrightarrow> fst y \<longrightarrow> bcore_current (br_core (snd y)) \<noteq> None"
    and body: "(do {
     (st, core) \<leftarrow> bcore_next (br_core s);
     let s = s\<lparr>br_core := core\<rparr>;
     case st of
       emitted \<Rightarrow> Some (True, s)
     | coreDone \<Rightarrow> Some (False, s)
     | needMore \<Rightarrow> do {
         (more, s) \<leftarrow> br_fillCore rd s;
         if \<not> more \<and> bc_err (br_core s) \<noteq> None then Some (False, s)
         else next_rec rd s
       }
   }) = Some y"
  show "fst y \<longrightarrow> bcore_current (br_core (snd y)) \<noteq> None"
  proof (cases "bcore_next (br_core s)")
    case None
    then show ?thesis using body by simp
  next
    case (Some res)
    obtain st core where st: "bcore_next (br_core s) = Some (st, core)" using Some by (cases res) simp
    show ?thesis
      using body st IH bcore_next_emitted [of "br_core s" core]
      by (cases st; cases y) (auto simp: Let_def split: bind_splits if_splits)
  qed
qed

section \<open>The state of a batch roller\<close>

text \<open>\<open>P\<close> is what was read so far, the rest of the stream \<open>D\<close> is with the reader, and \<open>out\<close> holds the sums
  before position \<open>s\<close>.\<close>

definition roller_state :: "'d hash_iface \<Rightarrow> ('d \<Rightarrow> bool) \<Rightarrow> ('d \<Rightarrow> byte list \<Rightarrow> u64) \<Rightarrow> (nat \<Rightarrow> bool) \<Rightarrow>
    ('r \<Rightarrow> bool) \<Rightarrow> ('r \<Rightarrow> byte list) \<Rightarrow> ('r \<Rightarrow> gerror) \<Rightarrow> (byte list \<Rightarrow> u64) \<Rightarrow> nat \<Rightarrow> int \<Rightarrow> byte list \<Rightarrow> gerror \<Rightarrow>
    batch list \<Rightarrow> byte list \<Rightarrow> nat \<Rightarrow> ('d, 'r) batchRoller \<Rightarrow> bool" where
  "roller_state H dinv S fits rok left ending S0 w b D e out P s c \<longleftrightarrow>
     batch_state H dinv S fits S0 w b P s (br_core c) \<and> batches_at S0 w P 0 out s \<and>
     rok (br_r c) \<and> D = P @ left (br_r c) \<and> ending (br_r c) = e \<and> br_readSize c = b \<and>
     (bc_eof (br_core c) \<longrightarrow> left (br_r c) = [] \<and> e = EOF)"

text \<open>When \<open>Next\<close> returns false: the whole stream was rolled, or the reader failed after some of it.\<close>

definition rolled :: "(byte list \<Rightarrow> u64) \<Rightarrow> nat \<Rightarrow> byte list \<Rightarrow> gerror \<Rightarrow> batch list \<Rightarrow> gerror option \<Rightarrow> bool" where
  "rolled S0 w D e out err \<longleftrightarrow>
     (if e = EOF then err = None \<and> batches_at S0 w D 0 out (length D + 1 - w)
      else err = Some e \<and> (\<exists>s. batches_at S0 w D 0 out s))"

context hash_stream
begin

lemma br_fill_ok:
  assumes st: "roller_state H inv S fits rok left ending S0 w b D e out P s c" and live: "\<not> bc_eof (br_core c)"
  shows "\<exists>more c'. br_fillCore rd c = Some (more, c') \<and> batch_params H inv S fits S0 w b (br_core c') \<and>
    br_readSize c' = b \<and>
    (if more then bc_err (br_core c') = None \<and>
        (\<exists>P'. roller_state H inv S fits rok left ending S0 w b D e out P' s c' \<and> length P < length P')
     else if bc_err (br_core c') = None
     then roller_state H inv S fits rok left ending S0 w b D e out D s c' \<and> bc_eof (br_core c')
     else bc_err (br_core c') = Some e \<and> e \<noteq> EOF \<and> batches_at S0 w D 0 out s)"
proof -
  define core where "core = br_core c"
  define want where "want = nat (br_readSize c)"
  have core: "batch_state H inv S fits S0 w b P s core" "batches_at S0 w P 0 out s" "rok (br_r c)"
      "D = P @ left (br_r c)" "ending (br_r c) = e" "br_readSize c = b"
    using st by (auto simp: roller_state_def core_def)
  have b: "1 \<le> b" using core(1) by (auto simp: batch_state_def batch_params_def)
  have want: "int want = b" using core(6) b by (simp add: want_def)
  obtain got eof err r' where rb: "read_block rd (br_r c) want [] = Some (got, eof, err, r')" "rok r'"
      "left (br_r c) = got @ left r'" "length got \<le> want" "ending r' = e"
    and ends: "if eof then err = None \<and> left r' = [] \<and> e = EOF
     else if err = None then length got = want else left r' = [] \<and> err = Some e \<and> e \<noteq> EOF"
    using read_block_ok [OF core(3), of "[]" want, unfolded append_Nil core(5)] by auto
  have D: "D = (P @ got) @ left r'" using core(4) rb(3) by simp
  define core' where "core' = bcore_feed core got"
  have st': "batch_state H inv S fits S0 w b (P @ got) s core'"
    using feed_batch_state [OF core(1)] live by (simp add: core'_def core_def)
  have par: "batch_params H inv S fits S0 w b core'" "bc_err core' = None" "bc_eof core' = bc_eof core"
    using st' by (simp_all add: batch_state_def) (simp add: core'_def bcore_feed_def)
  have out': "batches_at S0 w (P @ got) 0 out s" by (rule batches_at_mono [OF core(2)])
  have run: "br_fillCore rd c = (case err of
      Some e \<Rightarrow> Some (False, c\<lparr>br_r := r', br_core := core'\<lparr>bc_err := Some e\<rparr>\<rparr>)
    | None \<Rightarrow> if eof then Some (False, c\<lparr>br_r := r', br_core := bcore_finish core'\<rparr>)
              else Some (True, c\<lparr>br_r := r', br_core := core'\<rparr>))"
    using live core(6) b rb(1) unfolding br_fillCore_def core_def [symmetric] want_def [symmetric]
    by (simp add: core'_def bcore_readTail_def bcore_commitTail_def bcore_feed_def Let_def split: option.split)
  consider (eof) "eof" "err = None" "left r' = []" "e = EOF"
    | (full) "\<not> eof" "err = None" "length got = want"
    | (failed) "\<not> eof" "err = Some e" "left r' = []" "e \<noteq> EOF"
    using ends by (cases eof; cases "err = None") auto
  then show ?thesis
  proof cases
    case eof
    define c' where "c' = c\<lparr>br_r := r', br_core := bcore_finish core'\<rparr>"
    have "D = P @ got" using D eof by simp
    then have "roller_state H inv S fits rok left ending S0 w b D e out D s c'"
      using finish_batch_state [OF st'] rb out' eof core(6) by (simp add: roller_state_def c'_def)
    moreover from this have "batch_params H inv S fits S0 w b (br_core c')" "bc_err (br_core c') = None"
      by (simp_all add: roller_state_def batch_state_def)
    ultimately show ?thesis
      using run eof core(6) by (intro exI [of _ False] exI [of _ c']) (simp add: c'_def bcore_finish_def)
  next
    case full
    define c' where "c' = c\<lparr>br_r := r', br_core := core'\<rparr>"
    have "roller_state H inv S fits rok left ending S0 w b D e out (P @ got) s c'"
      using st' rb out' core(6) D live par by (simp add: roller_state_def c'_def core_def)
    moreover have "length P < length (P @ got)" using full want b by simp
    ultimately show ?thesis
      using run full core(6) par by (intro exI [of _ True] exI [of _ c']) (auto simp: c'_def)
  next
    case failed
    define c' where "c' = c\<lparr>br_r := r', br_core := core'\<lparr>bc_err := Some e\<rparr>\<rparr>"
    have "D = P @ got" using D failed by simp
    moreover have "batch_params H inv S fits S0 w b (br_core c')" using par by (simp add: c'_def batch_params_def)
    ultimately show ?thesis
      using run failed core(6) out' by (intro exI [of _ False] exI [of _ c']) (simp add: c'_def)
  qed
qed

lemma batchRoller_Next_ok:
  assumes "roller_state H inv S fits rok left ending S0 w b D e out P s c"
  shows "\<exists>ok c'. batchRoller_Next rd c = Some (ok, c') \<and> batch_params H inv S fits S0 w b (br_core c') \<and>
    br_readSize c' = b \<and>
    (if ok then \<exists>bt P' t. bcore_current (br_core c') = Some bt \<and> s < t \<and> t \<le> length D \<and>
        roller_state H inv S fits rok left ending S0 w b D e (out @ [bt]) P' t c'
     else rolled S0 w D e out (bc_err (br_core c')) \<and> (e = EOF \<longrightarrow> bcore_current (br_core c') = None))"
  using assms
proof (induction "2 * (length D - length P) + (if bc_eof (br_core c) then 0 else 1)" arbitrary: P c rule: less_induct)
  case less
  define core where "core = br_core c"
  have st: "batch_state H inv S fits S0 w b P s core" and out: "batches_at S0 w P 0 out s"
      and D: "D = P @ left (br_r c)" and ends: "bc_eof core \<Longrightarrow> left (br_r c) = [] \<and> e = EOF"
    using less.prems by (auto simp: roller_state_def core_def)
  obtain r t core1 where n: "bcore_next core = Some (r, core1)" "batch_state H inv S fits S0 w b P t core1"
      "bc_eof core1 = bc_eof core" "next_batch S0 w P s core r t core1"
    using batch_next_ok [OF st] by blast
  define c1 where "c1 = c\<lparr>br_core := core1\<rparr>"
  have par1: "batch_params H inv S fits S0 w b core1" "bc_err core1 = None"
    using n(2) by (simp_all add: batch_state_def)
  have size: "br_readSize c1 = b" using less.prems by (simp add: roller_state_def c1_def)
  have keep: "roller_state H inv S fits rok left ending S0 w b D e out' P t c1" if "batches_at S0 w P 0 out' t" for out'
    using less.prems n(2,3) that by (simp add: roller_state_def c1_def core_def)
  show ?case
  proof (cases r)
    case emitted
    then have run: "batchRoller_Next rd c = Some (True, c1)"
      using n(1) by (subst batchRoller_Next.simps) (simp add: core_def c1_def)
    obtain bt where bt: "bcore_current core1 = Some bt" "batch_at S0 w P s bt" "t = s + length (bt_sums bt)" "s < t"
      using n(4) emitted by (auto simp: next_batch_def)
    have "batches_at S0 w P 0 (out @ [bt]) t" using out bt by (auto simp: batches_at_append)
    moreover have "t \<le> length D"
      using n(2) batch_pos_le [of w P t core1] D by (auto simp: batch_state_def batch_params_def)
    ultimately have "\<exists>P' t. s < t \<and> t \<le> length D \<and>
        roller_state H inv S fits rok left ending S0 w b D e (out @ [bt]) P' t c1"
      using bt(4) keep by blast
    then show ?thesis
      using run bt(1) par1 size by (intro exI [of _ True] exI [of _ c1]) (simp add: c1_def)
  next
    case coreDone
    then have d: "bc_eof core" "t = s" "s = length P + 1 - w" "bcore_current core1 = None"
      using n(4) by (simp_all add: next_batch_def)
    then have "D = P" "e = EOF" using D ends by auto
    moreover have "batchRoller_Next rd c = Some (False, c1)"
      using n(1) coreDone by (subst batchRoller_Next.simps) (simp add: core_def c1_def)
    ultimately show ?thesis
      using d out par1 size by (intro exI [of _ False] exI [of _ c1]) (simp add: c1_def rolled_def)
  next
    case needMore
    then have m: "\<not> bc_eof core" "t = s" using n(4) by (simp_all add: next_batch_def)
    have st1: "roller_state H inv S fits rok left ending S0 w b D e out P s c1"
      using keep out m by simp
    have nx: "batchRoller_Next rd c = (case br_fillCore rd c1 of None \<Rightarrow> None | Some (got, c2) \<Rightarrow>
        if \<not> got \<and> bc_err (br_core c2) \<noteq> None then Some (False, c2) else batchRoller_Next rd c2)"
      using n(1) needMore by (subst batchRoller_Next.simps) (simp add: core_def c1_def split: option.split)
    have live1: "\<not> bc_eof (br_core c1)" using m n(3) by (simp add: c1_def)
    obtain got c2 where f: "br_fillCore rd c1 = Some (got, c2)" "batch_params H inv S fits S0 w b (br_core c2)"
        "br_readSize c2 = b"
        "if got then bc_err (br_core c2) = None \<and>
           (\<exists>P'. roller_state H inv S fits rok left ending S0 w b D e out P' s c2 \<and> length P < length P')
         else if bc_err (br_core c2) = None
         then roller_state H inv S fits rok left ending S0 w b D e out D s c2 \<and> bc_eof (br_core c2)
         else bc_err (br_core c2) = Some e \<and> e \<noteq> EOF \<and> batches_at S0 w D 0 out s"
      using br_fill_ok [OF st1 live1] by blast
    have again: ?thesis if run: "batchRoller_Next rd c = batchRoller_Next rd c2"
      and st2: "roller_state H inv S fits rok left ending S0 w b D e out P2 s c2"
      and dec: "2 * (length D - length P2) + (if bc_eof (br_core c2) then 0 else 1) <
        2 * (length D - length P) + (if bc_eof (br_core c) then 0 else 1)" for P2
      using less.hyps [OF dec st2] unfolding run by blast
    consider (more) P' where "got" "bc_err (br_core c2) = None"
        "roller_state H inv S fits rok left ending S0 w b D e out P' s c2" "length P < length P'"
      | (finished) "\<not> got" "bc_err (br_core c2) = None"
        "roller_state H inv S fits rok left ending S0 w b D e out D s c2" "bc_eof (br_core c2)"
      | (failed) "\<not> got" "bc_err (br_core c2) = Some e" "e \<noteq> EOF" "batches_at S0 w D 0 out s"
      using f(4) by (metis (full_types))
    then show ?thesis
    proof cases
      case more
      have "length P' \<le> length D" using more(3) by (auto simp: roller_state_def)
      then have dec: "2 * (length D - length P') + (if bc_eof (br_core c2) then 0 else 1) <
          2 * (length D - length P) + (if bc_eof (br_core c) then 0 else 1)"
        using more(4) m(1) by (simp add: core_def) arith
      have "batchRoller_Next rd c = batchRoller_Next rd c2" using nx f(1) more(1) by simp
      then show ?thesis by (rule again [OF _ more(3) dec])
    next
      case finished
      then have dec: "2 * (length D - length D) + (if bc_eof (br_core c2) then 0 else 1) <
          2 * (length D - length P) + (if bc_eof (br_core c) then 0 else 1)"
        using m(1) by (simp add: core_def)
      have "batchRoller_Next rd c = batchRoller_Next rd c2" using nx f(1) finished by simp
      then show ?thesis by (rule again [OF _ finished(3) dec])
    next
      case failed
      then have "batchRoller_Next rd c = Some (False, c2)" using nx f(1) by simp
      then show ?thesis
        using failed f(2,3) by (intro exI [of _ False] exI [of _ c2]) (auto simp: rolled_def)
    qed
  qed
qed

lemma br_drain_ok:
  assumes "roller_state H inv S fits rok left ending S0 w b D e out P s c"
  shows "\<exists>out' c'. br_drain rd c = Some (out', c') \<and> batch_params H inv S fits S0 w b (br_core c') \<and>
    br_readSize c' = b \<and> rolled S0 w D e (out @ out') (bc_err (br_core c'))"
  using assms
proof (induction "length D - s" arbitrary: out P s c rule: less_induct)
  case less
  obtain ok c1 where n: "batchRoller_Next rd c = Some (ok, c1)" "batch_params H inv S fits S0 w b (br_core c1)"
      "br_readSize c1 = b"
    and r: "if ok then \<exists>bt P' t. bcore_current (br_core c1) = Some bt \<and> s < t \<and> t \<le> length D \<and>
        roller_state H inv S fits rok left ending S0 w b D e (out @ [bt]) P' t c1
     else rolled S0 w D e out (bc_err (br_core c1)) \<and> (e = EOF \<longrightarrow> bcore_current (br_core c1) = None)"
    using batchRoller_Next_ok [OF less.prems] by blast
  show ?case
  proof (cases ok)
    case False
    then have "br_drain rd c = Some ([], c1)" using n(1) by (subst br_drain.simps) simp
    then show ?thesis using r n False by (intro exI [of _ "[]"] exI [of _ c1]) simp
  next
    case True
    then obtain bt P' t where bt: "bcore_current (br_core c1) = Some bt" "s < t" "t \<le> length D"
        "roller_state H inv S fits rok left ending S0 w b D e (out @ [bt]) P' t c1" using r by auto
    have "length D - t < length D - s" using bt by simp
    then obtain out' c' where rec: "br_drain rd c1 = Some (out', c')"
        "batch_params H inv S fits S0 w b (br_core c')" "br_readSize c' = b"
        "rolled S0 w D e ((out @ [bt]) @ out') (bc_err (br_core c'))"
      using less.hyps [OF _ bt(4)] by blast
    have "br_drain rd c = Some (bt # out', c')"
      using n(1) True bt(1) rec(1) by (subst br_drain.simps) simp
    then show ?thesis using rec by (intro exI [of _ "bt # out'"] exI [of _ c']) simp
  qed
qed

text \<open>A new roller, and one that is reset.\<close>

lemma new_roll:
  assumes h: "inv h" "fits w" "1 \<le> w" "int w \<le> b" and r: "rok r"
  shows "\<exists>c out c'. NewBatchRoller r H h (int w) [WithBufferSize b] = Some c \<and> br_drain rd c = Some (out, c') \<and>
    batch_params H inv S fits (S h) w b (br_core c') \<and> br_readSize c' = b \<and>
    rolled (S h) w (left r) (ending r) out (bc_err (br_core c'))"
proof -
  obtain c0 where c0: "newBatchRollerCore H h (int w) defaultBatchRollerBufSize = Some c0"
      "batch_state H inv S fits (S h) w b [] 0 (WithBufferSize b c0)" "bc_eof (WithBufferSize b c0) = False"
    using new_batch_core [OF h] by blast
  define c where "c = \<lparr>br_core = WithBufferSize b c0, br_r = r, br_readSize = b\<rparr>"
  have "bc_batchSize (WithBufferSize b c0) = b" by (simp add: WithBufferSize_def)
  then have new: "NewBatchRoller r H h (int w) [WithBufferSize b] = Some c"
    using c0(1) by (simp add: NewBatchRoller_def c_def)
  have "roller_state H inv S fits rok left ending (S h) w b (left r) (ending r) [] [] 0 c"
    using c0 r by (simp add: roller_state_def c_def)
  from br_drain_ok [OF this] new show ?thesis by auto
qed

lemma reset_roll:
  assumes "batch_params H inv S fits S0 w b (br_core c)" and "br_readSize c = b" and "rok r"
  shows "\<exists>out c'. br_drain rd (batchRoller_Reset c r) = Some (out, c') \<and>
    rolled S0 w (left r) (ending r) out (bc_err (br_core c'))"
proof -
  have "roller_state H inv S fits rok left ending S0 w b (left r) (ending r) [] [] 0 (batchRoller_Reset c r)"
    using reset_batch_state [OF assms(1)] assms(2,3)
    by (simp add: roller_state_def batchRoller_Reset_def) (simp add: bcore_reset_def)
  from br_drain_ok [OF this] show ?thesis by auto
qed

end

end
