(* ===== verification/Chunk_Reader.thy ===== *)
theory Chunk_Reader
  imports Chunk_Writer Readers
begin

text \<open>
  chunker.go, the pull side: \<open>chunker\<close> reads its own bytes from an \<open>io.Reader\<close>, a parameter \<open>rd\<close> of
  the model with its state in the record. The lemmas show that draining it hands out the chunks of
  the specification for the whole stream, for every minimum including the default 0, and what
  happens when the reader fails.
\<close>

section \<open>The chunker\<close>

record ('d, 'r) chunker =
  ch_core :: "'d chunkerCore"
  ch_r :: 'r
  ch_readSize :: int

definition NewChunker :: "'r \<Rightarrow> 'd hash_iface \<Rightarrow> 'd \<Rightarrow> int \<Rightarrow> u64 \<Rightarrow> ('d chunkerCore \<Rightarrow> 'd chunkerCore) list \<Rightarrow>
    ('d, 'r) chunker option" where
  "NewChunker r H h window msk opts = do {
     core \<leftarrow> newChunkerCore H h window msk 0 MaxInt;
     let core = fold (\<lambda>opt c. opt c) opts core;
     Some \<lparr>ch_core = core, ch_r = r, ch_readSize = max (cc_batchSize core) window\<rparr>
   }"

definition chunker_Reset :: "('d, 'r) chunker \<Rightarrow> 'r \<Rightarrow> ('d, 'r) chunker" where
  "chunker_Reset c r = c\<lparr>ch_r := r, ch_core := core_reset (ch_core c)\<rparr>"

definition fillCore :: "'r reader \<Rightarrow> ('d, 'r) chunker \<Rightarrow> (bool \<times> ('d, 'r) chunker) option" where
  "fillCore rd c =
     (if cc_eof (ch_core c) then Some (False, c)
      else do {
        core \<leftarrow> core_readTail (ch_core c) (ch_readSize c);
        (buf, eof, err, r) \<leftarrow> read_block rd (ch_r c) (nat (ch_readSize c)) [];
        let core = core_commitTail core buf;
        let c = c\<lparr>ch_r := r\<rparr>;
        case err of
          Some e \<Rightarrow> Some (False, c\<lparr>ch_core := core\<lparr>cc_err := Some e\<rparr>\<rparr>)
        | None \<Rightarrow> if eof then Some (False, c\<lparr>ch_core := core_finish core\<rparr>)
                  else Some (True, c\<lparr>ch_core := core\<rparr>)
      })"

partial_function (option) chunker_Next :: "'r reader \<Rightarrow> ('d, 'r) chunker \<Rightarrow> (bool \<times> ('d, 'r) chunker) option" where
  "chunker_Next rd c = do {
     (st, core) \<leftarrow> core_next (ch_core c);
     let c = c\<lparr>ch_core := core\<rparr>;
     case st of
       emitted \<Rightarrow> Some (True, c)
     | coreDone \<Rightarrow> Some (False, c)
     | needMore \<Rightarrow> do {
         (filled, c) \<leftarrow> fillCore rd c;
         if \<not> filled \<and> cc_err (ch_core c) \<noteq> None then Some (False, c)
         else chunker_Next rd c
       }
   }"

declare chunker_Next.simps [code]

text \<open>\<open>for c.Next() { ... }\<close>\<close>

partial_function (option) chunker_drain :: "'r reader \<Rightarrow> ('d, 'r) chunker \<Rightarrow> (chunk list \<times> ('d, 'r) chunker) option" where
  "chunker_drain rd c = do {
     (ok, c) \<leftarrow> chunker_Next rd c;
     if ok then do {
       (out, c') \<leftarrow> chunker_drain rd c;
       Some ((case core_chunk (ch_core c) of Some ch \<Rightarrow> [ch] | None \<Rightarrow> []) @ out, c')
     } else Some ([], c)
   }"

declare chunker_drain.simps [code]

section \<open>Accessors\<close>

definition chunker_Bytes :: "('d, 'r) chunker \<Rightarrow> byte list option" where
  [simp]: "chunker_Bytes x = core_Bytes (ch_core x)"

definition chunker_Sum :: "('d, 'r) chunker \<Rightarrow> u64" where
  [simp]: "chunker_Sum x = core_Sum (ch_core x)"

definition chunker_ContentDefined :: "('d, 'r) chunker \<Rightarrow> bool" where
  [simp]: "chunker_ContentDefined x = core_ContentDefined (ch_core x)"

definition chunker_Err :: "('d, 'r) chunker \<Rightarrow> gerror option" where
  [simp]: "chunker_Err x = core_Err (ch_core x)"

definition chunker_Offset :: "('d, 'r) chunker \<Rightarrow> int" where
  [simp]: "chunker_Offset x = core_Offset (ch_core x)"

definition chunker_WindowSize :: "('d, 'r) chunker \<Rightarrow> int" where
  [simp]: "chunker_WindowSize x = core_WindowSize (ch_core x)"

section \<open>The state of a chunker\<close>

text \<open>\<open>P\<close> is what was read so far; the rest of the stream \<open>D\<close> is still with the reader. Before the
  end, the core has read nothing yet or at least one whole batch.\<close>

definition chunker_state :: "'d hash_iface \<Rightarrow> ('d \<Rightarrow> bool) \<Rightarrow> ('d \<Rightarrow> byte list \<Rightarrow> u64) \<Rightarrow> (nat \<Rightarrow> bool) \<Rightarrow>
    ('r \<Rightarrow> bool) \<Rightarrow> ('r \<Rightarrow> byte list) \<Rightarrow> ('r \<Rightarrow> gerror) \<Rightarrow> chunk_spec \<Rightarrow> byte list \<Rightarrow> gerror \<Rightarrow> chunk list \<Rightarrow>
    byte list \<Rightarrow> ('d, 'r) chunker \<Rightarrow> bool" where
  "chunker_state H dinv S fits rok left ending X D e out P c \<longleftrightarrow>
     core_state H dinv S fits X P (ch_core c) \<and> rok (ch_r c) \<and> D = P @ left (ch_r c) \<and> ending (ch_r c) = e \<and>
     ch_readSize c = cc_batchSize (ch_core c) \<and> one_batch P (ch_core c) \<and>
     chunks_so_far X P (cc_eof (ch_core c)) (cc_chunkStart (ch_core c)) out \<and>
     (if cc_eof (ch_core c) then left (ch_r c) = [] \<and> e = EOF
      else P = [] \<or> cc_batchSize (ch_core c) \<le> int (length P))"

lemma one_batch_no_stale: "core_inv X P c \<Longrightarrow> one_batch P c \<Longrightarrow> no_stale X P c"
  using queue_okD(1) [of X P c] by (auto simp: core_inv_def one_batch_def no_stale_def)

text \<open>When the reader fails: the core keeps the error, and the chunks handed out so far are those of
  the specification for every continuation of what was read.\<close>

definition chunker_failed :: "chunk_spec \<Rightarrow> byte list \<Rightarrow> gerror \<Rightarrow> chunk list \<Rightarrow> ('d, 'r) chunker \<Rightarrow> bool" where
  "chunker_failed X D e out c \<longleftrightarrow> e \<noteq> EOF \<and> cc_err (ch_core c) = Some e \<and>
     chunks_so_far X D False (cc_chunkStart (ch_core c)) out"

text \<open>A new chunker, and one that is reset, drained: the chunks of the whole stream, or, when the reader
  fails, those that the specification gives whatever follows, and the error.\<close>

definition drained :: "chunk_spec \<Rightarrow> byte list \<Rightarrow> gerror \<Rightarrow> chunk list \<Rightarrow> gerror option \<Rightarrow> bool" where
  "drained X D e out err \<longleftrightarrow>
     (if e = EOF then out = ref_chunks X D 0 \<and> err = None
      else err = Some e \<and> (\<exists>s. \<forall>Q. out @ ref_chunks X (D @ Q) s = ref_chunks X (D @ Q) 0))"

text \<open>What \<open>Reset\<close> needs to find: the parameters and the hash.\<close>

definition chunker_usable :: "'d hash_iface \<Rightarrow> ('d \<Rightarrow> bool) \<Rightarrow> ('d \<Rightarrow> byte list \<Rightarrow> u64) \<Rightarrow> (nat \<Rightarrow> bool) \<Rightarrow>
    chunk_spec \<Rightarrow> ('d, 'r) chunker \<Rightarrow> bool" where
  "chunker_usable H dinv S fits X c \<longleftrightarrow> params_are X (ch_core c) \<and> hash_ok H dinv S fits X (ch_core c) \<and>
     ch_readSize c = cc_batchSize (ch_core c)"

lemma chunker_state_usable:
  "chunker_state H dinv dS dfits rok left ending X D e out P c \<Longrightarrow> chunker_usable H dinv dS dfits X c"
  by (simp add: chunker_state_def chunker_usable_def core_state_def core_inv_def)

context hash_stream
begin

lemma fill_ok:
  assumes st: "chunker_state H inv S fits rok left ending X D e out P c" and live: "\<not> cc_eof (ch_core c)"
    and pend: "pending_bounds (ch_core c) = []"
    and hashed: "int (length P) \<le> cc_hashedTo (ch_core c) \<or> int (length P) < sp_window X"
    and len: "no_overflow X (cc_batchSize (ch_core c)) (int (length D))"
  shows "\<exists>filled c'. fillCore rd c = Some (filled, c') \<and>
    cc_batchSize (ch_core c') = cc_batchSize (ch_core c) \<and> chunker_usable H inv S fits X c' \<and>
    cc_chunkStart (ch_core c') = cc_chunkStart (ch_core c) \<and>
    (if filled then \<exists>P'. chunker_state H inv S fits rok left ending X D e out P' c' \<and> length P < length P' \<and>
        cc_err (ch_core c') = None
     else if cc_err (ch_core c') = None
     then chunker_state H inv S fits rok left ending X D e out D c' \<and> cc_eof (ch_core c')
     else chunker_failed X D e out c')"
proof -
  define core where "core = ch_core c"
  define want where "want = nat (ch_readSize c)"
  have core: "core_state H inv S fits X P core" "rok (ch_r c)" "D = P @ left (ch_r c)" "ending (ch_r c) = e"
      "ch_readSize c = cc_batchSize core" "chunks_so_far X P False (cc_chunkStart core) out"
      "P = [] \<or> cc_batchSize core \<le> int (length P)"
    using st live by (auto simp: chunker_state_def core_def)
  have inv: "core_inv X P core" using core(1) by (simp add: core_state_def)
  then have par: "1 \<le> sp_window X" "sp_window X \<le> cc_batchSize core" "0 \<le> cc_hashedTo core"
    by (simp_all add: core_inv_def params_are_def spec_ok_def buffer_ok_def)
  have want: "int want = cc_batchSize core" using core(5) par by (simp add: want_def)
  obtain got eof err r' where rb: "read_block rd (ch_r c) want [] = Some (got, eof, err, r')" "rok r'"
      "left (ch_r c) = got @ left r'" "length got \<le> want" "ending r' = e"
    and ends: "if eof then err = None \<and> left r' = [] \<and> e = EOF
     else if err = None then length got = want else left r' = [] \<and> err = Some e \<and> e \<noteq> EOF"
    using read_block_ok [OF core(2), of "[]" want, unfolded append_Nil core(4)] by auto
  have D: "D = (P @ got) @ left r'" using core(3) rb(3) by simp
  have "no_overflow X (cc_batchSize core) (int (length (P @ got)))"
    by (rule no_overflow_mono [OF len [folded core_def]]) (simp add: D)
  then obtain c0 where c0: "core_compact core = Some c0" "core_inv X (P @ got) (core_commitTail c0 got)"
      "feed_frame core (core_commitTail c0 got)" "cc_bounds (core_commitTail c0 got) = []"
      "cc_hashedTo core \<le> cc_hashedTo (core_commitTail c0 got)"
    using compact_feed [OF inv] pend core_def by metis
  define core' where "core' = core_commitTail c0 got"
  note f = feed_frameD [OF c0(3) [folded core'_def]]
  have tail: "core_readTail core (ch_readSize c) = Some c0"
    using c0(1) core(5) par by (simp add: core_readTail_def)
  have st': "core_state H inv S fits X (P @ got) core'"
    using core(1) live c0(2) f by (simp add: core_state_def hash_ok_def core'_def core_def)
  have one: "one_batch (P @ got) core'"
  proof -
    have "int (length P) \<le> cc_hashedTo core"
      using hashed core(7) par by (auto simp: core_def)
    then have "int (length (P @ got)) \<le> cc_hashedTo core' + cc_batchSize core'"
      using c0(5) rb(4) want f(9) by (simp add: core'_def)
    then show ?thesis using c0(4) by (simp add: one_batch_def core'_def)
  qed
  have out': "chunks_so_far X (P @ got) closed (cc_chunkStart core') out" for closed
    using chunks_extend [OF core(6)] f by simp
  have run: "fillCore rd c = (case err of
      Some e \<Rightarrow> Some (False, c\<lparr>ch_r := r', ch_core := core'\<lparr>cc_err := Some e\<rparr>\<rparr>)
    | None \<Rightarrow> if eof then Some (False, c\<lparr>ch_r := r', ch_core := core_finish core'\<rparr>)
              else Some (True, c\<lparr>ch_r := r', ch_core := core'\<rparr>))"
    using live tail rb(1) unfolding fillCore_def core_def [symmetric] want_def [symmetric]
    by (simp add: core'_def Let_def split: option.split)
  consider (eof) "eof" "err = None" "left r' = []" "e = EOF"
    | (full) "\<not> eof" "err = None" "length got = want"
    | (failed) "\<not> eof" "err = Some e" "left r' = []" "e \<noteq> EOF"
    using ends by (cases eof; cases "err = None") auto
  then show ?thesis
  proof cases
    case eof
    define c' where "c' = c\<lparr>ch_r := r', ch_core := core_finish core'\<rparr>"
    have "D = P @ got" using D eof by simp
    then have "chunker_state H inv S fits rok left ending X D e out D c'"
      using st' rb one out' eof core(5) f live
      by (simp add: chunker_state_def c'_def core_finish_def core_state_def one_batch_def core_def)
    moreover from this have "chunker_usable H inv S fits X c'" by (rule chunker_state_usable)
    ultimately show ?thesis
      using run eof f st' by (intro exI [of _ False] exI [of _ c'])
        (simp add: c'_def core_finish_def core_def core_state_def)
  next
    case full
    define c' where "c' = c\<lparr>ch_r := r', ch_core := core'\<rparr>"
    have "chunker_state H inv S fits rok left ending X D e out (P @ got) c'"
      using st' rb one out' core(5) f D live full want
      by (simp add: chunker_state_def c'_def core_def)
    moreover from this have "chunker_usable H inv S fits X c'" by (rule chunker_state_usable)
    moreover have "length P < length (P @ got)" using full want par by simp
    ultimately show ?thesis
      using run full f st' by (intro exI [of _ True] exI [of _ c']) (auto simp: c'_def core_def core_state_def)
  next
    case failed
    define c' where "c' = c\<lparr>ch_r := r', ch_core := core'\<lparr>cc_err := Some e\<rparr>\<rparr>"
    have "D = P @ got" using D failed by simp
    then have "chunker_failed X D e out c'" using out' failed by (simp add: chunker_failed_def c'_def)
    moreover have "chunker_usable H inv S fits X c'"
      using st' f core(5)
      by (simp add: chunker_usable_def c'_def core_state_def core_inv_def params_are_def hash_ok_def)
    ultimately show ?thesis
      using run failed f by (intro exI [of _ False] exI [of _ c']) (simp add: c'_def core_def)
  qed
qed


text \<open>What one call of \<open>Next\<close> gives: a chunk, the end of the stream, or the error of the reader.\<close>

lemma chunker_Next_ok:
  assumes "chunker_state H inv S fits rok left ending X D e out P c"
    and "no_overflow X (cc_batchSize (ch_core c)) (int (length D))"
  shows "\<exists>ok c'. chunker_Next rd c = Some (ok, c') \<and> cc_batchSize (ch_core c') = cc_batchSize (ch_core c) \<and>
    chunker_usable H inv S fits X c' \<and>
    (if ok then \<exists>ch P'. core_chunk (ch_core c') = Some ch \<and>
        chunker_state H inv S fits rok left ending X D e (out @ [ch]) P' c' \<and>
        cc_chunkStart (ch_core c) < cc_chunkStart (ch_core c') \<and> cc_chunkStart (ch_core c') \<le> int (length D)
     else if cc_err (ch_core c') = None
     then e = EOF \<and> out = ref_chunks X D 0 \<and> core_chunk (ch_core c') = None
     else chunker_failed X D e out c')"
  using assms
proof (induction "2 * (length D - length P) + (if cc_eof (ch_core c) then 0 else 1)" arbitrary: P c rule: less_induct)
  case less
  define core where "core = ch_core c"
  have st: "core_state H inv S fits X P core" and one: "one_batch P core"
      and out: "chunks_so_far X P (cc_eof core) (cc_chunkStart core) out"
      and D: "D = P @ left (ch_r c)" and ends: "cc_eof core \<Longrightarrow> left (ch_r c) = [] \<and> e = EOF"
    using less.prems(1) by (auto simp: chunker_state_def core_def)
  have stale: "no_stale X P core"
    using st one one_batch_no_stale by (auto simp: core_state_def)
  obtain s core1 where n: "core_next core = Some (s, core1)" "core_state H inv S fits X P core1"
      "cc_eof core1 = cc_eof core" "cc_batchSize core1 = cc_batchSize core" "next_chunks X P core out s core1"
      "one_batch P core1" "s \<noteq> emitted \<Longrightarrow> chunks_so_far X P (cc_eof core) (cc_chunkStart core1) out"
    using next_step [OF st stale out] one by blast
  define c1 where "c1 = c\<lparr>ch_core := core1\<rparr>"
  have c1: "ch_core c1 = core1" by (simp add: c1_def)
  have keep: "chunker_state H inv S fits rok left ending X D e out' P c1"
    if "chunks_so_far X P (cc_eof core) (cc_chunkStart core1) out'" for out'
    using less.prems(1) n that by (simp add: chunker_state_def c1_def core_def)
  show ?case
  proof (cases s)
    case emitted
    then have "chunker_Next rd c = Some (True, c1)"
      using n(1) by (subst chunker_Next.simps) (simp add: core_def c1_def)
    moreover obtain ch where ch: "core_chunk core1 = Some ch" "cc_chunkStart core < cc_chunkStart core1"
        "cc_chunkStart core1 \<le> int (length P)" "chunks_so_far X P (cc_eof core) (cc_chunkStart core1) (out @ [ch])"
      using n(5) emitted by (auto simp: next_chunks_def)
    moreover have "length P \<le> length D" by (simp add: D)
    ultimately show ?thesis
      using keep [OF ch(4)] chunker_state_usable [OF keep [OF ch(4)]] n(4) c1
      by (intro exI [of _ True] exI [of _ c1]) (auto simp: core_def)
  next
    case coreDone
    then have d: "cc_eof core" "core_chunk core1 = None" "out = ref_chunks X P 0"
      using n(5) by (auto simp: next_chunks_def)
    then have "D = P" "e = EOF" using D ends by auto
    moreover have "chunker_Next rd c = Some (False, c1)"
      using n(1) coreDone by (subst chunker_Next.simps) (simp add: core_def c1_def)
    moreover have "cc_err core1 = None" using n(2) by (simp add: core_state_def)
    ultimately show ?thesis
      using d n(4) c1 chunker_state_usable [OF keep [OF n(7)]] coreDone
      by (intro exI [of _ False] exI [of _ c1]) (simp add: core_def)
  next
    case needMore
    then have m: "\<not> cc_eof core" "pending_bounds core1 = []"
        "int (length P) \<le> cc_hashedTo core1 \<or> int (length P) < sp_window X"
        "core_chunk core1 = core_chunk core"
      using n(5) by (auto simp: next_chunks_def)
    have st1: "chunker_state H inv S fits rok left ending X D e out P c1"
      using keep n(7) needMore by simp
    have len1: "no_overflow X (cc_batchSize (ch_core c1)) (int (length D))"
      using less.prems(2) n(4) by (simp add: c1 core_def)
    have nx: "chunker_Next rd c = (case fillCore rd c1 of None \<Rightarrow> None | Some (got, c2) \<Rightarrow>
        if \<not> got \<and> cc_err (ch_core c2) \<noteq> None then Some (False, c2) else chunker_Next rd c2)"
      using n(1) needMore by (subst chunker_Next.simps) (simp add: core_def c1_def split: option.split)
    obtain got c2 where f: "fillCore rd c1 = Some (got, c2)"
        "cc_batchSize (ch_core c2) = cc_batchSize core"
        "cc_chunkStart (ch_core c2) = cc_chunkStart core1"
        "if got then \<exists>P'. chunker_state H inv S fits rok left ending X D e out P' c2 \<and> length P < length P' \<and>
            cc_err (ch_core c2) = None
         else if cc_err (ch_core c2) = None
         then chunker_state H inv S fits rok left ending X D e out D c2 \<and> cc_eof (ch_core c2)
         else chunker_failed X D e out c2"
      and usable: "chunker_usable H inv S fits X c2"
      using fill_ok [OF st1 _ _ _ len1] m n(3,4) unfolding c1 by auto
    have start: "cc_chunkStart core1 = cc_chunkStart core"
      using n(5) needMore by (simp add: next_chunks_def)
    have again: ?thesis if run: "chunker_Next rd c = chunker_Next rd c2"
      and st2: "chunker_state H inv S fits rok left ending X D e out P2 c2"
      and dec: "2 * (length D - length P2) + (if cc_eof (ch_core c2) then 0 else 1) <
        2 * (length D - length P) + (if cc_eof (ch_core c) then 0 else 1)" for P2
      using less.hyps [OF dec st2] less.prems(2) unfolding run f(2,3) start core_def [symmetric] by blast
    show ?thesis
    proof (cases got)
      case True
      then obtain P' where P': "chunker_state H inv S fits rok left ending X D e out P' c2" "length P < length P'"
          "cc_err (ch_core c2) = None" using f(4) by auto
      have "length P' \<le> length D" using P'(1) by (auto simp: chunker_state_def)
      then have dec: "2 * (length D - length P') + (if cc_eof (ch_core c2) then 0 else 1) <
          2 * (length D - length P) + (if cc_eof (ch_core c) then 0 else 1)"
        using P'(2) m(1) by (simp add: core_def) arith
      have "chunker_Next rd c = chunker_Next rd c2" using nx f(1) True by simp
      then show ?thesis by (rule again [OF _ P'(1) dec])
    next
      case False
      note nogot = False
      show ?thesis
      proof (cases "cc_err (ch_core c2) = None")
        case True
        then have fin: "chunker_state H inv S fits rok left ending X D e out D c2" "cc_eof (ch_core c2)"
          using f(4) nogot by auto
        then have dec: "2 * (length D - length D) + (if cc_eof (ch_core c2) then 0 else 1) <
            2 * (length D - length P) + (if cc_eof (ch_core c) then 0 else 1)"
          using m(1) by (simp add: core_def)
        have "chunker_Next rd c = chunker_Next rd c2" using nx f(1) True by simp
        then show ?thesis by (rule again [OF _ fin(1) dec])
      next
        case err: False
        then have "chunker_failed X D e out c2" using f(4) nogot by auto
        then show ?thesis
          using nx f(1,2) nogot err usable by (intro exI [of _ False] exI [of _ c2]) (auto simp: core_def)
      qed
    qed
  qed
qed

text \<open>Draining it: all the chunks of the stream, or those before the error of the reader.\<close>

lemma chunker_drain_ok:
  assumes "chunker_state H inv S fits rok left ending X D e out P c"
    and "no_overflow X (cc_batchSize (ch_core c)) (int (length D))"
  shows "\<exists>out' c'. chunker_drain rd c = Some (out', c') \<and> chunker_usable H inv S fits X c' \<and>
    cc_batchSize (ch_core c') = cc_batchSize (ch_core c) \<and>
    (if e = EOF then out @ out' = ref_chunks X D 0 \<and> cc_err (ch_core c') = None \<and> core_chunk (ch_core c') = None
     else chunker_failed X D e (out @ out') c')"
  using assms
proof (induction "nat (int (length D) - cc_chunkStart (ch_core c))" arbitrary: out P c rule: less_induct)
  case less
  obtain ok c1 where n: "chunker_Next rd c = Some (ok, c1)" "cc_batchSize (ch_core c1) = cc_batchSize (ch_core c)"
      "chunker_usable H inv S fits X c1"
    and r: "if ok then \<exists>ch P'. core_chunk (ch_core c1) = Some ch \<and>
        chunker_state H inv S fits rok left ending X D e (out @ [ch]) P' c1 \<and>
        cc_chunkStart (ch_core c) < cc_chunkStart (ch_core c1) \<and> cc_chunkStart (ch_core c1) \<le> int (length D)
     else if cc_err (ch_core c1) = None
     then e = EOF \<and> out = ref_chunks X D 0 \<and> core_chunk (ch_core c1) = None
     else chunker_failed X D e out c1"
    using chunker_Next_ok [OF less.prems] by blast
  show ?case
  proof (cases ok)
    case False
    then have "chunker_drain rd c = Some ([], c1)" using n by (subst chunker_drain.simps) simp
    moreover have "if e = EOF then out = ref_chunks X D 0 \<and> cc_err (ch_core c1) = None \<and> core_chunk (ch_core c1) = None
        else chunker_failed X D e out c1"
      using r False by (auto simp: chunker_failed_def split: if_splits)
    ultimately show ?thesis using n(2,3) by (intro exI [of _ "[]"] exI [of _ c1]) simp
  next
    case True
    then obtain ch P' where ch: "core_chunk (ch_core c1) = Some ch"
        "chunker_state H inv S fits rok left ending X D e (out @ [ch]) P' c1"
        "cc_chunkStart (ch_core c) < cc_chunkStart (ch_core c1)" "cc_chunkStart (ch_core c1) \<le> int (length D)"
      using r by auto
    have "nat (int (length D) - cc_chunkStart (ch_core c1)) < nat (int (length D) - cc_chunkStart (ch_core c))"
      using ch(3,4) by simp
    then obtain out' c' where rec: "chunker_drain rd c1 = Some (out', c')"
        "if e = EOF then (out @ [ch]) @ out' = ref_chunks X D 0 \<and> cc_err (ch_core c') = None \<and> core_chunk (ch_core c') = None
         else chunker_failed X D e ((out @ [ch]) @ out') c'"
      and usable: "chunker_usable H inv S fits X c'" "cc_batchSize (ch_core c') = cc_batchSize (ch_core c)"
      using less.hyps [OF _ ch(2)] less.prems(2) n(2) by auto
    have "chunker_drain rd c = Some (ch # out', c')"
      using n(1) True ch(1) rec(1) by (subst chunker_drain.simps) simp
    then show ?thesis
      using rec(2) [unfolded append_assoc append_Cons append_Nil] usable by (intro exI [of _ "ch # out'"] exI [of _ c']) blast
  qed
qed

lemma drainedI:
  "if e = EOF then out = ref_chunks X D 0 \<and> cc_err (ch_core c) = None \<and> core_chunk (ch_core c) = None
   else chunker_failed X D e out c \<Longrightarrow> drained X D e out (cc_err (ch_core c))"
  unfolding drained_def chunker_failed_def chunks_so_far_def by (cases "e = EOF") auto

lemma fresh_drain:
  assumes core: "core_state H inv S fits X [] (ch_core c)" "cc_chunkStart (ch_core c) = 0"
      "cc_eof (ch_core c) = False" "one_batch [] (ch_core c)"
    and r: "rok (ch_r c)" "ch_readSize c = cc_batchSize (ch_core c)"
    and len: "no_overflow X (cc_batchSize (ch_core c)) (int (length (left (ch_r c))))"
  shows "\<exists>out c'. chunker_drain rd c = Some (out, c') \<and> chunker_usable H inv S fits X c' \<and>
    cc_batchSize (ch_core c') = cc_batchSize (ch_core c) \<and>
    drained X (left (ch_r c)) (ending (ch_r c)) out (cc_err (ch_core c'))"
proof -
  have "chunker_state H inv S fits rok left ending X (left (ch_r c)) (ending (ch_r c)) [] [] c"
    using core r by (simp add: chunker_state_def chunks_start)
  from chunker_drain_ok [OF this len] show ?thesis
    unfolding append_Nil using drainedI by blast
qed

lemma new_drain:
  assumes h: "inv h" and X: "X = \<lparr>sp_sum = S h, sp_window = window, sp_mask = msk, sp_min = mn, sp_max = mx\<rparr>"
    and ok: "spec_ok X b" and fits: "fits (nat window)" and r: "rok r"
    and len: "no_overflow X b (int (length (left r)))"
  shows "\<exists>c out c'. NewChunker r H h window msk [WithBoundaries mn mx, WithBatchSize b] = Some c \<and>
    chunker_drain rd c = Some (out, c') \<and> chunker_usable H inv S fits X c' \<and>
    cc_batchSize (ch_core c') = b \<and> drained X (left r) (ending r) out (cc_err (ch_core c'))"
proof -
  have w: "1 \<le> window" "window \<le> b" using ok by (simp_all add: spec_ok_def X)
  obtain brd where "h_BatchBoundaries H = Some brd" using has_boundaries [OF h fits] w by auto
  then obtain c0 where c0: "newChunkerCore H h window msk 0 MaxInt = Some c0"
    by (simp add: newChunkerCore_def)
  define core where "core = WithBatchSize b (WithBoundaries mn mx c0)"
  have len0: "no_overflow X b 0" by (rule no_overflow_mono [OF len]) simp
  note n = new_core_state [OF h X ok len0 fits c0 core_def]
  define c where "c = \<lparr>ch_core = core, ch_r = r, ch_readSize = b\<rparr>"
  have "NewChunker r H h window msk [WithBoundaries mn mx, WithBatchSize b] = Some c"
    using c0 n(4) w by (auto simp: NewChunker_def c_def core_def max_def Let_def)
  moreover have "\<exists>out c'. chunker_drain rd c = Some (out, c') \<and> chunker_usable H inv S fits X c' \<and>
      cc_batchSize (ch_core c') = cc_batchSize (ch_core c) \<and>
      drained X (left (ch_r c)) (ending (ch_r c)) out (cc_err (ch_core c'))"
    by (rule fresh_drain) (use n r len in \<open>simp_all add: c_def\<close>)
  ultimately show ?thesis using n(4) by (simp add: c_def)
qed

lemma reset_drain:
  assumes u: "chunker_usable H inv S fits X c" and r: "rok r"
    and len: "no_overflow X (cc_batchSize (ch_core c)) (int (length (left r)))"
  shows "\<exists>out c'. chunker_drain rd (chunker_Reset c r) = Some (out, c') \<and> chunker_usable H inv S fits X c' \<and>
    cc_batchSize (ch_core c') = cc_batchSize (ch_core c) \<and>
    drained X (left r) (ending r) out (cc_err (ch_core c'))"
proof -
  define c1 where "c1 = chunker_Reset c r"
  have p: "params_are X (ch_core c)" "hash_ok H inv S fits X (ch_core c)" using u by (simp_all add: chunker_usable_def)
  have len0: "no_overflow X (cc_batchSize (ch_core c)) 0" by (rule no_overflow_mono [OF len]) simp
  note n = reset_state [OF p len0]
  have c1: "ch_core c1 = core_reset (ch_core c)" "ch_r c1 = r" "ch_readSize c1 = cc_batchSize (ch_core c)"
    using u by (simp_all add: c1_def chunker_Reset_def chunker_usable_def)
  have "\<exists>out c'. chunker_drain rd c1 = Some (out, c') \<and> chunker_usable H inv S fits X c' \<and>
      cc_batchSize (ch_core c') = cc_batchSize (ch_core c1) \<and>
      drained X (left (ch_r c1)) (ending (ch_r c1)) out (cc_err (ch_core c'))"
    by (rule fresh_drain) (use n r len in \<open>simp_all add: c1\<close>)
  then show ?thesis using n(4) by (simp add: c1 c1_def [symmetric])
qed

end

end
