(* ===== verification/Bozo32.thy ===== *)
theory Bozo32
  imports Hash_Iface
begin

text \<open>
  bozo32/bozo32.go: a checksum with one multiplier \<open>a\<close>, \<open>value = sum of byte * a^position\<close> modulo
  \<open>2^32\<close>. \<open>bozo32\<close> is the struct \<open>Bozo32\<close>; \<open>bz32_an\<close> is the field for the power of \<open>a\<close>
  that weighs the leaving byte. All arithmetic is \<open>uint32\<close> and wraps.
\<close>

section \<open>The digest\<close>

record bozo32 =
  bz32_a :: u32
  bz32_an :: u32
  bz32_value :: u32
  bz32_window :: "byte list"
  bz32_oldest :: nat

definition bozo32_Reset :: "bozo32 \<Rightarrow> bozo32" where
  "bozo32_Reset d = d\<lparr>bz32_value := 0, bz32_an := 1, bz32_oldest := 0, bz32_window := []\<rparr>"

definition bozo32_NewFromInt :: "u32 \<Rightarrow> bozo32" where
  "bozo32_NewFromInt a =
     \<lparr>bz32_a = a, bz32_an = 1, bz32_value = 0, bz32_window = [], bz32_oldest = 0\<rparr>"

definition bozo32_New :: bozo32 where
  "bozo32_New = bozo32_NewFromInt 65521"

text \<open>The loop of \<open>Write\<close> over the window: value and power of \<open>a\<close> together.\<close>

definition bozo32_absorb :: "u32 \<Rightarrow> u32 \<Rightarrow> byte \<Rightarrow> u32" where
  "bozo32_absorb a value c = value * a + ucast c"

definition bozo32_scan :: "u32 \<Rightarrow> byte list \<Rightarrow> u32 \<times> u32 \<Rightarrow> u32 \<times> u32" where
  "bozo32_scan a window = fold (\<lambda>c (value, an). (bozo32_absorb a value c, an * a)) window"

definition bozo32_Write :: "bozo32 \<Rightarrow> byte list \<Rightarrow> bozo32 option" where
  "bozo32_Write d data =
     (if length data = 0 then Some d
      else do {
        window \<leftarrow> (if bz32_oldest d \<noteq> 0 then MoveLeft (bz32_window d) (bz32_oldest d)
                   else Some (bz32_window d));
        let window = window @ data;
        let (value, an) = bozo32_scan (bz32_a d) window (0, 1);
        Some (d\<lparr>bz32_window := window, bz32_oldest := 0, bz32_value := value, bz32_an := an\<rparr>)
      })"

definition bozo32_Sum32 :: "bozo32 \<Rightarrow> u32" where
  "bozo32_Sum32 d = bz32_value d"

text \<open>The bytes that \<open>Sum\<close> appends, most significant first.\<close>

definition bozo32_Sum :: "bozo32 \<Rightarrow> byte list \<Rightarrow> byte list" where
  "bozo32_Sum d b =
     (let v = bozo32_Sum32 d in
      b @ [ucast (drop_bit 24 v), ucast (drop_bit 16 v), ucast (drop_bit 8 v), ucast v])"

definition bozo32_Size :: "bozo32 \<Rightarrow> int" where
  "bozo32_Size d = 4"

definition bozo32_BlockSize :: "bozo32 \<Rightarrow> int" where
  "bozo32_BlockSize d = 1"

lemma bozo32_Sum_bytes: "bozo32_Sum d b = b @ be_bytes (bozo32_Size d) (ucast (bozo32_Sum32 d))"
  by (simp add: bozo32_Sum_def bozo32_Size_def be_bytes_32 Let_def)

text \<open>The rolling step: \<open>value*a + enter - leave*an\<close>.\<close>

definition bozo32_roll_step :: "u32 \<Rightarrow> u32 \<Rightarrow> u32 \<Rightarrow> byte \<Rightarrow> byte \<Rightarrow> u32" where
  "bozo32_roll_step a an value leave enter = value * a + ucast enter - ucast leave * an"

definition bozo32_Roll :: "bozo32 \<Rightarrow> byte \<Rightarrow> bozo32 option" where
  "bozo32_Roll d c = do {
     leave \<leftarrow> idx (bz32_window d) (bz32_oldest d);
     let window = (bz32_window d)[bz32_oldest d := c];
     let oldest = bz32_oldest d + 1;
     let oldest = (if length window \<le> oldest then 0 else oldest);
     Some (d\<lparr>bz32_window := window, bz32_oldest := oldest,
              bz32_value := bozo32_roll_step (bz32_a d) (bz32_an d) (bz32_value d) leave c\<rparr>)
   }"

definition bozo32_WriteWindow :: "'w writer \<Rightarrow> 'w \<Rightarrow> bozo32 \<Rightarrow> (int \<times> gerror option \<times> 'w) option" where
  "bozo32_WriteWindow wr w d = window_Write wr w (bz32_window d) (bz32_oldest d)"

text \<open>\<open>for range window { an *= a }\<close>\<close>

primrec bozo32_power :: "u32 \<Rightarrow> nat \<Rightarrow> u32" where
  "bozo32_power a 0 = 1"
| "bozo32_power a (Suc n) = bozo32_power a n * a"

text \<open>A lane over \<open>data\<close> with window \<open>w\<close>: \<open>v = v*a + data[i+w] - data[i]*an\<close>.\<close>

definition bozo32_lane :: "u32 \<Rightarrow> nat \<Rightarrow> byte list \<Rightarrow> u32 lane" where
  "bozo32_lane a w data =
     \<lparr>ln_step = bozo32_roll_step a (bozo32_power a w), ln_out = ucast,
      ln_leave = (\<lambda>i. idx data i), ln_enter = (\<lambda>i. idx data (i + w))\<rparr>"

definition bozo32_BatchRoll :: "bozo32 \<Rightarrow> u64 list \<Rightarrow> byte list \<Rightarrow> int \<Rightarrow> u64 list option" where
  "bozo32_BatchRoll d dst data window =
     (if window \<le> 0 \<or> int (length data) < window then Some dst
      else
        let w = nat window; a = bz32_a d; n = length data - w
        in roll_lanes (bozo32_lane a w data)
             (\<lambda>off. warm_from (bozo32_absorb a) data off 0 w 0) n dst)"

definition bozo32_BatchBoundaries :: "bozo32 \<Rightarrow> i32 list \<Rightarrow> i32 list \<Rightarrow> byte list \<Rightarrow> int \<Rightarrow> u64 \<Rightarrow>
    (i32 list \<times> i32 list \<times> nat \<times> nat) option" where
  "bozo32_BatchBoundaries d a b data window msk =
     (if window \<le> 0 \<or> int (length data) < window then Some (a, b, 0, 0)
      else
        let w = nat window; mul = bz32_a d; n = length data - w
        in hit_lanes (bozo32_lane mul w data)
             (\<lambda>off. warm_from (bozo32_absorb mul) data off 0 w 0) n msk a b)"

section \<open>The rolling law\<close>

text \<open>The checksum of a window: the Horner value of its bytes.\<close>

definition bozo32_hash :: "u32 \<Rightarrow> byte list \<Rightarrow> u32" where
  "bozo32_hash a xs = foldl (bozo32_absorb a) 0 xs"

lemma bozo32_absorb_shift:
  "foldl (bozo32_absorb a) v xs = v * a ^ length xs + foldl (bozo32_absorb a) 0 xs"
proof (induction xs rule: rev_induct)
  case Nil
  then show ?case by simp
next
  case (snoc x xs)
  then show ?case by (simp add: bozo32_absorb_def algebra_simps)
qed

lemma bozo32_power_pow: "bozo32_power a n = a ^ n"
  by (induction n) (simp_all add: mult.commute)

interpretation bozo32: rolling_hash 0 "bozo32_absorb a" "\<lambda>w. bozo32_roll_step a (a ^ w)" for a
proof
  fix xs x y
  have "foldl (bozo32_absorb a) 0 (x # xs) = ucast x * a ^ length xs + foldl (bozo32_absorb a) 0 xs"
    using bozo32_absorb_shift [of a "ucast x" xs] by (simp add: bozo32_absorb_def)
  then show "bozo32_roll_step a (a ^ Suc (length xs)) (foldl (bozo32_absorb a) 0 (x # xs)) x y =
      foldl (bozo32_absorb a) 0 (xs @ [y])"
    by (simp add: bozo32_roll_step_def bozo32_absorb_def algebra_simps)
qed

section \<open>The digest is a rolling hash of its window\<close>

definition bozo32_window :: "bozo32 \<Rightarrow> byte list" where
  "bozo32_window d = contents (bz32_window d) (bz32_oldest d)"

definition bozo32_inv :: "bozo32 \<Rightarrow> bool" where
  "bozo32_inv d \<longleftrightarrow>
     circ_ok (bz32_window d) (bz32_oldest d) \<and>
     bz32_value d = bozo32_hash (bz32_a d) (bozo32_window d) \<and>
     bz32_an d = bz32_a d ^ length (bz32_window d)"

lemma bozo32_scan_eq:
  "bozo32_scan a xs (v, p) = (foldl (bozo32_absorb a) v xs, p * a ^ length xs)"
  by (induction xs arbitrary: v p) (simp_all add: bozo32_scan_def algebra_simps)

lemma bozo32_New_inv: "bozo32_inv (bozo32_NewFromInt a)" "bozo32_window (bozo32_NewFromInt a) = []"
  by (simp_all add: bozo32_inv_def bozo32_window_def bozo32_NewFromInt_def bozo32_hash_def)

lemma bozo32_Write_ok:
  assumes "bozo32_inv d"
  shows "\<exists>d'. bozo32_Write d xs = Some d' \<and> bozo32_inv d' \<and>
    bozo32_window d' = bozo32_window d @ xs \<and> bz32_a d' = bz32_a d"
proof (cases "xs = []")
  case True
  then show ?thesis using assms by (simp add: bozo32_Write_def)
next
  case False
  have le: "bz32_oldest d \<le> length (bz32_window d)"
    using assms by (simp add: bozo32_inv_def circ_ok_le)
  show ?thesis
    using False le
    by (simp add: bozo32_Write_def MoveLeft_contents bozo32_scan_eq bozo32_inv_def
        bozo32_window_def bozo32_hash_def)
qed

lemma bozo32_Roll_ok:
  assumes inv: "bozo32_inv d" and win: "bozo32_window d = x # ys"
  shows "\<exists>d'. bozo32_Roll d c = Some d' \<and> bozo32_inv d' \<and>
    bozo32_window d' = ys @ [c] \<and> bz32_a d' = bz32_a d"
proof -
  have ok: "circ_ok (bz32_window d) (bz32_oldest d)" and ne: "bz32_window d \<noteq> []"
    using inv win by (auto simp: bozo32_inv_def bozo32_window_def)
  obtain w' o' where p: "circ_push (bz32_window d) (bz32_oldest d) c = (w', o')"
    by fastforce
  note law = bozo32.roll_contents [OF ok ne p, of "bz32_a d"]
  show ?thesis
    using inv win p law contents_push [OF ok ne p] circ_push_ok [OF ok p] length_circ_push [OF p] ok ne
    by (auto simp: bozo32_Roll_def bozo32_inv_def bozo32_window_def bozo32_hash_def
        circ_push_def circ_ok_def idx_def Let_def)
qed

lemma bozo32_Roll_empty: "bozo32_inv d \<Longrightarrow> bozo32_window d = [] \<Longrightarrow> bozo32_Roll d c = None"
  by (simp add: bozo32_Roll_def bozo32_window_def idx_def)

lemma bozo32_lane_step: "ln_step (bozo32_lane a w data) = bozo32_roll_step a (a ^ w)"
  by (simp add: bozo32_lane_def bozo32_power_pow)

lemma bozo32_lane_out [simp]: "ln_out (bozo32_lane a w data) = ucast"
  by (simp add: bozo32_lane_def)

lemma bozo32_lane_reads:
  assumes "n + w = length data" and "i < n"
  shows "ln_leave (bozo32_lane a w data) i = Some (data ! i)"
    and "ln_enter (bozo32_lane a w data) i = Some (data ! (i + w))"
  using assms by (auto simp: bozo32_lane_def idx_def)

definition bozo32_iface :: "bozo32 hash_iface" where
  "bozo32_iface = \<lparr>h_Reset = (\<lambda>d. Some (bozo32_Reset d)), h_Write = bozo32_Write, h_Roll = bozo32_Roll,
     h_Sum = bozo32_Sum, h_Size = bozo32_Size, h_BlockSize = bozo32_BlockSize, h_Sum32 = Some bozo32_Sum32, h_Sum64 = None,
     h_BatchRoll = Some bozo32_BatchRoll, h_BatchBoundaries = Some bozo32_BatchBoundaries\<rparr>"

interpretation bozo32_digest: digest bozo32_iface bozo32_inv bozo32_window
    "\<lambda>d xs. ucast (bozo32_hash (bz32_a d) xs)" "\<lambda>_. True"
proof
  fix d xs x ys c w n data dst a b msk b'
  assume inv: "bozo32_inv d"
  show sum: "core_sum bozo32_iface d = ucast (bozo32_hash (bz32_a d) (bozo32_window d))"
    using inv by (simp add: core_sum_def bozo32_iface_def bozo32_Sum32_def bozo32_inv_def)
  show "\<exists>bs. h_Sum bozo32_iface d b' = b' @ bs \<and> int (length bs) = h_Size bozo32_iface d \<and> be_value bs = ucast (bozo32_hash (bz32_a d) (bozo32_window d))"
    using sum by (simp add: core_sum_def bozo32_iface_def bozo32_Sum_def bozo32_Size_def be_value_32 Let_def)
  show "\<exists>d'. h_Reset bozo32_iface d = Some d' \<and> bozo32_inv d' \<and> bozo32_window d' = [] \<and>
      (\<lambda>xs. ucast (bozo32_hash (bz32_a d') xs)) =
      (\<lambda>xs. ucast (bozo32_hash (bz32_a d) xs) :: u64)"
    by (simp add: bozo32_iface_def bozo32_Reset_def bozo32_inv_def bozo32_window_def bozo32_hash_def)
  show "\<exists>d'. h_Write bozo32_iface d xs = Some d' \<and> bozo32_inv d' \<and>
      bozo32_window d' = bozo32_window d @ xs \<and>
      (\<lambda>xs. ucast (bozo32_hash (bz32_a d') xs) :: u64) = (\<lambda>xs. ucast (bozo32_hash (bz32_a d) xs))"
    using bozo32_Write_ok [OF inv, of xs] by (auto simp: bozo32_iface_def)
  show "\<exists>d'. h_Roll bozo32_iface d c = Some d' \<and> bozo32_inv d' \<and> bozo32_window d' = ys @ [c] \<and>
      (\<lambda>xs. ucast (bozo32_hash (bz32_a d') xs) :: u64) = (\<lambda>xs. ucast (bozo32_hash (bz32_a d) xs))"
    if "bozo32_window d = x # ys"
    using bozo32_Roll_ok [OF inv that, of c] by (auto simp: bozo32_iface_def)
  show "h_Roll bozo32_iface d c = None" if "bozo32_window d = []"
    using bozo32_Roll_empty [OF inv that] by (simp add: bozo32_iface_def)
  show "\<exists>br. h_BatchRoll bozo32_iface = Some br \<and> br d dst data (int w) =
      Some (map (\<lambda>i. ucast (bozo32_hash (bz32_a d) (window_at w data i))) [0..<Suc n] @ drop (Suc n) dst)"
    if w: "0 < w" "n + w = length data" and dst: "n < length dst"
    using bozo32.roll_lanes_window [OF w bozo32_lane_step [of "bz32_a d"] bozo32_lane_reads [OF w(2)]
        warm_from_window dst] w
    by (auto simp: bozo32_iface_def bozo32_BatchRoll_def Let_def bozo32_hash_def nat_eq_diff [OF w(2)] simp del: upt_Suc)
  show "\<exists>brd. h_BatchBoundaries bozo32_iface = Some brd \<and> boundaries_are msk (\<lambda>p. ucast (bozo32_hash (bz32_a d) (window_at w data p))) n a b
      (brd d a b data (int w) msk)"
    if w: "0 < w" "n + w = length data" and ab: "n < length a" "n < length b"
    using bozo32.hit_lanes_window [OF w bozo32_lane_step [of "bz32_a d"] bozo32_lane_reads [OF w(2)]
        warm_from_window ab, of msk] w
    by (auto simp: bozo32_iface_def bozo32_BatchBoundaries_def Let_def bozo32_hash_def nat_eq_diff [OF w(2)] simp del: upt_Suc)
qed

section \<open>Properties\<close>

lemma bozo32_core_sum: "core_sum bozo32_iface d = ucast (bozo32_Sum32 d)"
  by (simp add: core_sum_def bozo32_iface_def)

lemma bozo32_WriteWindow_ok:
  "bozo32_inv d \<Longrightarrow> bozo32_WriteWindow buffer_Write buf d =
     Some (int (length (bozo32_window d)), None, buf @ bozo32_window d)"
  by (simp add: bozo32_WriteWindow_def bozo32_inv_def bozo32_window_def window_Write_buffer)

text \<open>C15: Any sequence of calls of \<open>Reset\<close>, \<open>Write\<close> and \<open>Roll\<close> on a new hash of bozo32 panics exactly when it
  rolls on an empty window, and otherwise leaves the checksum of the bytes that the calls leave in the
  window, oldest byte first; \<open>WriteWindow\<close> writes exactly these bytes. \<open>Sum\<close> appends its \<open>Size\<close>
  bytes, most significant first.\<close>

theorem bozo32_run:
  "case window_ops ops [] of
     None \<Rightarrow> run_ops bozo32_iface ops (bozo32_NewFromInt a) = None
   | Some w \<Rightarrow> \<exists>d. run_ops bozo32_iface ops (bozo32_NewFromInt a) = Some d \<and> bozo32_Sum32 d = bozo32_hash a w \<and>
       bozo32_Sum d pre = pre @ be_bytes (bozo32_Size d) (ucast (bozo32_hash a w)) \<and>
       bozo32_WriteWindow buffer_Write buf d = Some (int (length w), None, buf @ w)"
proof -
  define d0 where "d0 = bozo32_NewFromInt a"
  have d0: "bozo32_inv d0" "bozo32_window d0 = []" by (simp_all add: d0_def bozo32_New_inv)
  show ?thesis
    using bozo32_digest.run_ops_result [OF d0, of ops] bozo32_WriteWindow_ok
    by (fastforce simp: bozo32_core_sum bozo32_Sum_bytes d0_def bozo32_NewFromInt_def split: option.splits)
qed

text \<open>C25: \<open>BatchRoll\<close> of bozo32 stores the checksum of every window of the data, in order, and nothing else;
  \<open>BatchBoundaries\<close> reports exactly the windows whose checksum has no bit of the mask, in ascending
  order over its two buffers. No index leaves its slice.\<close>

theorem bozo32_batch:
  assumes "bozo32_inv d" and "0 < w" and "n + w = length data"
    and "n < length dst" and "n < length a" and "n < length b"
  shows "bozo32_BatchRoll d dst data (int w) =
      Some (map (\<lambda>i. ucast (bozo32_hash (bz32_a d) (window_at w data i))) [0..<Suc n] @ drop (Suc n) dst) \<and>
    boundaries_are msk (\<lambda>i. ucast (bozo32_hash (bz32_a d) (window_at w data i))) n a b
      (bozo32_BatchBoundaries d a b data (int w) msk)"
  using bozo32_digest.batch_roll [OF assms(1) TrueI assms(2,3,4)]
    bozo32_digest.boundaries [OF assms(1) TrueI assms(2,3,5,6), of msk]
  by (simp add: bozo32_iface_def del: upt_Suc)

theorem bozo32_batch_witness:
  "bozo32_BatchRoll (bozo32_NewFromInt 3) [0, 0, 0] [1, 2, 3, 4] 2 =
     Some (map (\<lambda>i. ucast (bozo32_hash (bz32_a (bozo32_NewFromInt 3)) (window_at 2 [1, 2, 3, 4] i))) [0..<Suc 2])"
  using bozo32_batch [of "bozo32_NewFromInt 3" 2 2 "[1, 2, 3, 4]" "[0, 0, 0]" "[0, 0, 0]" "[0, 0, 0]"]
  by (simp add: bozo32_New_inv)

end
