(* ===== verification/Chunking.thy ===== *)
theory Chunking
  imports Chunk_Reader Bozo32
begin

text \<open>
  The chunkers end to end: chunker.go and chunkwriter.go over any hash package and any reader. The
  theorems compare what a client gets from \<open>Next\<close> with \<open>ref_chunks\<close>, for every sequence of calls
  and every way the reader cuts the stream. \<open>digest\<close> is the contract that each hash package is proved
  to keep, \<open>byte_source\<close> the contract of \<open>io.Reader\<close>.
\<close>

interpretation bozo32_cycle: hash_stream bozo32_iface bozo32_inv bozo32_window
    "\<lambda>d xs. ucast (bozo32_hash (bz32_a d) xs)" "\<lambda>_. True"
    cycleReader_Read "\<lambda>r. cy_data r \<noteq> []" cycle_left "\<lambda>_. EOF" "\<lambda>_. 0"
  by (intro hash_stream.intro bozo32_digest.digest_axioms cycle.byte_source_axioms)

section \<open>The chunks of the specification\<close>

text \<open>What a caller relies on: the chunks are consecutive, none is empty or longer than the maximum, one
  that is cut by its content is at least as long as the minimum and its last window satisfies the mask,
  and any other chunk but the last has the maximal length. The sum is the checksum of the window that ends
  at the last byte of the chunk, if the stream has a whole window up to there, and 0 otherwise.\<close>

definition good_chunk :: "chunk_spec \<Rightarrow> byte list \<Rightarrow> chunk \<Rightarrow> bool" where
  "good_chunk X P ch \<longleftrightarrow>
     (let s = ch_offset ch; n = int (length (ch_bytes ch)); e = s + n - 1 in
      0 \<le> s \<and> 1 \<le> n \<and> n \<le> sp_max X \<and> s + n \<le> int (length P) \<and>
      ch_bytes ch = take (nat n) (drop (nat s) P) \<and>
      ch_sum ch = (if e + 1 < sp_window X then 0
        else sp_sum X (take (nat (sp_window X)) (drop (nat (e + 1 - sp_window X)) P))) \<and>
      (if ch_contentDefined ch then sp_min X \<le> n \<and> hit X P e
       else n = sp_max X \<or> e = int (length P) - 1) \<and>
      (\<forall>i \<in> {first_cut X s ..< e}. \<not> hit X P i))"

lemma sum_at_window:
  "sum_at X P e = (if e + 1 < sp_window X then 0
     else sp_sum X (take (nat (sp_window X)) (drop (nat (e + 1 - sp_window X)) P)))"
proof -
  have shift: "e - sp_window X + 1 = e + 1 - sp_window X" by simp
  show ?thesis unfolding sum_at_def window_at_def shift by auto
qed

lemma good_cut_chunk:
  assumes cut: "ref_cut X P s = (e, cd)" and s: "0 \<le> s" "s < int (length P)" and mx: "1 \<le> sp_max X"
  shows "good_chunk X P (cut_chunk X P s e cd)"
proof -
  note b = ref_cut_bounds [OF cut s(2) mx]
  have len: "int (length (ch_bytes (cut_chunk X P s e cd))) = e - s + 1"
    using b s by (simp add: cut_chunk_def)
  have "(if cd then hit X P e \<and> first_cut X s \<le> e else e = min (int (length P)) (s + sp_max X) - 1) \<and>
      (\<forall>i \<in> {first_cut X s ..< e}. \<not> hit X P i)"
    by (cases rule: ref_cut_cases [where X = X and P = P and s = s]) (use cut b in auto)
  then show ?thesis
    using b s len unfolding good_chunk_def sum_at_window [symmetric] by (auto simp: Let_def cut_chunk_def first_cut_def split: if_splits)
qed

lemma ref_chunks_good:
  "0 \<le> s \<Longrightarrow> 1 \<le> sp_max X \<Longrightarrow> ch \<in> set (ref_chunks X P s) \<Longrightarrow> good_chunk X P ch"
proof (induction X P s rule: ref_chunks.induct)
  case (1 X P s)
  show ?case
  proof (cases "s < int (length P)")
    case False
    then show ?thesis using 1(4) by (simp add: ref_chunks_end)
  next
    case True
    obtain e cd where c: "ref_cut X P s = (e, cd)" by fastforce
    note b = ref_cut_bounds [OF c True 1(3)]
    have "ch = cut_chunk X P s e cd \<or> ch \<in> set (ref_chunks X P (e + 1))"
      using 1(4) ref_chunks_step [OF c True 1(3)] by simp
    then show ?thesis
      using 1(1) [of "(e, cd)" e cd] c True 1(2,3) b good_cut_chunk [OF c 1(2) True 1(3)] by auto
  qed
qed

section \<open>Properties\<close>

text \<open>C1: The push side is a function of the bytes, not of the calls. For every hash that keeps the contract
  of the packages, every parameters in range with a minimum of at least 1, and every sequence of
  \<open>Write\<close>, \<open>Next\<close> and \<open>Close\<close> that closes the writer, the chunks handed out during the calls and
  by the loop over \<open>Next\<close> after them are those of the specification for the bytes written, and the
  loop ends.\<close>

theorem ChunkWriter_stream:
  assumes "digest H dinv win S fits" and "dinv h" and "fits (nat window)"
    and "X = \<lparr>sp_sum = S h, sp_window = window, sp_mask = msk, sp_min = mn, sp_max = mx\<rparr>"
    and "spec_ok X b" and "1 \<le> mn" and "PushClose \<in> set ops"
    and "no_overflow X b (int (length (push_bytes ops)))"
  shows "\<exists>w out w1 out' w2. NewChunkWriter H h window msk [WithBoundaries mn mx, WithBatchSize b] = Some w \<and>
    cw_run ops w = Some (out, w1) \<and> cw_drain w1 = Some (out', w2) \<and>
    out @ out' = ref_chunks X (push_bytes ops) 0 \<and> core_chunk (cw_core w2) = None"
  by (rule digest.new_writer [OF assms(1,2,4-6,3,7,8)])

definition bozo32_spec :: "chunk_spec" where
  "bozo32_spec = \<lparr>sp_sum = (\<lambda>xs. ucast (bozo32_hash 1 xs)), sp_window = 1, sp_mask = 0xff, sp_min = 1, sp_max = 3\<rparr>"

lemma bozo32_spec_start: "bz32_a (bozo32_NewFromInt 1) = 1"
  by (simp add: bozo32_NewFromInt_def)

theorem ChunkWriter_stream_witness:
  "\<exists>w out w1 out' w2. NewChunkWriter bozo32_iface (bozo32_NewFromInt 1) 1 0xff [WithBoundaries 1 3, WithBatchSize 2] = Some w \<and>
    cw_run [PushWrite [0, 1, 0], PushNext, PushWrite [1], PushClose] w = Some (out, w1) \<and> cw_drain w1 = Some (out', w2) \<and>
    out @ out' = ref_chunks bozo32_spec [0, 1, 0, 1] 0 \<and> core_chunk (cw_core w2) = None"
  using ChunkWriter_stream [OF bozo32_digest.digest_axioms bozo32_New_inv(1) [of 1] TrueI _ _ _ _ _,
      of bozo32_spec 1 "0xff" 1 3 2 "[PushWrite [0, 1, 0], PushNext, PushWrite [1], PushClose]"]
  by (simp add: bozo32_spec_def bozo32_spec_start spec_ok_def no_overflow_def MaxInt_def)

text \<open>C20: \<open>Reset\<close> at any moment, after any calls and whether or not the writer was closed, makes it ready for
  a new stream: the chunks of the next stream are those of the specification for its bytes alone.\<close>

theorem ChunkWriter_Reset_stream:
  assumes "digest H dinv win S fits" and "dinv h" and "fits (nat window)"
    and "X = \<lparr>sp_sum = S h, sp_window = window, sp_mask = msk, sp_min = mn, sp_max = mx\<rparr>"
    and "spec_ok X b" and "1 \<le> mn" and "PushClose \<in> set ops"
    and "no_overflow X b (int (length (push_bytes ops)))" and "no_overflow X b (int (length (push_bytes before)))"
  shows "\<exists>w out0 w0 out w1 out' w2.
    NewChunkWriter H h window msk [WithBoundaries mn mx, WithBatchSize b] = Some w \<and>
    cw_run before w = Some (out0, w0) \<and>
    cw_run ops (chunkWriter_Reset w0) = Some (out, w1) \<and> cw_drain w1 = Some (out', w2) \<and>
    out @ out' = ref_chunks X (push_bytes ops) 0"
  using digest.new_writer_state [OF assms(1,2,4-6,3,9)] digest.reset_writer [OF assms(1) _ _ assms(7,8)] assms(4,6)
  by fastforce

theorem ChunkWriter_Reset_stream_witness:
  "\<exists>w out0 w0 out w1 out' w2.
    NewChunkWriter bozo32_iface (bozo32_NewFromInt 1) 1 0xff [WithBoundaries 1 3, WithBatchSize 2] = Some w \<and>
    cw_run [PushWrite [7, 8, 9], PushNext] w = Some (out0, w0) \<and>
    cw_run [PushWrite [0, 1], PushClose] (chunkWriter_Reset w0) = Some (out, w1) \<and> cw_drain w1 = Some (out', w2) \<and>
    out @ out' = ref_chunks bozo32_spec [0, 1] 0"
  using ChunkWriter_Reset_stream [OF bozo32_digest.digest_axioms bozo32_New_inv(1) [of 1] TrueI _ _ _ _ _,
      of bozo32_spec 1 "0xff" 1 3 2 "[PushWrite [0, 1], PushClose]" "[PushWrite [7, 8, 9], PushNext]"]
  by (simp add: bozo32_spec_def bozo32_spec_start spec_ok_def no_overflow_def MaxInt_def)

text \<open>After \<open>Close\<close>, whatever calls of \<open>Next\<close>, \<open>Write\<close> and \<open>Close\<close> follow it, \<open>Write\<close> takes no byte,
  returns \<open>ErrClosed\<close> and leaves the writer as it is.\<close>

theorem ChunkWriter_closed:
  assumes "digest H dinv win S fits" and "dinv h" and "fits (nat window)"
    and "X = \<lparr>sp_sum = S h, sp_window = window, sp_mask = msk, sp_min = mn, sp_max = mx\<rparr>"
    and "spec_ok X b" and "1 \<le> mn" and "no_overflow X b (int (length (push_bytes ops)))"
    and "NewChunkWriter H h window msk [WithBoundaries mn mx, WithBatchSize b] = Some w"
    and "cw_run ops w = Some (out, w1)" and "PushClose \<in> set ops"
  shows "chunkWriter_Write w1 p = Some (0, Some ErrClosed, w1)"
  using digest.new_writer_state [OF assms(1,2,4-6,3,7)] assms(8-10) writer_Write_closed [of w1 p] by auto

theorem ChunkWriter_closed_witness:
  "\<exists>w out w1. NewChunkWriter bozo32_iface (bozo32_NewFromInt 1) 1 0xff [WithBoundaries 1 3, WithBatchSize 2] = Some w \<and>
     cw_run [PushWrite [5], PushClose] w = Some (out, w1) \<and> chunkWriter_Write w1 [6] = Some (0, Some ErrClosed, w1)"
proof -
  let ?ops = "[PushWrite [5], PushClose]"
  have X: "bozo32_spec = \<lparr>sp_sum = (\<lambda>xs. ucast (bozo32_hash (bz32_a (bozo32_NewFromInt 1)) xs)), sp_window = 1,
      sp_mask = 0xff, sp_min = 1, sp_max = 3\<rparr>"
    by (simp add: bozo32_spec_def bozo32_spec_start)
  have ok: "spec_ok bozo32_spec 2" "no_overflow bozo32_spec 2 (int (length (push_bytes ?ops)))"
    by (simp_all add: bozo32_spec_def spec_ok_def no_overflow_def MaxInt_def)
  obtain w out w1 where w: "NewChunkWriter bozo32_iface (bozo32_NewFromInt 1) 1 0xff [WithBoundaries 1 3, WithBatchSize 2] = Some w"
      "cw_run ?ops w = Some (out, w1)"
    using digest.new_writer_state [OF bozo32_digest.digest_axioms bozo32_New_inv(1) X ok(1) _ TrueI ok(2)] by auto
  have "chunkWriter_Write w1 [6] = Some (0, Some ErrClosed, w1)"
    by (rule ChunkWriter_closed [OF bozo32_digest.digest_axioms bozo32_New_inv(1) TrueI X ok(1) _ ok(2) w]) simp_all
  then show ?thesis using w by blast
qed

text \<open>C2: The pull side is a function of the stream, not of how the reader cuts it. For every hash and reader
  that keep their contracts and every parameters in range, the default minimum 0 included, the loop
  over \<open>Next\<close> ends and hands out the chunks of the specification for the whole stream, without error.\<close>

theorem Chunker_stream:
  assumes "digest H dinv win S fits" and "byte_source rd rok left ending rank"
    and "dinv h" and "fits (nat window)" and "rok r" and "ending r = EOF"
    and "X = \<lparr>sp_sum = S h, sp_window = window, sp_mask = msk, sp_min = mn, sp_max = mx\<rparr>"
    and "spec_ok X b" and "no_overflow X b (int (length (left r)))"
  shows "\<exists>c out c'. NewChunker r H h window msk [WithBoundaries mn mx, WithBatchSize b] = Some c \<and>
    chunker_drain rd c = Some (out, c') \<and> out = ref_chunks X (left r) 0 \<and> cc_err (ch_core c') = None"
  using hash_stream.new_drain [OF hash_stream.intro [OF assms(1,2)] assms(3,7,8,4,5,9)] assms(6)
  by (auto simp: drained_def)

definition cycle4 :: cycleReader where
  "cycle4 = \<lparr>cy_data = [0, 1], cy_pos = 0, cy_remaining = 4\<rparr>"

theorem Chunker_stream_witness:
  "\<exists>c out c'. NewChunker cycle4 bozo32_iface (bozo32_NewFromInt 1) 1 0xff [WithBoundaries 1 3, WithBatchSize 2] = Some c \<and>
    chunker_drain cycleReader_Read c = Some (out, c') \<and> out = ref_chunks bozo32_spec [0, 1, 0, 1] 0"
proof -
  have left: "cycle_left cycle4 = [0, 1, 0, 1]" by (simp add: cycle4_def cycle_left_def numeral_eq_Suc)
  show ?thesis
    using Chunker_stream [OF bozo32_digest.digest_axioms cycle.byte_source_axioms bozo32_New_inv(1) [of 1] TrueI,
        of cycle4 bozo32_spec 1 "0xff" 1 3 2]
    by (auto simp: left bozo32_spec_start spec_ok_def no_overflow_def MaxInt_def)
      (auto simp: cycle4_def bozo32_spec_def)
qed

text \<open>C19: When the reader fails with an error other than EOF, the loop over \<open>Next\<close> ends, \<open>Err\<close> is that error,
  and the chunks handed out before are final: they begin the chunks of the specification for every
  continuation of the bytes that were read. The unfinished chunk is not handed out.\<close>

theorem Chunker_read_error:
  assumes "digest H dinv win S fits" and "byte_source rd rok left ending rank"
    and "dinv h" and "fits (nat window)" and "rok r" and "ending r = e" and "e \<noteq> EOF"
    and "X = \<lparr>sp_sum = S h, sp_window = window, sp_mask = msk, sp_min = mn, sp_max = mx\<rparr>"
    and "spec_ok X b" and "no_overflow X b (int (length (left r)))"
  shows "\<exists>c out c' s. NewChunker r H h window msk [WithBoundaries mn mx, WithBatchSize b] = Some c \<and>
    chunker_drain rd c = Some (out, c') \<and> cc_err (ch_core c') = Some e \<and>
    (\<forall>Q. out @ ref_chunks X (left r @ Q) s = ref_chunks X (left r @ Q) 0)"
  using hash_stream.new_drain [OF hash_stream.intro [OF assms(1,2)] assms(3,8,9,4,5,10)] assms(6,7)
  by (auto simp: drained_def)

theorem Chunker_read_error_witness:
  "\<exists>c out c' s. NewChunker ([0, 1, 0], OtherErr 5) bozo32_iface (bozo32_NewFromInt 1) 1 0xff [WithBoundaries 1 3, WithBatchSize 2] = Some c \<and>
    chunker_drain list_Read c = Some (out, c') \<and> cc_err (ch_core c') = Some (OtherErr 5) \<and>
    (\<forall>Q. out @ ref_chunks bozo32_spec ([0, 1, 0] @ Q) s = ref_chunks bozo32_spec ([0, 1, 0] @ Q) 0)"
  using Chunker_read_error [OF bozo32_digest.digest_axioms list_source.byte_source_axioms bozo32_New_inv(1) [of 1] TrueI,
      where r = "([0, 1, 0], OtherErr 5)" and e = "OtherErr 5" and X = bozo32_spec and window = 1 and msk = "0xff" and mn = 1
        and mx = 3 and b = 2]
  by (simp add: bozo32_spec_def bozo32_spec_start spec_ok_def no_overflow_def MaxInt_def)

text \<open>C21: \<open>Reset\<close> on a drained chunker, after the end of a stream or after an error, makes it ready for another
  reader: draining it again gives the chunks of the specification for the new stream.\<close>

theorem Chunker_Reset_stream:
  assumes "digest H dinv win S fits" and "byte_source rd rok left ending rank"
    and "dinv h" and "fits (nat window)" and "rok r" and "rok r'" and "ending r' = EOF"
    and "X = \<lparr>sp_sum = S h, sp_window = window, sp_mask = msk, sp_min = mn, sp_max = mx\<rparr>"
    and "spec_ok X b" and "no_overflow X b (int (length (left r)))" and "no_overflow X b (int (length (left r')))"
  shows "\<exists>c out c' out2 c2. NewChunker r H h window msk [WithBoundaries mn mx, WithBatchSize b] = Some c \<and>
    chunker_drain rd c = Some (out, c') \<and> chunker_drain rd (chunker_Reset c' r') = Some (out2, c2) \<and>
    out2 = ref_chunks X (left r') 0 \<and> cc_err (ch_core c2) = None"
proof -
  note stream = hash_stream.intro [OF assms(1,2)]
  obtain c out c' where c: "NewChunker r H h window msk [WithBoundaries mn mx, WithBatchSize b] = Some c"
      "chunker_drain rd c = Some (out, c')" "chunker_usable H dinv S fits X c'" "cc_batchSize (ch_core c') = b"
    using hash_stream.new_drain [OF stream assms(3,8,9,4,5,10)] by blast
  show ?thesis
    using hash_stream.reset_drain [OF stream c(3) assms(6)] c assms(7,11) by (fastforce simp: drained_def)
qed

theorem Chunker_Reset_stream_witness:
  "\<exists>c out c' out2 c2. NewChunker ([7, 8], EOF) bozo32_iface (bozo32_NewFromInt 1) 1 0xff [WithBoundaries 1 3, WithBatchSize 2] = Some c \<and>
    chunker_drain list_Read c = Some (out, c') \<and>
    chunker_drain list_Read (chunker_Reset c' ([0, 1], EOF)) = Some (out2, c2) \<and>
    out2 = ref_chunks bozo32_spec [0, 1] 0 \<and> cc_err (ch_core c2) = None"
  using Chunker_Reset_stream [OF bozo32_digest.digest_axioms list_source.byte_source_axioms bozo32_New_inv(1) [of 1] TrueI,
      where r = "([7, 8], EOF)" and r' = "([0, 1], EOF)" and X = bozo32_spec and window = 1 and msk = "0xff" and mn = 1
        and mx = 3 and b = 2]
  by (fastforce simp: bozo32_spec_def bozo32_spec_start spec_ok_def no_overflow_def MaxInt_def)

text \<open>C3: What a client of the chunker can rely on, for every hash, reader and parameters in range: the bytes of
  the chunks are the bytes of the stream, and every chunk is at its offset, not empty and not longer than
  the maximum. A chunk cut by its content is no shorter than the minimum, its last window satisfies the
  mask and no earlier window it could have been cut at does; any other chunk has the maximal length or is
  the last. \<open>Sum\<close> is the checksum of the window that ends with the last byte of the chunk, which may begin in
  an earlier chunk; where no such window exists, because the chunk ends before the first \<open>window\<close> bytes of
  the stream are complete, it is 0. With a maximum below the window this also happens to forced
  cuts in the middle of a stream.\<close>

theorem Chunker_chunks_good:
  assumes "digest H dinv win S fits" and "byte_source rd rok left ending rank"
    and "dinv h" and "fits (nat window)" and "rok r" and "ending r = EOF"
    and "X = \<lparr>sp_sum = S h, sp_window = window, sp_mask = msk, sp_min = mn, sp_max = mx\<rparr>"
    and "spec_ok X b" and "no_overflow X b (int (length (left r)))"
  shows "\<exists>c out c'. NewChunker r H h window msk [WithBoundaries mn mx, WithBatchSize b] = Some c \<and>
    chunker_drain rd c = Some (out, c') \<and> concat (map ch_bytes out) = left r \<and>
    (\<forall>ch \<in> set out. good_chunk X (left r) ch)"
proof -
  have "1 \<le> sp_max X" using assms(8) by (simp add: spec_ok_def)
  then show ?thesis
    using hash_stream.new_drain [OF hash_stream.intro [OF assms(1,2)] assms(3,7,8,4,5,9)] assms(6)
      ref_chunks_concat [of 0 X "left r"] ref_chunks_good [of 0 X _ "left r"]
    by (auto simp: drained_def)
qed

theorem Chunker_chunks_good_witness:
  "\<exists>c out c'. NewChunker ([0, 1, 0], EOF) bozo32_iface (bozo32_NewFromInt 1) 1 0xff [WithBoundaries 1 3, WithBatchSize 2] = Some c \<and>
    chunker_drain list_Read c = Some (out, c') \<and> concat (map ch_bytes out) = [0, 1, 0]"
  using Chunker_chunks_good [OF bozo32_digest.digest_axioms list_source.byte_source_axioms bozo32_New_inv(1) [of 1] TrueI,
      where r = "([0, 1, 0], EOF)" and X = bozo32_spec and window = 1 and msk = "0xff" and mn = 1 and mx = 3 and b = 2]
  by (fastforce simp: bozo32_spec_def bozo32_spec_start spec_ok_def no_overflow_def MaxInt_def)

text \<open>The comments of \<open>Sum\<close> say that it is 0 only for a final chunk whose stream has fewer bytes than the window.
  A stream of eight bytes with a window of four and a maximum of two: the first chunk is a forced cut, not
  the last one, and its sum is 0; the sum of the second one is not.\<close>

theorem Chunker_forced_cut_sum_zero:
  "(case NewChunker ([7, 7, 7, 7, 7, 7, 7, 7], EOF) bozo32_iface (bozo32_NewFromInt 1) 4 0xff [WithBoundaries 1 2, WithBatchSize 8] of
      None \<Rightarrow> []
    | Some c \<Rightarrow> (case chunker_drain list_Read c of
        None \<Rightarrow> [] | Some (out, c') \<Rightarrow> map (\<lambda>ch. (ch_bytes ch, ch_contentDefined ch, ch_sum ch)) out)) =
     [([7, 7], False, 0), ([7, 7], False, 28), ([7, 7], False, 28), ([7, 7], False, 28)]"
  by code_simp

text \<open>The default minimum 0 breaks the push side: when more than a batch is written before \<open>Next\<close> is called,
  a boundary that was already used stops the hashing of \<open>next\<close> early, and the boundaries behind it are
  missed. Here every zero byte ends a chunk of the specification, and the writer runs over the second.\<close>

theorem ChunkWriter_min_zero_misses:
  "(case NewChunkWriter bozo32_iface (bozo32_NewFromInt 1) 1 0xff [WithBoundaries 0 MaxInt, WithBatchSize 1] of
      None \<Rightarrow> []
    | Some w \<Rightarrow> (case cw_run [PushWrite [0, 1, 0, 1], PushClose, PushNext, PushNext, PushNext, PushNext] w of
        None \<Rightarrow> [] | Some (out, w') \<Rightarrow> map ch_bytes out)) = [[0], [1, 0, 1]] \<and>
   map ch_bytes (ref_chunks (bozo32_spec\<lparr>sp_min := 0, sp_max := MaxInt\<rparr>) [0, 1, 0, 1] 0) = [[0], [1, 0], [1]]"
  by code_simp

end
