(* ===== verification/Batching.thy ===== *)
theory Batching
  imports Batch_Writer Batch_Reader Chunking
begin

text \<open>
  The batch rollers end to end: batchroller.go and batchwriter.go over any hash package and any reader.
\<close>

section \<open>Properties\<close>

text \<open>C4: Every window of the stream is rolled exactly once. For every hash and reader that keep their
  contracts and every buffer that holds a window, the loop over \<open>Next\<close> ends without error; each batch
  starts where the sums of the one before end, its bytes are those of the stream at its offset, and its
  sums are the checksums of all windows of its bytes. Together the sums are those of all windows of the
  stream, in order.\<close>

theorem BatchRoller_stream:
  assumes "digest H dinv win S fits" and "byte_source rd rok left ending rank"
    and "dinv h" and "fits w" and "1 \<le> w" and "int w \<le> b" and "rok r" and "ending r = EOF"
  shows "\<exists>c out c'. NewBatchRoller r H h (int w) [WithBufferSize b] = Some c \<and> br_drain rd c = Some (out, c') \<and>
    bc_err (br_core c') = None \<and> batches_at (S h) w (left r) 0 out (length (left r) + 1 - w) \<and>
    concat (map bt_sums out) = map (\<lambda>i. S h (window_at w (left r) i)) [0..<length (left r) + 1 - w]"
  using hash_stream.new_roll [OF hash_stream.intro [OF assms(1,2)] assms(3-7)] assms(8) batches_at_sums
  by (fastforce simp: rolled_def)

theorem BatchRoller_stream_witness:
  "\<exists>c out c'. NewBatchRoller cycle4 bozo32_iface (bozo32_NewFromInt 1) (int 2) [WithBufferSize 3] = Some c \<and>
    br_drain cycleReader_Read c = Some (out, c') \<and>
    concat (map bt_sums out) =
      [ucast (bozo32_hash 1 [0, 1]), ucast (bozo32_hash 1 [1, 0]), ucast (bozo32_hash 1 [0, 1])]"
proof -
  have left: "cycle_left cycle4 = [0, 1, 0, 1]" by (simp add: cycle4_def cycle_left_def numeral_eq_Suc)
  have ok: "cy_data cycle4 \<noteq> []" by (simp add: cycle4_def)
  show ?thesis
    using BatchRoller_stream [OF bozo32_digest.digest_axioms cycle.byte_source_axioms bozo32_New_inv(1) [of 1] TrueI
        _ _ ok refl, of 2 3]
    by (auto simp: left bozo32_spec_start window_at_def numeral_eq_Suc)
qed

text \<open>C31: When the reader fails, the loop over \<open>Next\<close> ends, \<open>Err\<close> is its error, and the batches handed out
  before are the first ones of the stream that was read. \<open>Reset\<close> after an end or a failure makes the
  roller ready for another reader.\<close>

theorem BatchRoller_error_and_Reset:
  assumes "digest H dinv win S fits" and "byte_source rd rok left ending rank"
    and "dinv h" and "fits w" and "1 \<le> w" and "int w \<le> b" and "rok r" and "rok r'"
    and "ending r = e" and "e \<noteq> EOF" and "ending r' = EOF"
  shows "\<exists>c out c' s out' c2. NewBatchRoller r H h (int w) [WithBufferSize b] = Some c \<and>
    br_drain rd c = Some (out, c') \<and> bc_err (br_core c') = Some e \<and> batches_at (S h) w (left r) 0 out s \<and>
    br_drain rd (batchRoller_Reset c' r') = Some (out', c2) \<and> bc_err (br_core c2) = None \<and>
    batches_at (S h) w (left r') 0 out' (length (left r') + 1 - w)"
proof -
  note stream = hash_stream.intro [OF assms(1,2)]
  obtain c out c' where c: "NewBatchRoller r H h (int w) [WithBufferSize b] = Some c" "br_drain rd c = Some (out, c')"
      "batch_params H dinv S fits (S h) w b (br_core c')" "br_readSize c' = b"
      "rolled (S h) w (left r) (ending r) out (bc_err (br_core c'))"
    using hash_stream.new_roll [OF stream assms(3-7)] by blast
  obtain out' c2 where "br_drain rd (batchRoller_Reset c' r') = Some (out', c2)"
      "rolled (S h) w (left r') (ending r') out' (bc_err (br_core c2))"
    using hash_stream.reset_roll [OF stream c(3,4) assms(8)] by blast
  then show ?thesis using c assms(9-11) by (auto simp: rolled_def)
qed

theorem BatchRoller_error_and_Reset_witness:
  "\<exists>c out c' s out' c2. NewBatchRoller ([1, 2, 3], OtherErr 5) bozo32_iface (bozo32_NewFromInt 1) (int 2) [WithBufferSize 3] = Some c \<and>
    br_drain list_Read c = Some (out, c') \<and> bc_err (br_core c') = Some (OtherErr 5) \<and>
    br_drain list_Read (batchRoller_Reset c' ([4, 5], EOF)) = Some (out', c2) \<and> bc_err (br_core c2) = None \<and>
    batches_at (\<lambda>xs. ucast (bozo32_hash 1 xs)) 2 [4, 5] 0 out' 1"
  using BatchRoller_error_and_Reset [OF bozo32_digest.digest_axioms list_source.byte_source_axioms
      bozo32_New_inv(1) [of 1] TrueI,
      where w = 2 and b = 3 and r = "([1, 2, 3], OtherErr 5)" and r' = "([4, 5], EOF)" and e = "OtherErr 5"]
  by (fastforce simp: bozo32_spec_start)

text \<open>C5: The push side is a function of the bytes, not of the calls: for every sequence of \<open>Write\<close>, \<open>Next\<close>
  and \<open>Close\<close> that closes the writer, the batches handed out during the calls and by the loop over
  \<open>Next\<close> after them roll every window of the bytes written exactly once, in order, and the loop ends.
  A \<open>Write\<close> after \<open>Close\<close> takes no byte and returns \<open>ErrClosed\<close>.\<close>

theorem BatchWriter_stream:
  assumes "digest H dinv win S fits" and "dinv h" and "fits w" and "1 \<le> w" and "int w \<le> b"
    and "PushClose \<in> set ops"
  shows "\<exists>bw out bw1 out' bw2. NewBatchWriter H h (int w) [WithBufferSize b] = Some bw \<and>
    bw_run ops bw = Some (out, bw1) \<and> bw_drain bw1 = Some (out', bw2) \<and>
    batchWriter_Write bw1 p = Some (0, Some ErrClosed, bw1) \<and>
    batches_at (S h) w (push_bytes ops) 0 (out @ out') (length (push_bytes ops) + 1 - w) \<and>
    concat (map bt_sums (out @ out')) =
      map (\<lambda>i. S h (window_at w (push_bytes ops) i)) [0..<length (push_bytes ops) + 1 - w]"
proof -
  obtain c0 where c0: "newBatchRollerCore H h (int w) defaultBatchRollerBufSize = Some c0"
      "batch_state H dinv S fits (S h) w b [] 0 (WithBufferSize b c0)" "bc_eof (WithBufferSize b c0) = False"
    using digest.new_batch_core [OF assms(1-5)] by blast
  define bw where "bw = \<lparr>bw_core = WithBufferSize b c0, bw_pending = []\<rparr>"
  have new: "NewBatchWriter H h (int w) [WithBufferSize b] = Some bw"
    using c0(1) by (simp add: NewBatchWriter_def bw_def)
  have st: "bwriter_state H dinv S fits (S h) w b [] [] 0 bw"
    using c0 assms(4,5) by (intro bwriter_stateI [of _ "[]"]) (simp_all add: bw_def)
  have "bc_eof (bw_core bw) = False" using c0(3) by (simp add: bw_def)
  then obtain out t bw1 where run: "bw_run ops bw = Some (out, bw1)"
      "bwriter_state H dinv S fits (S h) w b (push_bytes ops) out t bw1" "bc_eof (bw_core bw1)"
    using digest.bw_run_state [OF assms(1) st, of ops] assms(6) by auto
  obtain out' bw2 where "bw_drain bw1 = Some (out', bw2)"
      "batches_at (S h) w (push_bytes ops) 0 (out @ out') (length (push_bytes ops) + 1 - w)"
    using digest.bw_drain_all [OF assms(1) run(2,3)] by blast
  then show ?thesis
    using new run(1) bwriter_Write_closed [OF run(3), of p] batches_at_sums [of "S h" w "push_bytes ops"] by blast
qed

theorem BatchWriter_stream_witness:
  "\<exists>bw out bw1 out' bw2. NewBatchWriter bozo32_iface (bozo32_NewFromInt 1) (int 2) [WithBufferSize 3] = Some bw \<and>
    bw_run [PushWrite [1, 2], PushNext, PushWrite [3, 4, 5], PushClose] bw = Some (out, bw1) \<and>
    bw_drain bw1 = Some (out', bw2) \<and>
    concat (map bt_sums (out @ out')) =
      [ucast (bozo32_hash 1 [1, 2]), ucast (bozo32_hash 1 [2, 3]), ucast (bozo32_hash 1 [3, 4]),
       ucast (bozo32_hash 1 [4, 5])]"
  using BatchWriter_stream [OF bozo32_digest.digest_axioms bozo32_New_inv(1) [of 1] TrueI,
      of 2 3 "[PushWrite [1, 2], PushNext, PushWrite [3, 4, 5], PushClose]" "[]"]
  by (auto simp: bozo32_spec_start window_at_def numeral_eq_Suc)

text \<open>\<open>Reset\<close> at any moment, closed or not, makes the writer ready for a new stream, whose batches roll
  the windows of its bytes alone.\<close>

theorem BatchWriter_Reset_stream:
  assumes "digest H dinv win S fits" and "dinv h" and "fits w" and "1 \<le> w" and "int w \<le> b"
    and "PushClose \<in> set ops"
  shows "\<exists>bw out0 bw0 out bw1 out' bw2. NewBatchWriter H h (int w) [WithBufferSize b] = Some bw \<and>
    bw_run before bw = Some (out0, bw0) \<and> bw_run ops (batchWriter_Reset bw0) = Some (out, bw1) \<and>
    bw_drain bw1 = Some (out', bw2) \<and>
    batches_at (S h) w (push_bytes ops) 0 (out @ out') (length (push_bytes ops) + 1 - w)"
proof -
  obtain c0 where c0: "newBatchRollerCore H h (int w) defaultBatchRollerBufSize = Some c0"
      "batch_state H dinv S fits (S h) w b [] 0 (WithBufferSize b c0)" "bc_eof (WithBufferSize b c0) = False"
    using digest.new_batch_core [OF assms(1-5)] by blast
  define bw where "bw = \<lparr>bw_core = WithBufferSize b c0, bw_pending = []\<rparr>"
  have new: "NewBatchWriter H h (int w) [WithBufferSize b] = Some bw"
    using c0(1) by (simp add: NewBatchWriter_def bw_def)
  have b: "1 \<le> b" using assms(4,5) by simp
  have st: "bwriter_state H dinv S fits (S h) w b [] [] 0 bw"
    using c0 b by (intro bwriter_stateI [of _ "[]"]) (simp_all add: bw_def)
  obtain out0 t0 D0 bw0 where run0: "bw_run before bw = Some (out0, bw0)"
      "bwriter_state H dinv S fits (S h) w b D0 out0 t0 bw0"
    using digest.bw_run_state [OF assms(1) st, of before] by auto
  have "batch_params H dinv S fits (S h) w b (bw_core bw0)"
    using run0(2) by (auto simp: bwriter_state_def batch_state_def)
  then have st1: "bwriter_state H dinv S fits (S h) w b [] [] 0 (batchWriter_Reset bw0)"
    using b by (intro bwriter_stateI [of _ "[]"]) (simp_all add: batchWriter_Reset_def reset_batch_state)
  have "bc_eof (bw_core (batchWriter_Reset bw0)) = False"
    by (simp add: batchWriter_Reset_def bcore_reset_def)
  then obtain out t bw1 where run: "bw_run ops (batchWriter_Reset bw0) = Some (out, bw1)"
      "bwriter_state H dinv S fits (S h) w b (push_bytes ops) out t bw1" "bc_eof (bw_core bw1)"
    using digest.bw_run_state [OF assms(1) st1, of ops] assms(6) by auto
  obtain out' bw2 where "bw_drain bw1 = Some (out', bw2)"
      "batches_at (S h) w (push_bytes ops) 0 (out @ out') (length (push_bytes ops) + 1 - w)"
    using digest.bw_drain_all [OF assms(1) run(2,3)] by blast
  then show ?thesis using new run0(1) run(1) by blast
qed

theorem BatchWriter_Reset_stream_witness:
  "\<exists>bw out0 bw0 out bw1 out' bw2.
    NewBatchWriter bozo32_iface (bozo32_NewFromInt 1) (int 2) [WithBufferSize 3] = Some bw \<and>
    bw_run [PushWrite [7, 8], PushClose] bw = Some (out0, bw0) \<and>
    bw_run [PushWrite [1, 2, 3], PushClose] (batchWriter_Reset bw0) = Some (out, bw1) \<and>
    bw_drain bw1 = Some (out', bw2) \<and>
    batches_at (\<lambda>xs. ucast (bozo32_hash 1 xs)) 2 [1, 2, 3] 0 (out @ out') 2"
  using BatchWriter_Reset_stream [OF bozo32_digest.digest_axioms bozo32_New_inv(1) [of 1] TrueI,
      of 2 3 "[PushWrite [1, 2, 3], PushClose]" "[PushWrite [7, 8], PushClose]"]
  by (simp add: bozo32_spec_start numeral_2_eq_2)

section \<open>What is left after a batch\<close>

text \<open>The comments of \<open>Sums\<close> and \<open>Bytes\<close> promise nil after \<open>Next\<close> has returned false. Before \<open>Close\<close> both
  still return the batch before: a writer of batches of three bytes is given three, hands out one batch, has
  no other, and keeps it.\<close>

definition stale_writer :: "bozo32 batchWriter option" where
  "stale_writer = do {
     w \<leftarrow> NewBatchWriter bozo32_iface (bozo32_NewFromInt 1) 2 [WithBufferSize 3];
     (_, _, w) \<leftarrow> batchWriter_Write w [1, 2, 3];
     (_, w) \<leftarrow> batchWriter_Next w;
     (more_batches, w) \<leftarrow> batchWriter_Next w;
     if more_batches then None else Some w
   }"

theorem BatchWriter_stale_batch:
  "(case stale_writer of None \<Rightarrow> False
    | Some w \<Rightarrow> batchWriter_Bytes w = Some [1, 2, 3] \<and> batchWriter_Sums w = Some [3, 5])"
  by code_simp

end
