(* ===== verification/Client_Loops.thy ===== *)
theory Client_Loops
  imports Batching
begin

text \<open>
  The four streaming interfaces of rollinghash.go as tables of methods, and the loops that their comments show: a
  client pulls from a \<open>Chunker\<close> or a \<open>BatchRoller\<close>, or pushes pieces into a \<open>ChunkWriter\<close> or a \<open>BatchWriter\<close> and
  pulls after each of them. The theorems compare the two sides: the same stream gives the same chunks and
  the same checksums, however it is cut into pieces, and every loop ends.
\<close>

section \<open>The interfaces\<close>

record ('r, 'c) Chunker =
  ck_Next :: "'c \<Rightarrow> (bool \<times> 'c) option"
  ck_Bytes :: "'c \<Rightarrow> byte list option"
  ck_ContentDefined :: "'c \<Rightarrow> bool"
  ck_Sum :: "'c \<Rightarrow> u64"
  ck_Offset :: "'c \<Rightarrow> int"
  ck_WindowSize :: "'c \<Rightarrow> int"
  ck_Err :: "'c \<Rightarrow> gerror option"
  ck_Reset :: "'c \<Rightarrow> 'r \<Rightarrow> 'c"

record 'c ChunkWriter =
  kw_Write :: "'c \<Rightarrow> byte list \<Rightarrow> (int \<times> gerror option \<times> 'c) option"
  kw_Close :: "'c \<Rightarrow> (gerror option \<times> 'c) option"
  kw_Next :: "'c \<Rightarrow> (bool \<times> 'c) option"
  kw_Bytes :: "'c \<Rightarrow> byte list option"
  kw_ContentDefined :: "'c \<Rightarrow> bool"
  kw_Sum :: "'c \<Rightarrow> u64"
  kw_Offset :: "'c \<Rightarrow> int"
  kw_WindowSize :: "'c \<Rightarrow> int"
  kw_Err :: "'c \<Rightarrow> gerror option"
  kw_Reset :: "'c \<Rightarrow> 'c"

record ('r, 'c) BatchRoller =
  bk_Next :: "'c \<Rightarrow> (bool \<times> 'c) option"
  bk_Bytes :: "'c \<Rightarrow> byte list option"
  bk_Sums :: "'c \<Rightarrow> u64 list option"
  bk_Offset :: "'c \<Rightarrow> int"
  bk_WindowSize :: "'c \<Rightarrow> int"
  bk_Err :: "'c \<Rightarrow> gerror option"
  bk_Reset :: "'c \<Rightarrow> 'r \<Rightarrow> 'c"

record 'c BatchWriter =
  wk_Write :: "'c \<Rightarrow> byte list \<Rightarrow> (int \<times> gerror option \<times> 'c) option"
  wk_Close :: "'c \<Rightarrow> (gerror option \<times> 'c) option"
  wk_Next :: "'c \<Rightarrow> (bool \<times> 'c) option"
  wk_Bytes :: "'c \<Rightarrow> byte list option"
  wk_Sums :: "'c \<Rightarrow> u64 list option"
  wk_Offset :: "'c \<Rightarrow> int"
  wk_WindowSize :: "'c \<Rightarrow> int"
  wk_Err :: "'c \<Rightarrow> gerror option"
  wk_Reset :: "'c \<Rightarrow> 'c"

text \<open>The types that implement them.\<close>

definition chunker_methods :: "'r reader \<Rightarrow> ('r, ('d, 'r) chunker) Chunker" where
  "chunker_methods rd = \<lparr>ck_Next = chunker_Next rd, ck_Bytes = chunker_Bytes, ck_ContentDefined = chunker_ContentDefined,
     ck_Sum = chunker_Sum, ck_Offset = chunker_Offset, ck_WindowSize = chunker_WindowSize, ck_Err = chunker_Err,
     ck_Reset = chunker_Reset\<rparr>"

definition chunkWriter_methods :: "'d chunkWriter ChunkWriter" where
  "chunkWriter_methods = \<lparr>kw_Write = chunkWriter_Write, kw_Close = chunkWriter_Close, kw_Next = chunkWriter_Next,
     kw_Bytes = chunkWriter_Bytes, kw_ContentDefined = chunkWriter_ContentDefined, kw_Sum = chunkWriter_Sum,
     kw_Offset = chunkWriter_Offset, kw_WindowSize = chunkWriter_WindowSize, kw_Err = chunkWriter_Err,
     kw_Reset = chunkWriter_Reset\<rparr>"

definition batchRoller_methods :: "'r reader \<Rightarrow> ('r, ('d, 'r) batchRoller) BatchRoller" where
  "batchRoller_methods rd = \<lparr>bk_Next = batchRoller_Next rd, bk_Bytes = batchRoller_Bytes, bk_Sums = batchRoller_Sums,
     bk_Offset = batchRoller_Offset, bk_WindowSize = batchRoller_WindowSize, bk_Err = batchRoller_Err,
     bk_Reset = batchRoller_Reset\<rparr>"

definition batchWriter_methods :: "'d batchWriter BatchWriter" where
  "batchWriter_methods = \<lparr>wk_Write = batchWriter_Write, wk_Close = (\<lambda>w. Some (batchWriter_Close w)), wk_Next = batchWriter_Next,
     wk_Bytes = batchWriter_Bytes, wk_Sums = batchWriter_Sums, wk_Offset = batchWriter_Offset,
     wk_WindowSize = batchWriter_WindowSize, wk_Err = batchWriter_Err, wk_Reset = batchWriter_Reset\<rparr>"

section \<open>The loops of the comments\<close>

text \<open>\<open>for c.Next() { ... }\<close>, with what the body reads. A nil slice is empty.\<close>

partial_function (option) next_loop :: "('c \<Rightarrow> (bool \<times> 'c) option) \<Rightarrow> ('c \<Rightarrow> 'x) \<Rightarrow> 'c \<Rightarrow> ('x list \<times> 'c) option" where
  "next_loop step body c = do {
     (ok, c) \<leftarrow> step c;
     if ok then do {
       (xs, c') \<leftarrow> next_loop step body c;
       Some (body c # xs, c')
     } else Some ([], c)
   }"

declare next_loop.simps [code]

text \<open>\<open>for moreData() { w.Write(next()); for w.Next() { ... } }\<close> over the pieces of the data.\<close>

primrec push_loop :: "('c \<Rightarrow> byte list \<Rightarrow> (int \<times> gerror option \<times> 'c) option) \<Rightarrow> ('c \<Rightarrow> (bool \<times> 'c) option) \<Rightarrow> ('c \<Rightarrow> 'x) \<Rightarrow>
    byte list list \<Rightarrow> 'c \<Rightarrow> ('x list \<times> 'c) option" where
  "push_loop write step body [] w = Some ([], w)"
| "push_loop write step body (p # ps) w = do {
     (n, err, w) \<leftarrow> write w p;
     (xs, w) \<leftarrow> next_loop step body w;
     (ys, w) \<leftarrow> push_loop write step body ps w;
     Some (xs @ ys, w)
   }"

definition slice_bytes :: "'a list option \<Rightarrow> 'a list" where
  "slice_bytes xs = (case xs of None \<Rightarrow> [] | Some xs \<Rightarrow> xs)"

definition ck_chunk :: "('r, 'c) Chunker \<Rightarrow> 'c \<Rightarrow> chunk" where
  "ck_chunk I c = \<lparr>ch_offset = ck_Offset I c, ch_bytes = slice_bytes (ck_Bytes I c),
     ch_contentDefined = ck_ContentDefined I c, ch_sum = ck_Sum I c\<rparr>"

definition Chunker_loop :: "('r, 'c) Chunker \<Rightarrow> 'c \<Rightarrow> (chunk list \<times> gerror option \<times> 'c) option" where
  "Chunker_loop I c = do {
     (out, c) \<leftarrow> next_loop (ck_Next I) (ck_chunk I) c;
     Some (out, ck_Err I c, c)
   }"

definition kw_chunk :: "'c ChunkWriter \<Rightarrow> 'c \<Rightarrow> chunk" where
  "kw_chunk I w = \<lparr>ch_offset = kw_Offset I w, ch_bytes = slice_bytes (kw_Bytes I w),
     ch_contentDefined = kw_ContentDefined I w, ch_sum = kw_Sum I w\<rparr>"

definition ChunkWriter_loop :: "'c ChunkWriter \<Rightarrow> byte list list \<Rightarrow> 'c \<Rightarrow> (chunk list \<times> gerror option \<times> 'c) option" where
  "ChunkWriter_loop I pieces w = do {
     (out, w) \<leftarrow> push_loop (kw_Write I) (kw_Next I) (kw_chunk I) pieces w;
     (err, w) \<leftarrow> kw_Close I w;
     (out', w) \<leftarrow> next_loop (kw_Next I) (kw_chunk I) w;
     Some (out @ out', kw_Err I w, w)
   }"

definition bk_batch :: "('r, 'c) BatchRoller \<Rightarrow> 'c \<Rightarrow> batch" where
  "bk_batch I c = \<lparr>bt_offset = bk_Offset I c, bt_bytes = slice_bytes (bk_Bytes I c), bt_sums = slice_bytes (bk_Sums I c)\<rparr>"

definition BatchRoller_loop :: "('r, 'c) BatchRoller \<Rightarrow> 'c \<Rightarrow> (batch list \<times> gerror option \<times> 'c) option" where
  "BatchRoller_loop I c = do {
     (out, c) \<leftarrow> next_loop (bk_Next I) (bk_batch I) c;
     Some (out, bk_Err I c, c)
   }"

definition wk_batch :: "'c BatchWriter \<Rightarrow> 'c \<Rightarrow> batch" where
  "wk_batch I w = \<lparr>bt_offset = wk_Offset I w, bt_bytes = slice_bytes (wk_Bytes I w), bt_sums = slice_bytes (wk_Sums I w)\<rparr>"

definition BatchWriter_loop :: "'c BatchWriter \<Rightarrow> byte list list \<Rightarrow> 'c \<Rightarrow> (batch list \<times> gerror option \<times> 'c) option" where
  "BatchWriter_loop I pieces w = do {
     (out, w) \<leftarrow> push_loop (wk_Write I) (wk_Next I) (wk_batch I) pieces w;
     (err, w) \<leftarrow> wk_Close I w;
     (out', w) \<leftarrow> next_loop (wk_Next I) (wk_batch I) w;
     Some (out @ out', wk_Err I w, w)
   }"

section \<open>The pull side\<close>

text \<open>A chunk or a batch read through the methods is the current one of the core.\<close>

lemma ck_chunk_core: "core_chunk (ch_core c) = Some ch \<Longrightarrow> ck_chunk (chunker_methods rd) c = ch"
  by (auto simp: core_chunk_def ck_chunk_def chunker_methods_def slice_bytes_def)

lemma kw_chunk_core: "core_chunk (cw_core w) = Some ch \<Longrightarrow> kw_chunk chunkWriter_methods w = ch"
  by (auto simp: core_chunk_def kw_chunk_def chunkWriter_methods_def slice_bytes_def)

lemma bk_batch_core: "bcore_current (br_core c) = Some bt \<Longrightarrow> bk_batch (batchRoller_methods rd) c = bt"
  by (auto simp: bcore_current_def bk_batch_def batchRoller_methods_def slice_bytes_def split: bind_splits)

lemma wk_batch_core: "bcore_current (bw_core w) = Some bt \<Longrightarrow> wk_batch batchWriter_methods w = bt"
  by (auto simp: bcore_current_def wk_batch_def batchWriter_methods_def slice_bytes_def split: bind_splits)

text \<open>When \<open>Next\<close> returns true there is a chunk.\<close>

lemma windowSum_chunk: "windowSum c e = Some (sumv, c') \<Longrightarrow> cc_chunk c' = cc_chunk c"
  by (auto simp: windowSum_def Let_def split: bind_splits if_splits)

lemma core_emit_chunk: "core_emit c e cd = Some c' \<Longrightarrow> core_chunk c' \<noteq> None"
  by (auto simp: core_emit_def core_chunk_def Let_def dest!: windowSum_chunk split: bind_splits)

lemma core_next_emitted: "core_next c = Some (emitted, c') \<Longrightarrow> core_chunk c' \<noteq> None"
  by (auto simp: core_next_def Let_def dest!: core_emit_chunk split: if_splits bind_splits prod.splits option.splits)

lemma chunker_Next_current:
  assumes "chunker_Next rd c = Some y"
  shows "fst y \<longrightarrow> core_chunk (ch_core (snd y)) \<noteq> None"
proof (rule chunker_Next.raw_induct [OF _ assms, where P = "\<lambda>rd c y. fst y \<longrightarrow> core_chunk (ch_core (snd y)) \<noteq> None"])
  fix next_rec :: "'r reader \<Rightarrow> ('d, 'r) chunker \<Rightarrow> (bool \<times> ('d, 'r) chunker) option" and rd c y
  assume IH: "\<And>rd c y. next_rec rd c = Some y \<Longrightarrow> fst y \<longrightarrow> core_chunk (ch_core (snd y)) \<noteq> None"
    and body: "(do {
     (st, core) \<leftarrow> core_next (ch_core c);
     let c = c\<lparr>ch_core := core\<rparr>;
     case st of
       emitted \<Rightarrow> Some (True, c)
     | coreDone \<Rightarrow> Some (False, c)
     | needMore \<Rightarrow> do {
         (filled, c) \<leftarrow> fillCore rd c;
         if \<not> filled \<and> cc_err (ch_core c) \<noteq> None then Some (False, c)
         else next_rec rd c
       }
   }) = Some y"
  show "fst y \<longrightarrow> core_chunk (ch_core (snd y)) \<noteq> None"
  proof (cases "core_next (ch_core c)")
    case None
    then show ?thesis using body by simp
  next
    case (Some res)
    obtain st core where st: "core_next (ch_core c) = Some (st, core)" using Some by (cases res) simp
    show ?thesis
      using body st IH core_next_emitted [of "ch_core c" core]
      by (cases st; cases y) (auto simp: Let_def split: bind_splits if_splits)
  qed
qed

lemma next_loop_chunker:
  assumes "chunker_drain rd c = Some y"
  shows "next_loop (chunker_Next rd) (ck_chunk (chunker_methods rd)) c = Some y"
proof (rule chunker_drain.raw_induct [OF _ assms, where P = "\<lambda>rd c y.
    next_loop (chunker_Next rd) (ck_chunk (chunker_methods rd)) c = Some y"])
  fix drain :: "'r reader \<Rightarrow> ('d, 'r) chunker \<Rightarrow> (chunk list \<times> ('d, 'r) chunker) option" and rd c y
  assume IH: "\<And>rd c y. drain rd c = Some y \<Longrightarrow> next_loop (chunker_Next rd) (ck_chunk (chunker_methods rd)) c = Some y"
    and body: "(do {
       (ok, c) \<leftarrow> chunker_Next rd c;
       if ok then do {
         (out, c') \<leftarrow> drain rd c;
         Some ((case core_chunk (ch_core c) of Some ch \<Rightarrow> [ch] | None \<Rightarrow> []) @ out, c')
       } else Some ([], c)
     }) = Some y"
  obtain ok c1 where n: "chunker_Next rd c = Some (ok, c1)" using body by (auto split: bind_splits)
  show "next_loop (chunker_Next rd) (ck_chunk (chunker_methods rd)) c = Some y"
  proof (cases ok)
    case False
    then show ?thesis using body n by (subst next_loop.simps) simp
  next
    case True
    then obtain ch where ch: "core_chunk (ch_core c1) = Some ch" using chunker_Next_current [OF n] by auto
    then show ?thesis
      using body n True ck_chunk_core [OF ch, of rd] by (subst next_loop.simps) (auto dest: IH split: bind_splits)
  qed
qed

lemma next_loop_roller:
  assumes "br_drain rd c = Some y"
  shows "next_loop (batchRoller_Next rd) (bk_batch (batchRoller_methods rd)) c = Some y"
proof (rule br_drain.raw_induct [OF _ assms, where P = "\<lambda>rd c y.
    next_loop (batchRoller_Next rd) (bk_batch (batchRoller_methods rd)) c = Some y"])
  fix drain :: "'r reader \<Rightarrow> ('d, 'r) batchRoller \<Rightarrow> (batch list \<times> ('d, 'r) batchRoller) option" and rd c y
  assume IH: "\<And>rd c y. drain rd c = Some y \<Longrightarrow> next_loop (batchRoller_Next rd) (bk_batch (batchRoller_methods rd)) c = Some y"
    and body: "(do {
       (ok, s) \<leftarrow> batchRoller_Next rd c;
       if ok then do {
         (out, s') \<leftarrow> drain rd s;
         Some ((case bcore_current (br_core s) of Some b \<Rightarrow> [b] | None \<Rightarrow> []) @ out, s')
       } else Some ([], s)
     }) = Some y"
  obtain ok c1 where n: "batchRoller_Next rd c = Some (ok, c1)" using body by (auto split: bind_splits)
  show "next_loop (batchRoller_Next rd) (bk_batch (batchRoller_methods rd)) c = Some y"
  proof (cases ok)
    case False
    then show ?thesis using body n by (subst next_loop.simps) simp
  next
    case True
    then obtain bt where bt: "bcore_current (br_core c1) = Some bt" using batchRoller_Next_current [OF n] by auto
    then show ?thesis
      using body n True bk_batch_core [OF bt, of rd] by (subst next_loop.simps) (auto dest: IH split: bind_splits)
  qed
qed

section \<open>The push side\<close>

context digest
begin

text \<open>The loop after a piece: it ends, closed or not, and after \<open>Close\<close> nothing is left.\<close>

lemma kw_next_loop:
  assumes "writer_state H inv S fits X b D out w" and "1 \<le> sp_min X"
  shows "\<exists>out' w'. next_loop chunkWriter_Next (kw_chunk chunkWriter_methods) w = Some (out', w') \<and>
    writer_state H inv S fits X b D (out @ out') w' \<and> cc_eof (cw_core w') = cc_eof (cw_core w) \<and>
    (cc_eof (cw_core w) \<longrightarrow> out @ out' = ref_chunks X D 0)"
  using assms
proof (induction "nat (int (length D) - cc_chunkStart (cw_core w))" arbitrary: out w rule: less_induct)
  case less
  obtain ok w1 where n: "chunkWriter_Next w = Some (ok, w1)" "cc_eof (cw_core w1) = cc_eof (cw_core w)"
      "cc_chunkStart (cw_core w1) \<le> int (length D)"
    and c: "if ok then \<exists>ch. core_chunk (cw_core w1) = Some ch \<and> writer_state H inv S fits X b D (out @ [ch]) w1 \<and>
        cc_chunkStart (cw_core w) < cc_chunkStart (cw_core w1)
     else writer_state H inv S fits X b D out w1 \<and> (cc_eof (cw_core w) \<longrightarrow> out = ref_chunks X D 0) \<and>
       core_chunk (cw_core w1) = (if cc_eof (cw_core w) then None else core_chunk (cw_core w))"
    using writer_Next [OF less.prems] by blast
  show ?case
  proof (cases ok)
    case False
    then show ?thesis
      using n c by (subst next_loop.simps) (intro exI [of _ "[]"] exI [of _ w1], auto)
  next
    case True
    then obtain ch where ch: "core_chunk (cw_core w1) = Some ch" "writer_state H inv S fits X b D (out @ [ch]) w1"
        "cc_chunkStart (cw_core w) < cc_chunkStart (cw_core w1)"
      using c by auto
    have "nat (int (length D) - cc_chunkStart (cw_core w1)) < nat (int (length D) - cc_chunkStart (cw_core w))"
      using ch(3) n(3) by simp
    then obtain out' w' where "next_loop chunkWriter_Next (kw_chunk chunkWriter_methods) w1 = Some (out', w')"
        "writer_state H inv S fits X b D ((out @ [ch]) @ out') w'" "cc_eof (cw_core w') = cc_eof (cw_core w1)"
        "cc_eof (cw_core w1) \<longrightarrow> (out @ [ch]) @ out' = ref_chunks X D 0"
      using less.hyps [OF _ ch(2) less.prems(2)] by blast
    then show ?thesis
      using n(1,2) True kw_chunk_core [OF ch(1)]
      by (subst next_loop.simps) (intro exI [of _ "ch # out'"] exI [of _ w'], simp)
  qed
qed

lemma kw_push_loop:
  assumes "writer_state H inv S fits X b D out w" and "1 \<le> sp_min X" and "\<not> cc_eof (cw_core w)"
    and "no_overflow X b (int (length (D @ concat ps)))"
  shows "\<exists>out' w'. push_loop chunkWriter_Write chunkWriter_Next (kw_chunk chunkWriter_methods) ps w = Some (out', w') \<and>
    writer_state H inv S fits X b (D @ concat ps) (out @ out') w' \<and> \<not> cc_eof (cw_core w')"
  using assms
proof (induction ps arbitrary: D out w)
  case (Cons p ps)
  have "no_overflow X b (int (length (D @ p)))" by (rule no_overflow_mono [OF Cons.prems(4)]) simp
  then obtain w1 where w1: "chunkWriter_Write w p = Some (int (length p), None, w1)"
      "writer_state H inv S fits X b (D @ p) out w1" "\<not> cc_eof (cw_core w1)"
    using writer_Write [OF Cons.prems(1,3)] by blast
  obtain out2 w2 where w2: "next_loop chunkWriter_Next (kw_chunk chunkWriter_methods) w1 = Some (out2, w2)"
      "writer_state H inv S fits X b (D @ p) (out @ out2) w2" "\<not> cc_eof (cw_core w2)"
    using kw_next_loop [OF w1(2) Cons.prems(2)] w1(3) by blast
  have "no_overflow X b (int (length ((D @ p) @ concat ps)))" using Cons.prems(4) by simp
  then obtain out3 w3 where "push_loop chunkWriter_Write chunkWriter_Next (kw_chunk chunkWriter_methods) ps w2 = Some (out3, w3)"
      "writer_state H inv S fits X b ((D @ p) @ concat ps) ((out @ out2) @ out3) w3" "\<not> cc_eof (cw_core w3)"
    using Cons.IH [OF w2(2) Cons.prems(2) w2(3)] by blast
  then show ?case using w1 w2 by simp
qed simp

lemma ChunkWriter_loop_ok:
  assumes h: "inv h" and X: "X = \<lparr>sp_sum = S h, sp_window = window, sp_mask = msk, sp_min = mn, sp_max = mx\<rparr>"
    and ok: "spec_ok X b" and mn: "1 \<le> mn" and fits: "fits (nat window)"
    and len: "no_overflow X b (int (length (concat ps)))"
  shows "\<exists>w w'. NewChunkWriter H h window msk [WithBoundaries mn mx, WithBatchSize b] = Some w \<and>
    ChunkWriter_loop chunkWriter_methods ps w = Some (ref_chunks X (concat ps) 0, None, w')"
proof -
  have "no_overflow X b (int (length (push_bytes [])))" by (rule no_overflow_mono [OF len]) simp
  then obtain w where w: "NewChunkWriter H h window msk [WithBoundaries mn mx, WithBatchSize b] = Some w"
      "writer_state H inv S fits X b [] [] w" "\<not> cc_eof (cw_core w)"
    using new_writer_state [OF h X ok mn fits, of "[]"] by auto
  have mn': "1 \<le> sp_min X" using mn by (simp add: X)
  obtain out w1 where w1: "push_loop chunkWriter_Write chunkWriter_Next (kw_chunk chunkWriter_methods) ps w = Some (out, w1)"
      "writer_state H inv S fits X b (concat ps) out w1" "\<not> cc_eof (cw_core w1)"
    using kw_push_loop [OF w(2) mn' w(3), of ps] len by auto
  obtain w2 where w2: "chunkWriter_Close w1 = Some (None, w2)" "writer_state H inv S fits X b (concat ps) out w2"
      "cc_eof (cw_core w2)"
    using writer_Close [OF w1(2) len] by blast
  obtain out' w3 where w3: "next_loop chunkWriter_Next (kw_chunk chunkWriter_methods) w2 = Some (out', w3)"
      "writer_state H inv S fits X b (concat ps) (out @ out') w3" "out @ out' = ref_chunks X (concat ps) 0"
    using kw_next_loop [OF w2(2) mn'] w2(3) by blast
  have "cc_err (cw_core w3) = None" using w3(2) by (auto simp: writer_state_def core_state_def)
  then show ?thesis
    using w(1) w1(1) w2(1) w3(1,3) by (simp add: ChunkWriter_loop_def) (simp add: chunkWriter_methods_def)
qed

lemma wk_next_loop:
  assumes "bwriter_state H inv S fits S0 w b D out s bw"
  shows "\<exists>out' t bw'. next_loop batchWriter_Next (wk_batch batchWriter_methods) bw = Some (out', bw') \<and>
    bwriter_state H inv S fits S0 w b D (out @ out') t bw' \<and> bc_eof (bw_core bw') = bc_eof (bw_core bw) \<and>
    (bc_eof (bw_core bw) \<longrightarrow> t = length D + 1 - w)"
  using assms
proof (induction "length D - s" arbitrary: out s bw rule: less_induct)
  case less
  obtain ok t bw1 where n: "batchWriter_Next bw = Some (ok, bw1)" "bc_eof (bw_core bw1) = bc_eof (bw_core bw)"
      "bwriter_state H inv S fits S0 w b D (out @ seen ok (bw_core bw1)) t bw1"
      "if ok then s < t \<and> t \<le> length D
       else t = s \<and> (bc_eof (bw_core bw) \<longrightarrow> s = length D + 1 - w \<and> bcore_current (bw_core bw1) = None)"
    using bwriter_Next [OF less.prems(1)] by blast
  show ?case
  proof (cases ok)
    case False
    then show ?thesis
      using n by (subst next_loop.simps) (intro exI [of _ "[]"] exI [of _ t] exI [of _ bw1], auto simp: seen_def)
  next
    case True
    obtain bt where bt: "bcore_current (bw_core bw1) = Some bt"
      using n(1) True bcore_next_emitted by (fastforce simp: batchWriter_Next_def split: bind_splits)
    have "length D - t < length D - s" using n(4) True by auto
    then obtain out' t' bw' where "next_loop batchWriter_Next (wk_batch batchWriter_methods) bw1 = Some (out', bw')"
        "bwriter_state H inv S fits S0 w b D ((out @ seen ok (bw_core bw1)) @ out') t' bw'"
        "bc_eof (bw_core bw') = bc_eof (bw_core bw1)" "bc_eof (bw_core bw1) \<longrightarrow> t' = length D + 1 - w"
      using less.hyps [OF _ n(3)] by blast
    then show ?thesis
      using n(1,2) True bt wk_batch_core [OF bt]
      by (subst next_loop.simps) (intro exI [of _ "bt # out'"] exI [of _ t'] exI [of _ bw'], simp add: seen_def)
  qed
qed

lemma wk_push_loop:
  assumes "bwriter_state H inv S fits S0 w b D out s bw" and "\<not> bc_eof (bw_core bw)"
  shows "\<exists>out' t bw'. push_loop batchWriter_Write batchWriter_Next (wk_batch batchWriter_methods) ps bw = Some (out', bw') \<and>
    bwriter_state H inv S fits S0 w b (D @ concat ps) (out @ out') t bw' \<and> \<not> bc_eof (bw_core bw')"
  using assms
proof (induction ps arbitrary: D out s bw)
  case Nil
  then show ?case by auto
next
  case (Cons p ps)
  obtain w1 where w1: "batchWriter_Write bw p = Some (int (length p), None, w1)"
      "bwriter_state H inv S fits S0 w b (D @ p) out s w1" "\<not> bc_eof (bw_core w1)"
    using bwriter_Write [OF Cons.prems] by blast
  obtain out2 t2 w2 where w2: "next_loop batchWriter_Next (wk_batch batchWriter_methods) w1 = Some (out2, w2)"
      "bwriter_state H inv S fits S0 w b (D @ p) (out @ out2) t2 w2" "\<not> bc_eof (bw_core w2)"
    using wk_next_loop [OF w1(2)] w1(3) by blast
  obtain out3 t3 w3 where "push_loop batchWriter_Write batchWriter_Next (wk_batch batchWriter_methods) ps w2 = Some (out3, w3)"
      "bwriter_state H inv S fits S0 w b ((D @ p) @ concat ps) ((out @ out2) @ out3) t3 w3" "\<not> bc_eof (bw_core w3)"
    using Cons.IH [OF w2(2,3)] by blast
  then show ?case using w1 w2 by (intro exI [of _ "out2 @ out3"] exI [of _ t3] exI [of _ w3]) simp
qed

lemma BatchWriter_loop_ok:
  assumes "inv h" and "fits w" and "1 \<le> w" and "int w \<le> b"
  shows "\<exists>bw out bw'. NewBatchWriter H h (int w) [WithBufferSize b] = Some bw \<and>
    BatchWriter_loop batchWriter_methods ps bw = Some (out, None, bw') \<and>
    batches_at (S h) w (concat ps) 0 out (length (concat ps) + 1 - w)"
proof -
  obtain c0 where c0: "newBatchRollerCore H h (int w) defaultBatchRollerBufSize = Some c0"
      "batch_state H inv S fits (S h) w b [] 0 (WithBufferSize b c0)" "bc_eof (WithBufferSize b c0) = False"
    using new_batch_core [OF assms] by blast
  define bw where "bw = \<lparr>bw_core = WithBufferSize b c0, bw_pending = []\<rparr>"
  have new: "NewBatchWriter H h (int w) [WithBufferSize b] = Some bw"
    using c0(1) by (simp add: NewBatchWriter_def bw_def)
  have st: "bwriter_state H inv S fits (S h) w b [] [] 0 bw"
    using c0 assms(3,4) by (intro bwriter_stateI [of _ "[]"]) (simp_all add: bw_def)
  obtain out t w1 where w1: "push_loop batchWriter_Write batchWriter_Next (wk_batch batchWriter_methods) ps bw = Some (out, w1)"
      "bwriter_state H inv S fits (S h) w b (concat ps) out t w1"
    using wk_push_loop [OF st, of ps] c0(3) by (auto simp: bw_def)
  obtain w2 where w2: "batchWriter_Close w1 = (None, w2)" "bwriter_state H inv S fits (S h) w b (concat ps) out t w2"
      "bc_eof (bw_core w2)"
    using bwriter_Close [OF w1(2)] by blast
  obtain out' w3 where w3: "next_loop batchWriter_Next (wk_batch batchWriter_methods) w2 = Some (out', w3)"
      "bwriter_state H inv S fits (S h) w b (concat ps) (out @ out') (length (concat ps) + 1 - w) w3"
    using wk_next_loop [OF w2(2)] w2(3) by blast
  have "bc_err (bw_core w3) = None" using w3(2) by (auto simp: bwriter_state_def batch_state_def)
  moreover have "batches_at (S h) w (concat ps) 0 (out @ out') (length (concat ps) + 1 - w)"
    using w3(2) by (auto simp: bwriter_state_def intro: batches_at_mono)
  ultimately show ?thesis
    using new w1(1) w2(1) w3(1) by (simp add: BatchWriter_loop_def) (simp add: batchWriter_methods_def)
qed

end

section \<open>Properties\<close>

text \<open>C6: Pushing and pulling agree: for every hash and reader that keep their contracts, every parameters in range
  with a minimum of at least 1, and every way to cut the stream into pieces, the loop of the comment of
  \<open>Chunker\<close> over the reader and the loop of the comment of \<open>ChunkWriter\<close> over the pieces both end without an
  error, and what the client reads through the methods (offset, bytes, how the chunk was cut, checksum)
  is in both cases the chunks of the specification.\<close>

theorem Chunker_ChunkWriter_agree:
  assumes "digest H dinv win S fits" and "byte_source rd rok left ending rank"
    and "dinv h" and "fits (nat window)" and "rok r" and "ending r = EOF" and "concat pieces = left r"
    and "X = \<lparr>sp_sum = S h, sp_window = window, sp_mask = msk, sp_min = mn, sp_max = mx\<rparr>"
    and "spec_ok X b" and "1 \<le> mn" and "no_overflow X b (int (length (left r)))"
  shows "\<exists>c c' w w'. NewChunker r H h window msk [WithBoundaries mn mx, WithBatchSize b] = Some c \<and>
    Chunker_loop (chunker_methods rd) c = Some (ref_chunks X (left r) 0, None, c') \<and>
    NewChunkWriter H h window msk [WithBoundaries mn mx, WithBatchSize b] = Some w \<and>
    ChunkWriter_loop chunkWriter_methods pieces w = Some (ref_chunks X (left r) 0, None, w')"
proof -
  obtain c out c' where c: "NewChunker r H h window msk [WithBoundaries mn mx, WithBatchSize b] = Some c"
      "chunker_drain rd c = Some (out, c')" "out = ref_chunks X (left r) 0" "cc_err (ch_core c') = None"
    using hash_stream.new_drain [OF hash_stream.intro [OF assms(1,2)] assms(3,8,9,4,5,11)] assms(6) by (auto simp: drained_def)
  have "Chunker_loop (chunker_methods rd) c = Some (ref_chunks X (left r) 0, None, c')"
    using next_loop_chunker [OF c(2)] c(3,4) by (simp add: Chunker_loop_def) (simp add: chunker_methods_def)
  then show ?thesis
    using c(1) digest.ChunkWriter_loop_ok [OF assms(1,3,8,9,10,4), of pieces] assms(7,11) by auto
qed

theorem Chunker_ChunkWriter_agree_witness:
  "\<exists>c c' w w'. NewChunker cycle4 bozo32_iface (bozo32_NewFromInt 1) 1 0xff [WithBoundaries 1 3, WithBatchSize 2] = Some c \<and>
    Chunker_loop (chunker_methods cycleReader_Read) c = Some (ref_chunks bozo32_spec [0, 1, 0, 1] 0, None, c') \<and>
    NewChunkWriter bozo32_iface (bozo32_NewFromInt 1) 1 0xff [WithBoundaries 1 3, WithBatchSize 2] = Some w \<and>
    ChunkWriter_loop chunkWriter_methods [[0, 1, 0], [], [1]] w = Some (ref_chunks bozo32_spec [0, 1, 0, 1] 0, None, w')"
proof -
  have left: "cycle_left cycle4 = [0, 1, 0, 1]" by (simp add: cycle4_def cycle_left_def numeral_eq_Suc)
  have ok: "cy_data cycle4 \<noteq> []" by (simp add: cycle4_def)
  show ?thesis
    using Chunker_ChunkWriter_agree [OF bozo32_digest.digest_axioms cycle.byte_source_axioms bozo32_New_inv(1) [of 1] TrueI
        ok refl, of "[[0, 1, 0], [], [1]]" bozo32_spec 1 "0xff" 1 3 2]
    by (simp add: left bozo32_spec_def bozo32_spec_start spec_ok_def no_overflow_def MaxInt_def)
qed

text \<open>C7: The same for the batches: for every hash and reader that keep their contracts, every buffer that holds a
  window, and every way to cut the stream into pieces, both loops end without an error, and the checksums read
  through the methods are, batch after batch, those of all windows of the stream, in order. The bytes of
  each batch are those of the stream at its offset. Only the sizes of the batches may differ.\<close>

theorem BatchRoller_BatchWriter_agree:
  assumes "digest H dinv win S fits" and "byte_source rd rok left ending rank"
    and "dinv h" and "fits w" and "1 \<le> w" and "int w \<le> b" and "rok r" and "ending r = EOF" and "concat pieces = left r"
    and "sums = map (\<lambda>i. S h (window_at w (left r) i)) [0..<length (left r) + 1 - w]"
  shows "\<exists>c out c' bw out2 bw'. NewBatchRoller r H h (int w) [WithBufferSize b] = Some c \<and>
    BatchRoller_loop (batchRoller_methods rd) c = Some (out, None, c') \<and> concat (map bt_sums out) = sums \<and>
    NewBatchWriter H h (int w) [WithBufferSize b] = Some bw \<and>
    BatchWriter_loop batchWriter_methods pieces bw = Some (out2, None, bw') \<and> concat (map bt_sums out2) = sums \<and>
    (\<forall>bt \<in> set (out @ out2). bt_bytes bt = take (length (bt_bytes bt)) (drop (nat (bt_offset bt)) (left r)))"
proof -
  obtain c out c' where c: "NewBatchRoller r H h (int w) [WithBufferSize b] = Some c" "br_drain rd c = Some (out, c')"
      "bc_err (br_core c') = None" "batches_at (S h) w (left r) 0 out (length (left r) + 1 - w)"
    using hash_stream.new_roll [OF hash_stream.intro [OF assms(1,2)] assms(3-7)] assms(8) by (auto simp: rolled_def)
  have loop: "BatchRoller_loop (batchRoller_methods rd) c = Some (out, None, c')"
    using next_loop_roller [OF c(2)] c(3) by (simp add: BatchRoller_loop_def) (simp add: batchRoller_methods_def)
  obtain bw out2 bw' where bw: "NewBatchWriter H h (int w) [WithBufferSize b] = Some bw"
      "BatchWriter_loop batchWriter_methods pieces bw = Some (out2, None, bw')"
      "batches_at (S h) w (left r) 0 out2 (length (left r) + 1 - w)"
    using digest.BatchWriter_loop_ok [OF assms(1,3-6), of pieces] assms(9) by auto
  have bytes: "bt_bytes bt = take (length (bt_bytes bt)) (drop (nat (bt_offset bt)) (left r))"
    if "batches_at (S h) w (left r) s bs t" "bt \<in> set bs" for bs s t bt
    using that by (induction bs arbitrary: s) (auto simp: batch_at_def)
  show ?thesis
    using c(1) loop bw(1,2) batches_at_sums [OF c(4)] batches_at_sums [OF bw(3)] bytes [OF c(4)] bytes [OF bw(3)]
    unfolding assms(10) by auto
qed

theorem BatchRoller_BatchWriter_agree_witness:
  "\<exists>c out c' bw out2 bw'. NewBatchRoller ([1, 2, 3], EOF) bozo32_iface (bozo32_NewFromInt 1) (int 2) [WithBufferSize 3] = Some c \<and>
    BatchRoller_loop (batchRoller_methods list_Read) c = Some (out, None, c') \<and>
    NewBatchWriter bozo32_iface (bozo32_NewFromInt 1) (int 2) [WithBufferSize 3] = Some bw \<and>
    BatchWriter_loop batchWriter_methods [[1], [2, 3]] bw = Some (out2, None, bw') \<and>
    concat (map bt_sums out) = [ucast (bozo32_hash 1 [1, 2]), ucast (bozo32_hash 1 [2, 3])] \<and>
    concat (map bt_sums out2) = concat (map bt_sums out)"
  using BatchRoller_BatchWriter_agree [OF bozo32_digest.digest_axioms list_source.byte_source_axioms bozo32_New_inv(1) [of 1] TrueI,
      where w = 2 and b = 3 and r = "([1, 2, 3], EOF)" and pieces = "[[1], [2, 3]]", OF _ _ TrueI]
  by (auto simp: bozo32_spec_start window_at_def numeral_eq_Suc)

end
