(* ===== verification/Batch_Bounds.thy ===== *)
theory Batch_Bounds
  imports Batching
begin

text \<open>
  What \<open>WithBufferSize\<close> of batchroller.go does to the batches: the size given bounds the bytes of a batch
  when it holds a window, and below the window no batch comes out. The lemmas go by induction over the
  calls of \<open>Next\<close>.
\<close>

section \<open>The size is an upper bound\<close>

lemma bcore_advance_size: "bcore_advance c = Some c' \<Longrightarrow> bc_batchSize c' = bc_batchSize c"
  by (auto simp: bcore_advance_def split: if_splits bind_splits)

lemma bcore_batch_size:
  assumes "bcore_batch c = Some c'"
  shows "bc_batchSize c' = bc_batchSize c \<and> (\<exists>data. bc_data c' = Some data \<and> int (length data) \<le> bc_batchSize c)"
proof -
  obtain data where "go_slice (bc_buf c) 0 (min (int (length (bc_buf c))) (bc_batchSize c)) = Some data" "bc_data c' = Some data"
      "bc_batchSize c' = bc_batchSize c"
    using assms by (auto simp: bcore_batch_def bcore_commit_def Let_def split: bind_splits if_splits)
  then show ?thesis by (auto simp: go_slice_def split: if_splits)
qed

lemma bcore_next_size:
  assumes "bcore_next c = Some (st, c')"
  shows "bc_batchSize c' = bc_batchSize c \<and>
    (st = emitted \<longrightarrow> (\<exists>data. bc_data c' = Some data \<and> int (length data) \<le> bc_batchSize c))"
  using assms bcore_advance_size bcore_batch_size
  by (fastforce simp: bcore_next_def no_batch_def split: if_splits bind_splits)

lemma br_fillCore_size: "br_fillCore rd s = Some (again, s') \<Longrightarrow> bc_batchSize (br_core s') = bc_batchSize (br_core s)"
  by (auto simp: br_fillCore_def bcore_readTail_def bcore_commitTail_def bcore_finish_def Let_def
      split: if_splits bind_splits option.splits)

definition batch_bounded :: "int \<Rightarrow> ('d, 'r) batchRoller \<Rightarrow> bool" where
  "batch_bounded b s \<longleftrightarrow> (\<forall>bt. bcore_current (br_core s) = Some bt \<longrightarrow> int (length (bt_bytes bt)) \<le> b)"

lemma batchRoller_Next_size:
  assumes "batchRoller_Next rd s = Some y"
  shows "bc_batchSize (br_core (snd y)) = bc_batchSize (br_core s) \<and> (fst y \<longrightarrow> batch_bounded (bc_batchSize (br_core s)) (snd y))"
proof (rule batchRoller_Next.raw_induct [OF _ assms, where P = "\<lambda>rd s y.
    bc_batchSize (br_core (snd y)) = bc_batchSize (br_core s) \<and> (fst y \<longrightarrow> batch_bounded (bc_batchSize (br_core s)) (snd y))"])
  fix next_rec :: "'r reader \<Rightarrow> ('d, 'r) batchRoller \<Rightarrow> (bool \<times> ('d, 'r) batchRoller) option" and rd s y
  assume IH: "\<And>rd s y. next_rec rd s = Some y \<Longrightarrow> bc_batchSize (br_core (snd y)) = bc_batchSize (br_core s) \<and>
      (fst y \<longrightarrow> batch_bounded (bc_batchSize (br_core s)) (snd y))"
    and body: "(do {
     (st, core) \<leftarrow> bcore_next (br_core s);
     let s = s\<lparr>br_core := core\<rparr>;
     case st of
       emitted \<Rightarrow> Some (True, s)
     | coreDone \<Rightarrow> Some (False, s)
     | needMore \<Rightarrow> do {
         (again, s) \<leftarrow> br_fillCore rd s;
         if \<not> again \<and> bc_err (br_core s) \<noteq> None then Some (False, s)
         else next_rec rd s
       }
   }) = Some y"
  show "bc_batchSize (br_core (snd y)) = bc_batchSize (br_core s) \<and> (fst y \<longrightarrow> batch_bounded (bc_batchSize (br_core s)) (snd y))"
  proof (cases "bcore_next (br_core s)")
    case None
    then show ?thesis using body by simp
  next
    case (Some res)
    obtain st core where st: "bcore_next (br_core s) = Some (st, core)" using Some by (cases res) simp
    note size = bcore_next_size [OF st]
    show ?thesis
    proof (cases st)
      case needMore
      obtain again s1 where f: "br_fillCore rd (s\<lparr>br_core := core\<rparr>) = Some (again, s1)"
        using body st needMore by (auto simp: Let_def split: bind_splits)
      have "bc_batchSize (br_core s1) = bc_batchSize (br_core s)" using br_fillCore_size [OF f] size by simp
      then show ?thesis using body st needMore f IH [of rd s1 y] by (auto simp: Let_def split: if_splits)
    next
      case emitted
      then show ?thesis using body st size
        by (auto simp: Let_def batch_bounded_def bcore_current_def split: bind_splits)
    next
      case coreDone
      then show ?thesis using body st size by (auto simp: Let_def)
    qed
  qed
qed

lemma br_drain_size:
  assumes "br_drain rd s = Some y"
  shows "\<forall>bt \<in> set (fst y). int (length (bt_bytes bt)) \<le> bc_batchSize (br_core s)"
proof (rule br_drain.raw_induct [OF _ assms, where P = "\<lambda>rd s y. \<forall>bt \<in> set (fst y). int (length (bt_bytes bt)) \<le> bc_batchSize (br_core s)"])
  fix drain :: "'r reader \<Rightarrow> ('d, 'r) batchRoller \<Rightarrow> (batch list \<times> ('d, 'r) batchRoller) option" and rd s y
  assume IH: "\<And>rd s y. drain rd s = Some y \<Longrightarrow> \<forall>bt \<in> set (fst y). int (length (bt_bytes bt)) \<le> bc_batchSize (br_core s)"
    and body: "(do {
       (ok, s) \<leftarrow> batchRoller_Next rd s;
       if ok then do {
         (out, s') \<leftarrow> drain rd s;
         Some ((case bcore_current (br_core s) of Some b \<Rightarrow> [b] | None \<Rightarrow> []) @ out, s')
       } else Some ([], s)
     }) = Some y"
  obtain ok s1 where n: "batchRoller_Next rd s = Some (ok, s1)" using body by (auto split: bind_splits)
  show "\<forall>bt \<in> set (fst y). int (length (bt_bytes bt)) \<le> bc_batchSize (br_core s)"
    using body n batchRoller_Next_size [OF n] IH [of rd s1]
    by (fastforce simp: batch_bounded_def split: if_splits bind_splits option.splits)
qed

section \<open>Below the window nothing comes out\<close>

lemma batches_at_shape:
  "batches_at S w P s bs t \<Longrightarrow>
   \<forall>bt \<in> set bs. w \<le> length (bt_bytes bt) \<and> length (bt_sums bt) = length (bt_bytes bt) - w + 1"
  by (induction bs arbitrary: s) (auto simp: batch_at_def simp del: upt_Suc)

text \<open>The state that such a roller is in: the buffer and the reader hold a window, and each batch leaves the
  buffer as it was.\<close>

definition starved :: "('r \<Rightarrow> bool) \<Rightarrow> ('r \<Rightarrow> byte list) \<Rightarrow> ('r \<Rightarrow> gerror) \<Rightarrow> nat \<Rightarrow> int \<Rightarrow> ('d, 'r) batchRoller \<Rightarrow> bool" where
  "starved rok left ending w b s \<longleftrightarrow>
     (let c = br_core s in
      bc_err c = None \<and> \<not> bc_done c \<and> bc_window c = int w \<and> bc_batchSize c = b \<and> br_readSize s = b \<and> b < int w \<and>
      (0 < bc_prevN c \<longrightarrow> bc_prevN c = bc_carry c) \<and> rok (br_r s) \<and> ending (br_r s) = EOF \<and>
      w \<le> length (bc_buf c) + length (left (br_r s)) \<and> (bc_eof c \<longrightarrow> left (br_r s) = []))"

lemma starved_next:
  assumes st: "starved rok left ending w b s" and nx: "bcore_next (br_core s) = Some (res, c')"
  shows "starved rok left ending w b (s\<lparr>br_core := c'\<rparr>) \<and> (res = emitted \<or> res = needMore \<and> \<not> bc_eof c')"
proof -
  define c where "c = br_core s"
  have c: "bc_err c = None" "\<not> bc_done c" "bc_window c = int w" "bc_batchSize c = b" "b < int w"
    "0 < bc_prevN c \<Longrightarrow> bc_prevN c = bc_carry c" "bc_eof c \<Longrightarrow> left (br_r s) = []"
    "w \<le> length (bc_buf c) + length (left (br_r s))" "br_readSize s = b" "rok (br_r s)" "ending (br_r s) = EOF"
    using st by (simp_all add: starved_def Let_def c_def)
  define c1 where "c1 = c\<lparr>bc_prevN := (if bc_prevN c > 0 then 0 else bc_prevN c)\<rparr>"
  have adv: "bcore_advance c = Some c1"
    using c(6) by (simp add: bcore_advance_def c1_def go_slice_def)
  have nx': "bcore_next c = Some (res, c')" using nx by (simp add: c_def)
  show ?thesis
  proof (cases "length (bc_buf c) < w")
    case True
    then have "\<not> bc_eof c" using c(7,8) by auto
    then have "res = needMore" "c' = c1" using nx' adv True c(1-3) by (simp_all add: bcore_next_def c1_def)
    then show ?thesis using \<open>\<not> bc_eof c\<close> c by (simp add: starved_def c1_def)
  next
    case False
    then obtain c2 where b2: "bcore_batch c1 = Some c2" "res = emitted" "c' = c2"
      using nx' adv c(1-3) by (auto simp: bcore_next_def c1_def split: bind_splits)
    have n: "min (int (length (bc_buf c1))) (bc_batchSize c1) = b" using False c(4,5) by (simp add: c1_def)
    obtain data sums dst where parts: "go_slice (sums_store c1 (b - int w + 1)) 0 (b - int w + 1) = Some dst"
      "c2 = bcore_commit (c1\<lparr>bc_data := Some data, bc_sums := Some sums,
          bc_sumsStore := sums @ drop (nat (b - int w + 1)) (sums_store c1 (b - int w + 1))\<rparr>) b"
      using b2(1) c(3) unfolding bcore_batch_def n Let_def by (auto simp: c1_def split: bind_splits)
    have "b = int w - 1" using parts(1) c(5) by (auto simp: go_slice_def split: if_splits)
    moreover have "b \<noteq> int (length (bc_buf c))" using False c(5) by simp
    ultimately show ?thesis using b2 parts(2) c False
      by (simp add: starved_def Let_def bcore_commit_def c1_def)
  qed
qed

context byte_source
begin

lemma starved_fill:
  assumes st: "starved ok left ending w b s" and eof: "\<not> bc_eof (br_core s)" and f: "br_fillCore rd s = Some (again, s')"
  shows "starved ok left ending w b s'"
proof -
  have s: "bc_err (br_core s) = None" "br_readSize s = b" "ok (br_r s)" "ending (br_r s) = EOF"
    "w \<le> length (bc_buf (br_core s)) + length (left (br_r s))"
    using st by (simp_all add: starved_def Let_def)
  obtain got e err r' where rb: "read_block rd (br_r s) (nat b) [] = Some (got, e, err, r')" "ok r'"
      "left (br_r s) = got @ left r'" "ending r' = EOF"
    and ends: "if e then err = None \<and> left r' = []
     else if err = None then True else False"
    using read_block_ok [OF s(3), of "[]" "nat b", unfolded append_Nil s(4)] by (auto split: if_splits)
  have "err = None" using ends by (auto split: if_splits)
  then have "s' = s\<lparr>br_r := r', br_core := (if e then bcore_finish else id) (bcore_commitTail (br_core s) got)\<rparr>"
    using f eof rb(1) s(2) by (auto simp: br_fillCore_def bcore_readTail_def Let_def split: if_splits)
  then show ?thesis
    using st rb(2-4) ends eof by (auto simp: starved_def Let_def bcore_commitTail_def bcore_finish_def split: if_splits)
qed

lemma starved_Next:
  assumes "batchRoller_Next rd s = Some y" and "starved ok left ending w b s"
  shows "fst y \<and> starved ok left ending w b (snd y)"
proof -
  have "starved ok left ending w b s \<longrightarrow> (rd' = rd \<longrightarrow> fst y \<and> starved ok left ending w b (snd y))"
    if "batchRoller_Next rd' s = Some y" for rd' y and s :: "('x, 'r) batchRoller"
  proof (rule batchRoller_Next.raw_induct [OF _ that, where P = "\<lambda>rd' s y. starved ok left ending w b s \<longrightarrow>
      (rd' = rd \<longrightarrow> fst y \<and> starved ok left ending w b (snd y))"], intro impI)
    fix next_rec :: "'r reader \<Rightarrow> ('x, 'r) batchRoller \<Rightarrow> (bool \<times> ('x, 'r) batchRoller) option" and rd' s y
    assume IH: "\<And>rd' s y. next_rec rd' s = Some y \<Longrightarrow> starved ok left ending w b s \<longrightarrow>
        (rd' = rd \<longrightarrow> fst y \<and> starved ok left ending w b (snd y))"
      and body: "(do {
       (st, core) \<leftarrow> bcore_next (br_core s);
       let s = s\<lparr>br_core := core\<rparr>;
       case st of
         emitted \<Rightarrow> Some (True, s)
       | coreDone \<Rightarrow> Some (False, s)
       | needMore \<Rightarrow> do {
           (again, s) \<leftarrow> br_fillCore rd' s;
           if \<not> again \<and> bc_err (br_core s) \<noteq> None then Some (False, s)
           else next_rec rd' s
         }
     }) = Some y"
      and st: "starved ok left ending w b s" and rd: "rd' = rd"
    obtain res core where nx: "bcore_next (br_core s) = Some (res, core)"
      using body by (auto split: bind_splits)
    note n = starved_next [OF st nx]
    show "fst y \<and> starved ok left ending w b (snd y)"
    proof (cases "res = emitted")
      case True
      then show ?thesis using body nx n by (auto simp: Let_def)
    next
      case False
      then have more: "res = needMore" "\<not> bc_eof core" using n by auto
      obtain again s1 where f: "br_fillCore rd (s\<lparr>br_core := core\<rparr>) = Some (again, s1)"
        using body nx more(1) rd by (auto simp: Let_def split: bind_splits)
      have s1: "starved ok left ending w b s1" using starved_fill [OF conjunct1 [OF n] _ f] more(2) by simp
      then have "bc_err (br_core s1) = None" by (simp add: starved_def Let_def)
      then have "next_rec rd s1 = Some y" using body nx more(1) rd f by (auto simp: Let_def)
      then show ?thesis using IH s1 by blast
    qed
  qed
  then show ?thesis using assms by blast
qed

lemma starved_drain:
  assumes "starved ok left ending w b s"
  shows "br_drain rd s = None"
proof (rule ccontr)
  assume "br_drain rd s \<noteq> None"
  then obtain y where y: "br_drain rd s = Some y" by blast
  have "rd' = rd \<longrightarrow> \<not> starved ok left ending w b s" if "br_drain rd' s = Some y" for rd' y and s :: "('x, 'r) batchRoller"
  proof (rule br_drain.raw_induct [OF _ that, where P = "\<lambda>rd' s y. rd' = rd \<longrightarrow> \<not> starved ok left ending w b s"], intro impI notI)
    fix drain :: "'r reader \<Rightarrow> ('x, 'r) batchRoller \<Rightarrow> (batch list \<times> ('x, 'r) batchRoller) option" and rd' s y
    assume IH: "\<And>rd' s y. drain rd' s = Some y \<Longrightarrow> rd' = rd \<longrightarrow> \<not> starved ok left ending w b s"
      and body: "(do {
         (ok, s) \<leftarrow> batchRoller_Next rd' s;
         if ok then do {
           (out, s') \<leftarrow> drain rd' s;
           Some ((case bcore_current (br_core s) of Some b \<Rightarrow> [b] | None \<Rightarrow> []) @ out, s')
         } else Some ([], s)
       }) = Some y"
      and rd: "rd' = rd" and st: "starved ok left ending w b s"
    obtain go s1 where n: "batchRoller_Next rd s = Some (go, s1)" using body rd by (auto split: bind_splits)
    have "go" "starved ok left ending w b s1" using starved_Next [OF n st] by simp_all
    moreover from this obtain z where "drain rd s1 = Some z" using body n rd by (auto split: bind_splits)
    ultimately show False using IH by blast
  qed
  then show False using y assms by blast
qed

end

context hash_stream
begin

lemma roller_bounds:
  assumes h: "inv h" "fits w" "1 \<le> w" and r: "rok r" "ending r = EOF" "w \<le> length (left r)"
  shows "\<exists>c. NewBatchRoller r H h (int w) [WithBufferSize b] = Some c \<and>
    (if int w \<le> b
     then \<exists>out c'. br_drain rd c = Some (out, c') \<and> out \<noteq> [] \<and>
       (\<forall>bt \<in> set out. w \<le> length (bt_bytes bt) \<and> int (length (bt_bytes bt)) \<le> b \<and>
         length (bt_sums bt) = length (bt_bytes bt) - w + 1)
     else br_drain rd c = None)"
proof (cases "int w \<le> b")
  case True
  obtain c out c' where c: "NewBatchRoller r H h (int w) [WithBufferSize b] = Some c" "br_drain rd c = Some (out, c')"
      "batches_at (S h) w (left r) 0 out (length (left r) + 1 - w)"
    using new_roll [OF h True r(1)] r(2) by (auto simp: rolled_def)
  have "out \<noteq> []" using c(3) r(3) by auto
  moreover have "bc_batchSize (br_core c) = b"
    using c(1) by (auto simp: NewBatchRoller_def WithBufferSize_def split: bind_splits)
  moreover have "\<forall>bt \<in> set out. w \<le> length (bt_bytes bt) \<and> length (bt_sums bt) = length (bt_bytes bt) - w + 1"
    using batches_at_shape [OF c(3)] .
  ultimately show ?thesis using True c(1,2) br_drain_size [OF c(2)] by auto
next
  case False
  obtain c0 where c0: "newBatchRollerCore H h (int w) defaultBatchRollerBufSize = Some c0"
    using new_batch_core [OF h(1,2,3), of "int w"] by auto
  define c where "c = \<lparr>br_core = WithBufferSize b c0, br_r = r, br_readSize = b\<rparr>"
  have "NewBatchRoller r H h (int w) [WithBufferSize b] = Some c"
    using c0 by (simp add: NewBatchRoller_def c_def WithBufferSize_def)
  moreover have "starved rok left ending w b c"
    using c0 False r by (auto simp: starved_def c_def newBatchRollerCore_def WithBufferSize_def split: bind_splits)
  ultimately show ?thesis using False starved_drain by auto
qed

end

section \<open>Properties\<close>

text \<open>C13: The size given to \<open>WithBufferSize\<close> bounds every batch when it is at least the window: each batch has at
  least a window and at most that many bytes, and one sum for each window among them. A size below the
  window is not caught: on every stream that has a window, the loop over \<open>Next\<close> panics or does not end,
  for every hash and reader that keep their contracts.\<close>

theorem BatchRoller_buffer_bounds:
  assumes "digest H dinv win S fits" and "byte_source rd rok left ending rank"
    and "dinv h" and "fits w" and "1 \<le> w" and "rok r" and "ending r = EOF" and "w \<le> length (left r)"
  shows "\<exists>c. NewBatchRoller r H h (int w) [WithBufferSize b] = Some c \<and>
    (if int w \<le> b
     then \<exists>out c'. br_drain rd c = Some (out, c') \<and> out \<noteq> [] \<and>
       (\<forall>bt \<in> set out. w \<le> length (bt_bytes bt) \<and> int (length (bt_bytes bt)) \<le> b \<and>
         length (bt_sums bt) = length (bt_bytes bt) - w + 1)
     else br_drain rd c = None)"
  by (rule hash_stream.roller_bounds [OF hash_stream.intro [OF assms(1,2)] assms(3-8)])

theorem BatchRoller_buffer_bounds_witness:
  "(\<exists>c. NewBatchRoller ([1, 2, 3], EOF) bozo32_iface (bozo32_NewFromInt 3) (int 2) [WithBufferSize 1] = Some c \<and>
      br_drain list_Read c = None) \<and>
   (\<exists>c out c'. NewBatchRoller ([1, 2, 3], EOF) bozo32_iface (bozo32_NewFromInt 3) (int 2) [WithBufferSize 2] = Some c \<and>
      br_drain list_Read c = Some (out, c') \<and> out \<noteq> [] \<and> (\<forall>bt \<in> set out. length (bt_bytes bt) = 2))"
proof -
  note bounds = BatchRoller_buffer_bounds [OF bozo32_digest.digest_axioms list_source.byte_source_axioms
      bozo32_New_inv(1) [of 3] TrueI _ TrueI, of 2 "([1, 2, 3], EOF)"]
  show ?thesis using bounds [of 1] bounds [of 2] by (fastforce simp del: of_nat_numeral)
qed

end
