(* ===== verification/Prefetch.thy ===== *)
theory Prefetch
  imports Readers
begin

text \<open>
  \<open>prefetchReader\<close> of rollstat/main.go: a goroutine fills two buffers in turn from a reader and
  hands them to the caller of \<open>Read\<close> over the channel \<open>forward\<close>; the caller gives them back over
  \<open>free\<close>. A slice that travels over a channel is the number of its buffer and its length; the bytes
  are in a shared memory, so that a buffer that is filled again while somebody still reads it would show.
  A step is the goroutine or the caller moving. The theorems say that the caller gets the bytes of
  the source in order, whatever the interleaving, and that every call returns until the end of the
  stream was reported once; a counterexample shows that later calls can block for ever.
\<close>

section \<open>The two sides\<close>

text \<open>The places of the goroutine: before it takes a buffer, in \<open>io.ReadFull\<close> with so many bytes in the
  buffer, before it sends, after it has sent, returning (with \<open>pr.err\<close> set), and gone. Those of the
  caller: outside \<open>Read\<close>, at the head of its loop with a buffer of so many bytes to fill, and receiving.\<close>

datatype producer =
    Pr_take
  | Pr_fill nat nat
  | Pr_send nat nat "gerror option"
  | Pr_sent "gerror option"
  | Pr_return
  | Pr_gone

datatype consumer = Co_idle | Co_loop nat | Co_recv nat

record 'r prefetchReader =
  pf_src :: 'r
  pf_mem :: "nat \<Rightarrow> byte list"
  pf_free :: "nat list"
  pf_forward :: "(nat \<times> nat) list"
  pf_closed :: bool
  pf_err :: "gerror option"
  pf_producer :: producer
  pf_cur :: "(nat \<times> nat) option"
  pf_pos :: nat
  pf_consumer :: consumer
  pf_results :: "(byte list \<times> gerror option) list"

text \<open>Both buffers start in \<open>free\<close>. \<open>pf_results\<close> collects what the calls of \<open>Read\<close> have returned.\<close>

definition newPrefetchReader :: "'r \<Rightarrow> nat \<Rightarrow> 'r prefetchReader" where
  "newPrefetchReader r chunkSize =
     \<lparr>pf_src = r, pf_mem = (\<lambda>_. replicate chunkSize 0), pf_free = [0, 1], pf_forward = [], pf_closed = False,
      pf_err = None, pf_producer = Pr_take, pf_cur = None, pf_pos = 0, pf_consumer = Co_idle, pf_results = []\<rparr>"

text \<open>What \<open>io.ReadFull\<close> returns when the reader reports \<open>e\<close> and \<open>n\<close> bytes are in the buffer.\<close>

definition full_error :: "nat \<Rightarrow> nat \<Rightarrow> gerror \<Rightarrow> gerror option" where
  "full_error want n e =
     (if want \<le> n then None else if 0 < n \<and> e = EOF then Some ErrUnexpectedEOF else Some e)"

definition overwrite :: "byte list \<Rightarrow> nat \<Rightarrow> byte list \<Rightarrow> byte list" where
  "overwrite bs k got = take k bs @ got @ drop (k + length got) bs"

definition pf_put :: "'r prefetchReader \<Rightarrow> nat \<Rightarrow> nat \<Rightarrow> byte list \<Rightarrow> nat \<Rightarrow> byte list" where
  "pf_put s b k got = (pf_mem s)(b := overwrite (pf_mem s b) k got)"

text \<open>\<open>len(pr.cur)\<close>, and the bytes \<open>pr.cur[pr.pos:]\<close>.\<close>

definition pf_len :: "(nat \<times> nat) option \<Rightarrow> nat" where
  "pf_len cur = (case cur of None \<Rightarrow> 0 | Some (b, n) \<Rightarrow> n)"

definition pf_rest :: "(nat \<Rightarrow> byte list) \<Rightarrow> (nat \<times> nat) option \<Rightarrow> nat \<Rightarrow> byte list" where
  "pf_rest mem cur pos = (case cur of None \<Rightarrow> [] | Some (b, n) \<Rightarrow> drop pos (take n (mem b)))"

section \<open>The steps\<close>

text \<open>The goroutine. A buffered channel can be sent to while it is not full: \<open>forward\<close> holds one slice.\<close>

inductive pf_produce :: "'r reader \<Rightarrow> nat \<Rightarrow> 'r prefetchReader \<Rightarrow> 'r prefetchReader \<Rightarrow> bool" for rd chunkSize where
  take_buffer: "pf_producer s = Pr_take \<Longrightarrow> pf_free s = b # rest \<Longrightarrow>
    pf_produce rd chunkSize s (s\<lparr>pf_free := rest, pf_producer := Pr_fill b 0\<rparr>)"
| fill: "pf_producer s = Pr_fill b k \<Longrightarrow> k < chunkSize \<Longrightarrow> rd (pf_src s) (chunkSize - k) = (got, None, r) \<Longrightarrow>
    pf_produce rd chunkSize s (s\<lparr>pf_src := r, pf_mem := pf_put s b k got, pf_producer := Pr_fill b (k + length got)\<rparr>)"
| fill_error: "pf_producer s = Pr_fill b k \<Longrightarrow> k < chunkSize \<Longrightarrow> rd (pf_src s) (chunkSize - k) = (got, Some e, r) \<Longrightarrow>
    pf_produce rd chunkSize s (s\<lparr>pf_src := r, pf_mem := pf_put s b k got,
      pf_producer := Pr_send b (k + length got) (full_error chunkSize (k + length got) e)\<rparr>)"
| filled_up: "pf_producer s = Pr_fill b k \<Longrightarrow> chunkSize \<le> k \<Longrightarrow>
    pf_produce rd chunkSize s (s\<lparr>pf_producer := Pr_send b k None\<rparr>)"
| send: "pf_producer s = Pr_send b n err \<Longrightarrow> 0 < n \<Longrightarrow> length (pf_forward s) < 1 \<Longrightarrow>
    pf_produce rd chunkSize s (s\<lparr>pf_forward := pf_forward s @ [(b, n)], pf_producer := Pr_sent err\<rparr>)"
| send_nothing: "pf_producer s = Pr_send b 0 err \<Longrightarrow>
    pf_produce rd chunkSize s (s\<lparr>pf_producer := Pr_sent err\<rparr>)"
| again: "pf_producer s = Pr_sent None \<Longrightarrow>
    pf_produce rd chunkSize s (s\<lparr>pf_producer := Pr_take\<rparr>)"
| stop: "pf_producer s = Pr_sent (Some e) \<Longrightarrow>
    pf_produce rd chunkSize s (s\<lparr>pf_err := Some e, pf_producer := Pr_return\<rparr>)"
| close_forward: "pf_producer s = Pr_return \<Longrightarrow>
    pf_produce rd chunkSize s (s\<lparr>pf_closed := True, pf_producer := Pr_gone\<rparr>)"

text \<open>The caller inside \<open>Read\<close>. \<open>free\<close> holds two buffers.\<close>

inductive pf_consume :: "'r prefetchReader \<Rightarrow> 'r prefetchReader \<Rightarrow> bool" where
  copy: "pf_consumer s = Co_loop n \<Longrightarrow> pf_pos s < pf_len (pf_cur s) \<Longrightarrow> got = take n (pf_rest (pf_mem s) (pf_cur s) (pf_pos s)) \<Longrightarrow>
    pf_consume s (s\<lparr>pf_pos := pf_pos s + length got, pf_consumer := Co_idle, pf_results := pf_results s @ [(got, None)]\<rparr>)"
| give_back: "pf_consumer s = Co_loop n \<Longrightarrow> pf_len (pf_cur s) \<le> pf_pos s \<Longrightarrow> pf_cur s = Some (b, m) \<Longrightarrow> length (pf_free s) < 2 \<Longrightarrow>
    pf_consume s (s\<lparr>pf_free := pf_free s @ [b], pf_consumer := Co_recv n\<rparr>)"
| no_buffer: "pf_consumer s = Co_loop n \<Longrightarrow> pf_cur s = None \<Longrightarrow>
    pf_consume s (s\<lparr>pf_consumer := Co_recv n\<rparr>)"
| receive: "pf_consumer s = Co_recv n \<Longrightarrow> pf_forward s = c # rest \<Longrightarrow>
    pf_consume s (s\<lparr>pf_forward := rest, pf_cur := Some c, pf_pos := 0, pf_consumer := Co_loop n\<rparr>)"
| receive_closed: "pf_consumer s = Co_recv n \<Longrightarrow> pf_forward s = [] \<Longrightarrow> pf_closed s \<Longrightarrow>
    e = (if pf_err s \<noteq> None \<and> pf_err s \<noteq> Some ErrUnexpectedEOF then pf_err s else Some EOF) \<Longrightarrow>
    pf_consume s (s\<lparr>pf_consumer := Co_idle, pf_results := pf_results s @ [([], e)]\<rparr>)"

text \<open>A step inside: the goroutine or a running call. A step of the system: also a new call of \<open>Read\<close>,
  with a buffer of any length.\<close>

definition pf_inside :: "'r reader \<Rightarrow> nat \<Rightarrow> 'r prefetchReader \<Rightarrow> 'r prefetchReader \<Rightarrow> bool" where
  "pf_inside rd chunkSize s s' \<longleftrightarrow> pf_produce rd chunkSize s s' \<or> pf_consume s s'"

inductive pf_step :: "'r reader \<Rightarrow> nat \<Rightarrow> 'r prefetchReader \<Rightarrow> 'r prefetchReader \<Rightarrow> bool" for rd chunkSize where
  inside: "pf_inside rd chunkSize s s' \<Longrightarrow> pf_step rd chunkSize s s'"
| Read: "pf_consumer s = Co_idle \<Longrightarrow> pf_step rd chunkSize s (s\<lparr>pf_consumer := Co_loop n\<rparr>)"

definition pf_reachable :: "'r reader \<Rightarrow> nat \<Rightarrow> 'r \<Rightarrow> 'r prefetchReader \<Rightarrow> bool" where
  "pf_reachable rd chunkSize r s \<longleftrightarrow> (pf_step rd chunkSize)\<^sup>*\<^sup>* (newPrefetchReader r chunkSize) s"

section \<open>What the goroutine needs of its reader\<close>

text \<open>It asks for whole buffers and for what is missing in a buffer. A reader only has to keep the contract of
  \<open>io.Reader\<close> for such calls: \<open>call r n\<close> says that it does in state \<open>r\<close> for a buffer of length \<open>n\<close>.\<close>

locale block_source =
  fixes rd :: "'r reader"
    and call :: "'r \<Rightarrow> nat \<Rightarrow> bool"
    and ok :: "'r \<Rightarrow> bool"
    and left :: "'r \<Rightarrow> byte list"
    and ending :: "'r \<Rightarrow> gerror"
    and rank :: "'r \<Rightarrow> nat"
    and B :: nat
  assumes size: "0 < B"
    and call_start: "ok r \<Longrightarrow> call r B"
    and call_rest: "ok r \<Longrightarrow> call r n \<Longrightarrow> rd r n = (got, None, r') \<Longrightarrow> length got < n \<Longrightarrow> call r' (n - length got)"
    and read_ok: "ok r \<Longrightarrow> call r n \<Longrightarrow> rd r n = (got, err, r') \<Longrightarrow>
      ok r' \<and> length got \<le> n \<and> left r = got @ left r' \<and> ending r' = ending r"
    and read_end: "ok r \<Longrightarrow> call r n \<Longrightarrow> rd r n = (got, Some e, r') \<Longrightarrow> left r' = [] \<and> e = ending r"
    and read_progress: "ok r \<Longrightarrow> call r n \<Longrightarrow> 0 < n \<Longrightarrow> rd r n = ([], None, r') \<Longrightarrow> rank r' < rank r"

lemma byte_source_blocks:
  assumes "byte_source rd ok left ending rank" and "0 < B"
  shows "block_source rd (\<lambda>_ _. True) ok left ending rank B"
  using assms byte_source.read_ok [OF assms(1)] byte_source.read_end [OF assms(1)] byte_source.read_progress [OF assms(1)]
  by (intro block_source.intro) blast+

section \<open>The invariant\<close>

text \<open>Where the buffers and their bytes are: with the goroutine, in \<open>forward\<close>, with the caller, in \<open>free\<close>.
  While it receives, the caller has given its buffer back; after it has reported an error, \<open>cur\<close> may be
  a buffer that is in \<open>free\<close> as well, and is only looked at for its length.\<close>

fun pf_hand :: "producer \<Rightarrow> (nat \<times> nat) list" where
  "pf_hand (Pr_fill b k) = [(b, k)]"
| "pf_hand (Pr_send b n err) = [(b, n)]"
| "pf_hand _ = []"

fun pf_held :: "consumer \<Rightarrow> (nat \<times> nat) option \<Rightarrow> (nat \<times> nat) list" where
  "pf_held (Co_recv n) cur = []"
| "pf_held _ None = []"
| "pf_held _ (Some c) = [c]"

definition pf_owned :: "'r prefetchReader \<Rightarrow> nat list" where
  "pf_owned s = pf_free s @ map fst (pf_hand (pf_producer s) @ pf_forward s @ pf_held (pf_consumer s) (pf_cur s))"

definition pf_slice :: "(nat \<Rightarrow> byte list) \<Rightarrow> nat \<times> nat \<Rightarrow> byte list" where
  "pf_slice mem c = take (snd c) (mem (fst c))"

definition pf_spent :: "'r prefetchReader \<Rightarrow> bool" where
  "pf_spent s \<longleftrightarrow> (\<exists>bs e. (bs, Some e) \<in> set (pf_results s))"

definition pf_final :: "gerror \<Rightarrow> gerror" where
  "pf_final e = (if e = ErrUnexpectedEOF then EOF else e)"

definition pf_pending :: "gerror \<Rightarrow> byte list \<Rightarrow> gerror option \<Rightarrow> bool" where
  "pf_pending e rest err \<longleftrightarrow> (\<forall>e'. err = Some e' \<longrightarrow> rest = [] \<and> (e' = e \<or> e' = ErrUnexpectedEOF \<and> e = EOF))"

fun pf_phase :: "gerror \<Rightarrow> byte list \<Rightarrow> producer \<Rightarrow> gerror option \<Rightarrow> bool" where
  "pf_phase e rest (Pr_send b n err) perr = (pf_pending e rest err \<and> perr = None)"
| "pf_phase e rest (Pr_sent err) perr = (pf_pending e rest err \<and> perr = None)"
| "pf_phase e rest Pr_return perr = (pf_pending e rest perr \<and> perr \<noteq> None)"
| "pf_phase e rest Pr_gone perr = (pf_pending e rest perr \<and> perr \<noteq> None)"
| "pf_phase e rest _ perr = (perr = None)"

definition pf_data :: "'r prefetchReader \<Rightarrow> byte list" where
  "pf_data s = concat (map fst (pf_results s)) @ pf_rest (pf_mem s) (pf_cur s) (pf_pos s) @
     concat (map (pf_slice (pf_mem s)) (pf_forward s @ pf_hand (pf_producer s)))"

definition pf_bounded :: "nat \<Rightarrow> 'r prefetchReader \<Rightarrow> bool" where
  "pf_bounded B s \<longleftrightarrow> (\<forall>b. length (pf_mem s b) = B) \<and>
     (\<forall>c \<in> set (pf_hand (pf_producer s) @ pf_forward s). snd c \<le> B) \<and> pf_len (pf_cur s) \<le> B \<and>
     (\<forall>b n. pf_producer s = Pr_send b n None \<longrightarrow> n \<noteq> 0)"

definition pf_order :: "gerror \<Rightarrow> 'r prefetchReader \<Rightarrow> bool" where
  "pf_order e s \<longleftrightarrow>
     (pf_closed s \<longleftrightarrow> pf_producer s = Pr_gone) \<and>
     (\<forall>n. pf_consumer s = Co_recv n \<longrightarrow> pf_len (pf_cur s) \<le> pf_pos s) \<and>
     (pf_spent s \<longrightarrow> pf_len (pf_cur s) \<le> pf_pos s \<and> pf_closed s \<and> pf_forward s = []) \<and>
     (pf_cur s = None \<longrightarrow> pf_pos s = 0) \<and>
     (\<forall>bs e'. (bs, Some e') \<in> set (pf_results s) \<longrightarrow> bs = [] \<and> e' = pf_final e)"

text \<open>Whether the goroutine can still fill a buffer: only then both buffers are in use.\<close>

fun pf_failed :: "producer \<Rightarrow> nat" where
  "pf_failed (Pr_send b n (Some e)) = 0"
| "pf_failed (Pr_sent (Some e)) = 0"
| "pf_failed Pr_return = 0"
| "pf_failed Pr_gone = 0"
| "pf_failed _ = 1"

lemma pf_failed_send: "pf_failed (Pr_send b n err) = pf_failed (Pr_sent err)"
  by (cases err) simp_all

definition pf_owners :: "'r prefetchReader \<Rightarrow> bool" where
  "pf_owners s \<longleftrightarrow> pf_spent s \<or> distinct (pf_owned s) \<and> set (pf_owned s) \<subseteq> {0, 1} \<and>
     (pf_failed (pf_producer s) = 1 \<longrightarrow> length (pf_owned s) = 2)"

text \<open>A slice outside the buffer that is being filled does not change; the one being filled grows.\<close>

lemma length_overwrite: "k + length got \<le> length bs \<Longrightarrow> length (overwrite bs k got) = length bs"
  by (simp add: overwrite_def)

lemma pf_slice_other: "fst c \<noteq> b \<Longrightarrow> pf_slice (pf_put s b k got) c = pf_slice (pf_mem s) c"
  by (simp add: pf_slice_def pf_put_def)

lemma pf_slice_grown:
  "k \<le> length (pf_mem s b) \<Longrightarrow> pf_slice (pf_put s b k got) (b, k + length got) = pf_slice (pf_mem s) (b, k) @ got"
  by (simp add: pf_slice_def pf_put_def overwrite_def min_def)

lemma pf_rest_slice: "pf_rest mem (Some c) pos = drop pos (pf_slice mem c)"
  by (cases c) (simp add: pf_rest_def pf_slice_def)

lemma pf_rest_None [simp]: "pf_rest mem None pos = []"
  by (simp add: pf_rest_def)

lemma pf_len_simps [simp]: "pf_len None = 0" "pf_len (Some c) = snd c"
  by (simp_all add: pf_len_def split: prod.splits)

lemma pf_rest_empty: "pf_len cur \<le> pos \<Longrightarrow> pf_rest mem cur pos = []"
  by (cases cur) (auto simp: pf_rest_slice pf_slice_def)

lemma pf_slices_other:
  "b \<notin> fst ` set cs \<Longrightarrow> map (pf_slice (pf_put s b k got)) cs = map (pf_slice (pf_mem s)) cs"
  by (rule map_cong) (auto intro!: pf_slice_other)

text \<open>Filling the buffer in hand adds exactly the bytes read.\<close>

lemma pf_data_fill:
  assumes own: "pf_owners s" and ord: "pf_order e s" and bd: "pf_bounded B s"
    and p: "pf_producer s = Pr_fill b k"
    and p': "pf_hand p' = [(b, k + length got)]"
  shows "pf_data (s\<lparr>pf_src := r, pf_mem := pf_put s b k got, pf_producer := p'\<rparr>) = pf_data s @ got"
proof -
  have k: "k \<le> length (pf_mem s b)" using bd p by (simp add: pf_bounded_def)
  have live: "\<not> pf_spent s" using ord p by (auto simp: pf_order_def)
  then have d: "distinct (pf_owned s)" using own by (simp add: pf_owners_def)
  then have fw: "b \<notin> fst ` set (pf_forward s)" using p by (auto simp: pf_owned_def)
  have "pf_rest (pf_put s b k got) (pf_cur s) (pf_pos s) = pf_rest (pf_mem s) (pf_cur s) (pf_pos s)"
  proof (cases "pf_len (pf_cur s) \<le> pf_pos s")
    case True
    then show ?thesis by (simp add: pf_rest_empty)
  next
    case False
    then obtain c where c: "pf_cur s = Some c" by (cases "pf_cur s") auto
    have "\<not> (\<exists>n. pf_consumer s = Co_recv n)" using False ord by (auto simp: pf_order_def)
    then have "pf_held (pf_consumer s) (pf_cur s) = [c]" using c by (cases "pf_consumer s") simp_all
    then have "fst c \<noteq> b" using d p by (auto simp: pf_owned_def)
    then show ?thesis using c by (simp add: pf_rest_slice pf_slice_other)
  qed
  then show ?thesis
    using p p' fw by (simp add: pf_data_def pf_slices_other pf_slice_grown [OF k])
qed

definition pf_calls :: "('r \<Rightarrow> nat \<Rightarrow> bool) \<Rightarrow> nat \<Rightarrow> 'r prefetchReader \<Rightarrow> bool" where
  "pf_calls call B s \<longleftrightarrow>
     (\<forall>b k. pf_producer s = Pr_fill b k \<longrightarrow> k < B \<longrightarrow> call (pf_src s) (B - k))"

definition pf_inv :: "('r \<Rightarrow> nat \<Rightarrow> bool) \<Rightarrow> ('r \<Rightarrow> bool) \<Rightarrow> ('r \<Rightarrow> byte list) \<Rightarrow> ('r \<Rightarrow> gerror) \<Rightarrow> nat \<Rightarrow> byte list \<Rightarrow> gerror \<Rightarrow>
    'r prefetchReader \<Rightarrow> bool" where
  "pf_inv call ok left ending B P e s \<longleftrightarrow>
     ok (pf_src s) \<and> ending (pf_src s) = e \<and> P = pf_data s @ left (pf_src s) \<and>
     pf_phase e (left (pf_src s)) (pf_producer s) (pf_err s) \<and> pf_bounded B s \<and> pf_order e s \<and> pf_owners s \<and>
     pf_calls call B s"

lemma pf_spent_update [simp]:
  "pf_spent (s\<lparr>pf_src := r\<rparr>) = pf_spent s" "pf_spent (s\<lparr>pf_mem := m\<rparr>) = pf_spent s"
  "pf_spent (s\<lparr>pf_free := fr\<rparr>) = pf_spent s" "pf_spent (s\<lparr>pf_forward := fw\<rparr>) = pf_spent s"
  "pf_spent (s\<lparr>pf_closed := cl\<rparr>) = pf_spent s" "pf_spent (s\<lparr>pf_err := pe\<rparr>) = pf_spent s"
  "pf_spent (s\<lparr>pf_producer := pr\<rparr>) = pf_spent s" "pf_spent (s\<lparr>pf_cur := cu\<rparr>) = pf_spent s"
  "pf_spent (s\<lparr>pf_pos := po\<rparr>) = pf_spent s" "pf_spent (s\<lparr>pf_consumer := co\<rparr>) = pf_spent s"
  "pf_spent (s\<lparr>pf_results := pf_results s @ [(got, None)]\<rparr>) = pf_spent s"
  by (auto simp: pf_spent_def)

lemma pf_inv_new:
  "0 < B \<Longrightarrow> ok r \<Longrightarrow> pf_inv call ok left ending B (left r) (ending r) (newPrefetchReader r B)"
  by (simp add: pf_inv_def pf_data_def pf_bounded_def pf_order_def pf_owners_def pf_owned_def pf_calls_def
      newPrefetchReader_def pf_spent_def)

lemma pf_live: "pf_order e s \<Longrightarrow> pf_producer s \<noteq> Pr_gone \<Longrightarrow> \<not> pf_closed s \<and> \<not> pf_spent s"
  by (auto simp: pf_order_def)

lemma pf_inv_frame:
  assumes "pf_inv call ok left ending B P e s" and "pf_src s' = pf_src s" and "pf_data s' = pf_data s"
    and "pf_phase e (left (pf_src s)) (pf_producer s') (pf_err s')" and "pf_bounded B s'" and "pf_order e s'" and "pf_owners s'"
    and "pf_calls call B s'"
  shows "pf_inv call ok left ending B P e s'"
  using assms by (simp add: pf_inv_def)

context block_source
begin

lemma pf_fill_inv:
  assumes inv: "pf_inv call ok left ending B P e s" and p: "pf_producer s = Pr_fill b k" and k: "k < B"
    and rd: "rd (pf_src s) (B - k) = (got, err, r)"
    and p': "pf_hand p' = [(b, k + length got)]" "p' \<noteq> Pr_gone" "p' \<noteq> Pr_send b 0 None"
    and more_calls: "\<And>b' k'. p' = Pr_fill b' k' \<Longrightarrow> err = None"
    and phase: "\<And>rest. (err \<noteq> None \<Longrightarrow> rest = [] \<and> err = Some e) \<Longrightarrow> pf_phase e rest p' None"
  shows "pf_inv call ok left ending B P e (s\<lparr>pf_src := r, pf_mem := pf_put s b k got, pf_producer := p'\<rparr>)"
proof -
  let ?s = "s\<lparr>pf_src := r, pf_mem := pf_put s b k got, pf_producer := p'\<rparr>"
  have ok: "ok (pf_src s)" and e: "ending (pf_src s) = e" using inv by (simp_all add: pf_inv_def)
  have call: "call (pf_src s) (B - k)" using inv p k by (simp add: pf_inv_def pf_calls_def)
  have r: "ok r" "length got \<le> B - k" "left (pf_src s) = got @ left r" "ending r = e"
    using read_ok [OF ok call rd] e by auto
  have "pf_data ?s = pf_data s @ got"
    using inv p p'(1) unfolding pf_inv_def by (intro pf_data_fill) auto
  moreover have "pf_phase e (left r) p' None"
  proof (rule phase)
    assume "err \<noteq> None"
    then show "left r = [] \<and> err = Some e" using read_end [OF ok call] rd e by (cases err) auto
  qed
  moreover have "pf_bounded B ?s"
  proof -
    have bd: "pf_bounded B s" using inv by (simp only: pf_inv_def)
    then have "length (overwrite (pf_mem s b) k got) = B"
      using k r(2) length_overwrite [of k got "pf_mem s b"] by (simp add: pf_bounded_def)
    moreover have "n \<noteq> 0" if "p' = Pr_send c n None" for c n using that p'(1,3) by auto
    ultimately show ?thesis using bd k r(2) p p'(1) by (simp add: pf_bounded_def pf_put_def)
  qed
  moreover have "pf_order e ?s"
  proof -
    have ord: "pf_order e s" using inv by (simp only: pf_inv_def)
    then have "\<not> pf_closed s" "\<not> pf_spent s" using pf_live [OF ord] p by simp_all
    then show ?thesis using ord p p'(2) by (simp add: pf_order_def)
  qed
  moreover have "pf_owners ?s"
  proof -
    have "pf_owners s" using inv by (simp only: pf_inv_def)
    moreover have "pf_owned ?s = pf_owned s" using p p'(1) by (simp add: pf_owned_def)
    ultimately show ?thesis using p by (auto simp: pf_owners_def)
  qed
  moreover have "pf_calls call B ?s"
    using call_rest [OF ok call] rd more_calls p'(1) by (cases p') (auto simp: pf_calls_def)
  moreover have "pf_err s = None" using inv p by (simp add: pf_inv_def)
  moreover have "P = pf_data s @ got @ left r" using inv r(3) by (simp only: pf_inv_def)
  ultimately show ?thesis using r(1,4) by (simp add: pf_inv_def)
qed

lemma pf_produce_inv:
  assumes step: "pf_produce rd B s s'" and inv: "pf_inv call ok left ending B P e s"
  shows "pf_inv call ok left ending B P e s'"
proof -
  have ph: "pf_phase e (left (pf_src s)) (pf_producer s) (pf_err s)" and bd: "pf_bounded B s" and ord: "pf_order e s"
    and own: "pf_owners s" and calls: "pf_calls call B s" and start: "call (pf_src s) B"
    using inv call_start by (simp_all add: pf_inv_def)
  note defs = pf_data_def pf_bounded_def pf_order_def pf_owners_def pf_owned_def pf_calls_def
  from step show ?thesis
  proof (cases rule: pf_produce.cases)
    case (take_buffer b rest)
    then have live: "\<not> pf_closed s" "\<not> pf_spent s" using pf_live [OF ord] by auto
    show ?thesis unfolding take_buffer(1)
      by (rule pf_inv_frame [OF inv]) (use take_buffer live ph bd ord own calls start in \<open>simp_all add: defs pf_slice_def\<close>)
  next
    case (fill b k got r)
    then show ?thesis using pf_fill_inv [OF inv fill(2-4)] by simp
  next
    case (fill_error b k got er r)
    have "pf_phase e rest (Pr_send b (k + length got) (full_error B (k + length got) er)) None"
      if "rest = [] \<and> Some er = Some e" for rest
      using that by (auto simp: pf_pending_def full_error_def split: if_splits)
    moreover have "full_error B (k + length got) er \<noteq> None" if "k + length got = 0"
      using that fill_error(3) by (simp add: full_error_def)
    moreover have "pf_err s = None" using ph fill_error(2) by simp
    ultimately show ?thesis unfolding fill_error(1) using fill_error(3)
      by (intro pf_fill_inv [OF inv fill_error(2-4)]) (auto simp: full_error_def)
  next
    case (filled_up b k)
    have "0 < k" using filled_up(3) size by simp
    have live: "\<not> pf_closed s" "\<not> pf_spent s" using pf_live [OF ord] filled_up(2) by auto
    show ?thesis unfolding filled_up(1)
      by (rule pf_inv_frame [OF inv]) (use filled_up \<open>0 < k\<close> live ph bd ord own calls start in \<open>simp_all add: defs pf_pending_def\<close>)
  next
    case (send b n err)
    then have live: "\<not> pf_closed s" "\<not> pf_spent s" using pf_live [OF ord] by auto
    show ?thesis unfolding send(1)
      by (rule pf_inv_frame [OF inv]) (use send live ph bd ord own calls start in \<open>simp_all add: defs pf_failed_send\<close>)
  next
    case (send_nothing b err)
    then have live: "\<not> pf_closed s" "\<not> pf_spent s" using pf_live [OF ord] by auto
    have "err \<noteq> None" using bd send_nothing(2) by (auto simp: pf_bounded_def)
    then obtain er where err: "err = Some er" by blast
    show ?thesis unfolding send_nothing(1)
      by (rule pf_inv_frame [OF inv]) (use send_nothing err live ph bd ord own calls start in \<open>simp_all add: defs pf_slice_def\<close>)
  next
    case again
    then have live: "\<not> pf_closed s" "\<not> pf_spent s" using pf_live [OF ord] by auto
    show ?thesis unfolding again(1)
      by (rule pf_inv_frame [OF inv]) (use again live ph bd ord own calls start in \<open>simp_all add: defs\<close>)
  next
    case (stop er)
    then have live: "\<not> pf_closed s" "\<not> pf_spent s" using pf_live [OF ord] by auto
    show ?thesis unfolding stop(1)
      by (rule pf_inv_frame [OF inv]) (use stop live ph bd ord own calls start in \<open>simp_all add: defs\<close>)
  next
    case close_forward
    then have live: "\<not> pf_closed s" "\<not> pf_spent s" using pf_live [OF ord] by auto
    show ?thesis unfolding close_forward(1)
      by (rule pf_inv_frame [OF inv]) (use close_forward live ph bd ord own calls start in \<open>simp_all add: defs\<close>)
  qed
qed

end

section \<open>The caller's steps\<close>

lemma pf_consume_inv:
  assumes step: "pf_consume s s'" and inv: "pf_inv call ok left ending B P e s"
  shows "pf_inv call ok left ending B P e s'"
proof -
  have ph: "pf_phase e (left (pf_src s)) (pf_producer s) (pf_err s)" and bd: "pf_bounded B s" and ord: "pf_order e s"
    and own: "pf_owners s" and calls: "pf_calls call B s" using inv by (simp_all add: pf_inv_def)
  from step show ?thesis
  proof (cases rule: pf_consume.cases)
    case (copy n got)
    then obtain c where c: "pf_cur s = Some c" by (cases "pf_cur s") auto
    have live: "\<not> pf_spent s" using ord copy(3) by (auto simp: pf_order_def)
    have "pf_rest (pf_mem s) (pf_cur s) (pf_pos s) = got @ pf_rest (pf_mem s) (pf_cur s) (pf_pos s + length got)"
    proof -
      have "drop k ys = take n (drop k ys) @ drop (k + length (take n (drop k ys))) ys" for k and ys :: "byte list"
        by (metis add.commute append_take_drop_id drop_all drop_drop length_take linorder_linear min_def take_all)
      then show ?thesis unfolding copy(4) c pf_rest_slice .
    qed
    then show ?thesis unfolding copy(1)
      by (intro pf_inv_frame [OF inv])
        (use c live copy(2) ph bd ord own calls in \<open>simp_all add: pf_data_def pf_bounded_def pf_order_def pf_owners_def pf_owned_def pf_spent_def pf_calls_def\<close>)
  next
    case (give_back n b m)
    have "pf_rest (pf_mem s) (pf_cur s) (pf_pos s) = []" using give_back(3) by (rule pf_rest_empty)
    then show ?thesis unfolding give_back(1)
      by (intro pf_inv_frame [OF inv])
        (use give_back ph bd ord own calls in \<open>auto simp: pf_data_def pf_bounded_def pf_order_def pf_owners_def pf_owned_def pf_calls_def\<close>)
  next
    case (no_buffer n)
    then show ?thesis unfolding no_buffer(1)
      by (intro pf_inv_frame [OF inv])
        (use no_buffer ph bd ord own calls in \<open>simp_all add: pf_data_def pf_bounded_def pf_order_def pf_owners_def pf_owned_def pf_calls_def, blast\<close>)
  next
    case (receive n c rest)
    have live: "\<not> pf_spent s" using ord receive(3) by (auto simp: pf_order_def)
    have "pf_rest (pf_mem s) (pf_cur s) (pf_pos s) = []"
      using ord receive(2) by (intro pf_rest_empty) (simp add: pf_order_def)
    then show ?thesis unfolding receive(1)
      by (intro pf_inv_frame [OF inv])
        (use receive live ph bd ord own calls in \<open>auto simp: pf_data_def pf_bounded_def pf_order_def pf_owners_def pf_owned_def pf_rest_slice pf_calls_def\<close>)
  next
    case (receive_closed n er)
    have "pf_producer s = Pr_gone" using ord receive_closed(4) by (simp add: pf_order_def)
    then obtain e0 where "pf_err s = Some e0" "e0 = e \<or> e0 = ErrUnexpectedEOF \<and> e = EOF"
      using ph by (auto simp: pf_pending_def)
    then have er: "er = Some (pf_final e)" using receive_closed(5) by (auto simp: pf_final_def)
    have pos: "pf_len (pf_cur s) \<le> pf_pos s" using ord receive_closed(2) by (simp add: pf_order_def)
    have spent: "pf_spent s'" unfolding receive_closed(1) er by (auto simp: pf_spent_def)
    show ?thesis
    proof (rule pf_inv_frame [OF inv])
      show "pf_order e s'"
        using ord pos spent receive_closed(1,3,4) by (auto simp: pf_order_def er)
      show "pf_owners s'" using spent by (simp add: pf_owners_def)
    qed (use receive_closed ph bd calls in \<open>simp_all add: pf_data_def pf_bounded_def pf_calls_def\<close>)
  qed
qed

context block_source
begin

lemma pf_call_inv:
  assumes "pf_inv call ok left ending B P e s" and "pf_consumer s = Co_idle"
  shows "pf_inv call ok left ending B P e (s\<lparr>pf_consumer := Co_loop n\<rparr>)"
proof -
  have bd: "pf_bounded B s" and ord: "pf_order e s" and own: "pf_owners s"
    and ph: "pf_phase e (left (pf_src s)) (pf_producer s) (pf_err s)" and calls: "pf_calls call B s"
    using assms(1) by (simp_all add: pf_inv_def)
  have "pf_held (Co_loop n) (pf_cur s) = pf_held (pf_consumer s) (pf_cur s)"
    using assms(2) by (cases "pf_cur s") simp_all
  then show ?thesis
    by (intro pf_inv_frame [OF assms(1)])
      (use bd ord own ph calls in \<open>simp_all add: pf_data_def pf_bounded_def pf_order_def pf_owners_def pf_owned_def pf_calls_def, blast\<close>)
qed

lemma pf_reachable_inv:
  assumes "ok r" and "pf_reachable rd B r s"
  shows "pf_inv call ok left ending B (left r) (ending r) s"
  using assms(2) unfolding pf_reachable_def
proof (induction rule: rtranclp_induct)
  case base
  show ?case by (rule pf_inv_new) (rule size, rule assms(1))
next
  case (step s s')
  from step(2) show ?case
  proof (cases rule: pf_step.cases)
    case inside
    then show ?thesis using step(3) pf_produce_inv pf_consume_inv unfolding pf_inside_def by blast
  next
    case (Read n)
    show ?thesis unfolding Read(1) by (rule pf_call_inv [OF step(3) Read(2)])
  qed
qed

section \<open>Every call returns\<close>

text \<open>What each step brings down: the goroutine runs into an error at most once, reads the source down,
  and moves on between two reads; the caller takes from \<open>forward\<close> or moves on.\<close>

end

fun pf_rank :: "nat \<Rightarrow> producer \<Rightarrow> nat" where
  "pf_rank B (Pr_fill b k) = (if B \<le> k then 6 else 1)"
| "pf_rank B (Pr_send b n err) = 5"
| "pf_rank B (Pr_sent err) = 4"
| "pf_rank B Pr_return = 3"
| "pf_rank B Pr_take = 2"
| "pf_rank B Pr_gone = 0"

fun pf_call :: "consumer \<Rightarrow> nat" where
  "pf_call (Co_loop n) = 2"
| "pf_call (Co_recv n) = 1"
| "pf_call Co_idle = 0"

definition pf_measures :: "('r \<Rightarrow> byte list) \<Rightarrow> ('r \<Rightarrow> nat) \<Rightarrow> nat \<Rightarrow> ('r prefetchReader \<Rightarrow> nat) list" where
  "pf_measures left rank B =
     [\<lambda>s. pf_failed (pf_producer s), \<lambda>s. length (left (pf_src s)), \<lambda>s. rank (pf_src s),
      \<lambda>s. pf_rank B (pf_producer s), \<lambda>s. length (pf_forward s), \<lambda>s. pf_call (pf_consumer s)]"

context block_source
begin

lemma pf_inside_decreases:
  assumes inv: "pf_inv call ok left ending B P e s" and step: "pf_inside rd B s s'"
  shows "(s', s) \<in> measures (pf_measures left rank B)"
proof (cases "pf_produce rd B s s'")
  case True
  have ok: "ok (pf_src s)" using inv by (simp add: pf_inv_def)
  have asked: "pf_producer s = Pr_fill b k \<Longrightarrow> k < B \<Longrightarrow> call (pf_src s) (B - k)" for b k
    using inv by (simp add: pf_inv_def pf_calls_def)
  from True show ?thesis
  proof (cases rule: pf_produce.cases)
    case (take_buffer b rest)
    then show ?thesis using size by (simp add: pf_measures_def)
  next
    case (fill b k got r)
    note r = read_ok [OF ok asked [OF fill(2,3)] fill(4)]
    show ?thesis
    proof (cases "got = []")
      case True
      then have "rank r < rank (pf_src s)" using read_progress [OF ok asked [OF fill(2,3)], of r] fill by simp
      then show ?thesis using fill r True by (simp add: pf_measures_def)
    next
      case False
      then show ?thesis using fill r by (simp add: pf_measures_def)
    qed
  next
    case (fill_error b k got er r)
    note r = read_ok [OF ok asked [OF fill_error(2,3)] fill_error(4)]
    show ?thesis
    proof (cases "full_error B (k + length got) er")
      case None
      then have "got \<noteq> []" using fill_error(3) by (auto simp: full_error_def split: if_splits)
      then show ?thesis using fill_error r None by (simp add: pf_measures_def)
    next
      case (Some e')
      then show ?thesis using fill_error by (simp add: pf_measures_def)
    qed
  next
    case (filled_up b k)
    then show ?thesis by (simp add: pf_measures_def)
  next
    case (send b n err)
    then show ?thesis by (cases err) (simp_all add: pf_measures_def)
  next
    case (send_nothing b err)
    then show ?thesis by (cases err) (simp_all add: pf_measures_def)
  next
    case again
    then show ?thesis by (simp add: pf_measures_def)
  next
    case (stop er)
    then show ?thesis by (simp add: pf_measures_def)
  next
    case close_forward
    then show ?thesis by (simp add: pf_measures_def)
  qed
next
  case False
  then have "pf_consume s s'" using step by (simp add: pf_inside_def)
  then show ?thesis by cases (simp_all add: pf_measures_def)
qed

text \<open>So there is no endless run between two calls.\<close>

lemma pf_no_endless_run:
  assumes inv: "pf_inv call ok left ending B P e (f 0)"
  shows "\<exists>i. \<not> pf_inside rd B (f i) (f (Suc i))"
proof (rule ccontr)
  assume "\<not> (\<exists>i. \<not> pf_inside rd B (f i) (f (Suc i)))"
  then have run: "pf_inside rd B (f i) (f (Suc i))" for i by blast
  have "pf_inv call ok left ending B P e (f i)" for i
  proof (induction i)
    case (Suc i)
    then show ?case using run [of i] pf_produce_inv pf_consume_inv unfolding pf_inside_def by blast
  qed (rule inv)
  then have "(f (Suc i), f i) \<in> measures (pf_measures left rank B)" for i
    using pf_inside_decreases [OF _ run] by blast
  then show False using wf_measures wf_iff_no_infinite_down_chain by blast
qed

text \<open>Until an error was reported nobody waits for ever: a buffer is always where it is needed.\<close>

lemma pf_progress:
  assumes inv: "pf_inv call ok left ending B P e s" and live: "\<not> pf_spent s" and call: "pf_consumer s \<noteq> Co_idle"
  shows "\<exists>s'. pf_inside rd B s s'"
proof (rule ccontr)
  assume stuck: "\<nexists>s'. pf_inside rd B s s'"
  then have np: "\<not> pf_produce rd B s s'" and nc: "\<not> pf_consume s s'" for s' by (auto simp: pf_inside_def)
  have own: "distinct (pf_owned s)" "set (pf_owned s) \<subseteq> {0, 1}"
    and all: "pf_failed (pf_producer s) = 1 \<Longrightarrow> length (pf_owned s) = 2"
    using inv live by (simp_all add: pf_inv_def pf_owners_def)
  have ord: "pf_order e s" using inv by (simp add: pf_inv_def)
  have two: "length (pf_owned s) \<le> 2"
    using card_mono [OF _ own(2)] distinct_card [OF own(1)] by simp
  show False
  proof (cases "pf_consumer s")
    case Co_idle
    then show False using call by simp
  next
    case (Co_loop n)
    show False
    proof (cases "pf_cur s")
      case None
      then show False using nc no_buffer [OF Co_loop] by blast
    next
      case (Some c)
      obtain b m where c: "c = (b, m)" by fastforce
      have "length (pf_free s) < 2" using two Some Co_loop by (simp add: pf_owned_def)
      then show False
        using nc copy [OF Co_loop _ refl] give_back [OF Co_loop _ Some [unfolded c]] by (meson not_less)
    qed
  next
    case (Co_recv n)
    have fw: "pf_forward s = []" using nc receive [OF Co_recv] by (meson list.exhaust)
    have open_fw: "\<not> pf_closed s" using nc receive_closed [OF Co_recv fw _ refl] by blast
    show False
    proof (cases "pf_producer s")
      case Pr_take
      have "pf_free s = []" using np take_buffer [OF Pr_take] by (meson list.exhaust)
      then show False using all Pr_take fw Co_recv by (simp add: pf_owned_def)
    next
      case (Pr_fill b k)
      then show False
        using np fill [OF Pr_fill] fill_error [OF Pr_fill] filled_up [OF Pr_fill] by (metis not_less option.exhaust prod_cases3)
    next
      case (Pr_send b n err)
      then show False using np send [OF Pr_send] send_nothing fw by (metis less_numeral_extra(1) list.size(3) neq0_conv)
    next
      case (Pr_sent err)
      then show False using np again stop by (metis option.exhaust)
    next
      case Pr_return
      then show False using np close_forward by blast
    next
      case Pr_gone
      then show False using open_fw ord by (simp add: pf_order_def)
    qed
  qed
qed

text \<open>A run: in every state that can move one side moves, whichever it is.\<close>

end

definition pf_run :: "'r reader \<Rightarrow> nat \<Rightarrow> 'r prefetchReader \<Rightarrow> (nat \<Rightarrow> 'r prefetchReader) \<Rightarrow> bool" where
  "pf_run rd chunkSize s f \<longleftrightarrow> f 0 = s \<and>
     (\<forall>i. if \<exists>s'. pf_inside rd chunkSize (f i) s' then pf_inside rd chunkSize (f i) (f (Suc i)) else f (Suc i) = f i)"

lemma pf_run_exists: "\<exists>f. pf_run rd B s f"
proof -
  define move where "move t = (if \<exists>s'. pf_inside rd B t s' then SOME s'. pf_inside rd B t s' else t)" for t
  have "pf_run rd B s (rec_nat s (\<lambda>_. move))"
    by (auto simp: pf_run_def move_def intro: someI)
  then show ?thesis by (rule exI [where P = "pf_run rd B s"])
qed

text \<open>A call under way goes on, or it has returned one result.\<close>

lemma pf_inside_results:
  assumes "pf_inside rd B s s'" and "pf_consumer s \<noteq> Co_idle"
  shows "if pf_consumer s' = Co_idle then \<exists>x. pf_results s' = pf_results s @ [x] else pf_results s' = pf_results s"
  using assms unfolding pf_inside_def by (auto elim!: pf_produce.cases pf_consume.cases)

context block_source
begin

lemma pf_returns:
  assumes inv: "pf_inv call ok left ending B P e s" and live: "\<not> pf_spent s"
    and call: "pf_consumer s \<noteq> Co_idle" and run: "pf_run rd B s f"
  shows "\<exists>i x. pf_consumer (f i) = Co_idle \<and> pf_results (f i) = pf_results s @ [x]"
proof (rule ccontr)
  assume never: "\<nexists>i x. pf_consumer (f i) = Co_idle \<and> pf_results (f i) = pf_results s @ [x]"
  have f0: "f 0 = s" and moves: "if \<exists>s'. pf_inside rd B (f i) s' then pf_inside rd B (f i) (f (Suc i)) else f (Suc i) = f i" for i
    using run by (auto simp: pf_run_def)
  have "pf_inv call ok left ending B P e (f i) \<and> pf_consumer (f i) \<noteq> Co_idle \<and> pf_results (f i) = pf_results s" for i
  proof (induction i)
    case 0
    then show ?case using inv call f0 by simp
  next
    case (Suc i)
    show ?case
    proof (cases "\<exists>s'. pf_inside rd B (f i) s'")
      case True
      then have step: "pf_inside rd B (f i) (f (Suc i))" using moves [of i] by simp
      have "pf_inv call ok left ending B P e (f (Suc i))"
        using step Suc pf_produce_inv pf_consume_inv unfolding pf_inside_def by blast
      then show ?thesis using pf_inside_results [OF step] Suc never by (metis (full_types))
    next
      case False
      then show ?thesis using moves [of i] Suc by simp
    qed
  qed
  note on = this
  have "pf_inside rd B (f i) (f (Suc i))" for i
    using moves [of i] pf_progress [of P e "f i"] on [of i] live by (simp add: pf_spent_def)
  then show False using pf_no_endless_run [of P e f] on [of 0] by blast
qed

end

section \<open>The steps as functions\<close>

text \<open>Each side has at most one step in a state; these functions compute it.\<close>

definition pf_go :: "'r reader \<Rightarrow> nat \<Rightarrow> 'r prefetchReader \<Rightarrow> 'r prefetchReader option" where
  "pf_go rd chunkSize s =
     (case pf_producer s of
        Pr_take \<Rightarrow> (case pf_free s of [] \<Rightarrow> None | b # rest \<Rightarrow> Some (s\<lparr>pf_free := rest, pf_producer := Pr_fill b 0\<rparr>))
      | Pr_fill b k \<Rightarrow>
          if k < chunkSize then
            (case rd (pf_src s) (chunkSize - k) of (got, err, r) \<Rightarrow>
               Some (s\<lparr>pf_src := r, pf_mem := pf_put s b k got,
                 pf_producer := (case err of None \<Rightarrow> Pr_fill b (k + length got)
                   | Some e \<Rightarrow> Pr_send b (k + length got) (full_error chunkSize (k + length got) e))\<rparr>))
          else Some (s\<lparr>pf_producer := Pr_send b k None\<rparr>)
      | Pr_send b n err \<Rightarrow>
          if n = 0 then Some (s\<lparr>pf_producer := Pr_sent err\<rparr>)
          else if pf_forward s = [] then Some (s\<lparr>pf_forward := pf_forward s @ [(b, n)], pf_producer := Pr_sent err\<rparr>)
          else None
      | Pr_sent None \<Rightarrow> Some (s\<lparr>pf_producer := Pr_take\<rparr>)
      | Pr_sent (Some e) \<Rightarrow> Some (s\<lparr>pf_err := Some e, pf_producer := Pr_return\<rparr>)
      | Pr_return \<Rightarrow> Some (s\<lparr>pf_closed := True, pf_producer := Pr_gone\<rparr>)
      | Pr_gone \<Rightarrow> None)"

definition pf_call_on :: "'r prefetchReader \<Rightarrow> 'r prefetchReader option" where
  "pf_call_on s =
     (case pf_consumer s of
        Co_idle \<Rightarrow> None
      | Co_loop n \<Rightarrow>
          if pf_pos s < pf_len (pf_cur s) then
            (let got = take n (pf_rest (pf_mem s) (pf_cur s) (pf_pos s))
             in Some (s\<lparr>pf_pos := pf_pos s + length got, pf_consumer := Co_idle, pf_results := pf_results s @ [(got, None)]\<rparr>))
          else
            (case pf_cur s of
               None \<Rightarrow> Some (s\<lparr>pf_consumer := Co_recv n\<rparr>)
             | Some (b, m) \<Rightarrow> if length (pf_free s) < 2 then Some (s\<lparr>pf_free := pf_free s @ [b], pf_consumer := Co_recv n\<rparr>) else None)
      | Co_recv n \<Rightarrow>
          (case pf_forward s of
             c # rest \<Rightarrow> Some (s\<lparr>pf_forward := rest, pf_cur := Some c, pf_pos := 0, pf_consumer := Co_loop n\<rparr>)
           | [] \<Rightarrow>
               if pf_closed s then
                 (let e = (if pf_err s \<noteq> None \<and> pf_err s \<noteq> Some ErrUnexpectedEOF then pf_err s else Some EOF)
                  in Some (s\<lparr>pf_consumer := Co_idle, pf_results := pf_results s @ [([], e)]\<rparr>))
               else None))"

lemma pf_produce_iff: "pf_produce rd B s s' \<longleftrightarrow> pf_go rd B s = Some s'"
proof
  show "pf_go rd B s = Some s'" if "pf_produce rd B s s'"
    using that by cases (simp_all add: pf_go_def)
  show "pf_produce rd B s s'" if go: "pf_go rd B s = Some s'"
  proof (cases "pf_producer s")
    case Pr_take
    then show ?thesis using go take_buffer [OF Pr_take] by (auto simp: pf_go_def split: list.splits)
  next
    case (Pr_fill b k)
    then show ?thesis using go fill [OF Pr_fill] fill_error [OF Pr_fill] filled_up [OF Pr_fill]
      by (auto simp: pf_go_def split: if_splits prod.splits option.splits)
  next
    case (Pr_send b n err)
    then show ?thesis using go send [OF Pr_send] send_nothing [of s b err]
      by (auto simp: pf_go_def split: if_splits)
  next
    case (Pr_sent err)
    then show ?thesis using go again stop by (auto simp: pf_go_def split: option.splits)
  next
    case Pr_return
    then show ?thesis using go close_forward by (auto simp: pf_go_def)
  next
    case Pr_gone
    then show ?thesis using go by (simp add: pf_go_def)
  qed
qed

lemma pf_consume_iff: "pf_consume s s' \<longleftrightarrow> pf_call_on s = Some s'"
proof
  show "pf_call_on s = Some s'" if "pf_consume s s'"
    using that by cases (simp_all add: pf_call_on_def)
  show "pf_consume s s'" if go: "pf_call_on s = Some s'"
  proof (cases "pf_consumer s")
    case Co_idle
    then show ?thesis using go by (simp add: pf_call_on_def)
  next
    case (Co_loop n)
    then show ?thesis using go copy [OF Co_loop _ refl] give_back [OF Co_loop] no_buffer [OF Co_loop]
      by (auto simp: pf_call_on_def Let_def not_less split: if_splits option.splits)
  next
    case (Co_recv n)
    then show ?thesis using go receive [OF Co_recv] receive_closed [OF Co_recv _ _ refl]
      by (auto simp: pf_call_on_def Let_def split: if_splits list.splits)
  qed
qed

text \<open>A schedule: who moves next, or that \<open>Read\<close> is called with a buffer of so many bytes.\<close>

datatype pf_move = Go_on | Call_on | Call_Read nat

fun pf_exec :: "'r reader \<Rightarrow> nat \<Rightarrow> pf_move list \<Rightarrow> 'r prefetchReader \<Rightarrow> 'r prefetchReader option" where
  "pf_exec rd chunkSize [] s = Some s"
| "pf_exec rd chunkSize (Go_on # ms) s = Option.bind (pf_go rd chunkSize s) (pf_exec rd chunkSize ms)"
| "pf_exec rd chunkSize (Call_on # ms) s = Option.bind (pf_call_on s) (pf_exec rd chunkSize ms)"
| "pf_exec rd chunkSize (Call_Read n # ms) s =
     (if pf_consumer s = Co_idle then pf_exec rd chunkSize ms (s\<lparr>pf_consumer := Co_loop n\<rparr>) else None)"

lemma pf_exec_reachable:
  "pf_exec rd B ms s = Some s' \<Longrightarrow> pf_reachable rd B r s \<Longrightarrow> pf_reachable rd B r s'"
proof (induction ms arbitrary: s)
  case (Cons m ms)
  have "\<exists>s1. pf_step rd B s s1 \<and> pf_exec rd B ms s1 = Some s'"
  proof (cases m)
    case Go_on
    then obtain s1 where "pf_go rd B s = Some s1" "pf_exec rd B ms s1 = Some s'"
      using Cons.prems(1) by (auto split: bind_splits)
    then show ?thesis using pf_step.inside [of rd B s s1] by (auto simp: pf_inside_def pf_produce_iff)
  next
    case Call_on
    then obtain s1 where "pf_call_on s = Some s1" "pf_exec rd B ms s1 = Some s'"
      using Cons.prems(1) by (auto split: bind_splits)
    then show ?thesis using pf_step.inside [of rd B s s1] by (auto simp: pf_inside_def pf_consume_iff)
  next
    case (Call_Read n)
    then show ?thesis using Cons.prems(1) pf_step.Read [of s rd B n] by (auto split: if_splits)
  qed
  then show ?case using Cons unfolding pf_reachable_def by (meson rtranclp.rtrancl_into_rtrancl)
qed simp

lemma pf_exec_new: "pf_exec rd B ms (newPrefetchReader r B) = Some s \<Longrightarrow> pf_reachable rd B r s"
  using pf_exec_reachable [of rd B ms "newPrefetchReader r B" s r] by (simp add: pf_reachable_def)

section \<open>What the caller sees\<close>

lemma prefetch_delivers:
  assumes "block_source rd call ok left ending rank B" and "ok r" and "pf_reachable rd B r s"
  shows "(\<exists>rest. left r = concat (map fst (pf_results s)) @ rest) \<and>
    list_all (\<lambda>(bs, err). case err of None \<Rightarrow> True | Some e \<Rightarrow> bs = [] \<and> e = pf_final (ending r) \<and>
      concat (map fst (pf_results s)) = left r) (pf_results s) \<and>
    (case pf_producer s of Pr_fill b k \<Rightarrow> b \<notin> fst ` set (pf_forward s @ pf_held (pf_consumer s) (pf_cur s)) | _ \<Rightarrow> True)"
proof -
  have inv: "pf_inv call ok left ending B (left r) (ending r) s"
    by (rule block_source.pf_reachable_inv [OF assms(1-3)])
  have data: "left r = pf_data s @ left (pf_src s)" and ord: "pf_order (ending r) s" and own: "pf_owners s"
    and ph: "pf_phase (ending r) (left (pf_src s)) (pf_producer s) (pf_err s)"
    using inv by (simp_all add: pf_inv_def)
  have whole: "concat (map fst (pf_results s)) = left r" if "(bs, Some e) \<in> set (pf_results s)" for bs e
  proof -
    have "pf_spent s" using that by (auto simp: pf_spent_def)
    then have gone: "pf_len (pf_cur s) \<le> pf_pos s" "pf_producer s = Pr_gone" "pf_forward s = []"
      using ord by (auto simp: pf_order_def)
    then have "left (pf_src s) = []" using ph by (auto simp: pf_pending_def)
    then show ?thesis using data gone by (simp add: pf_data_def pf_rest_empty)
  qed
  have "pf_producer s \<noteq> Pr_gone \<Longrightarrow> distinct (pf_owned s)"
    using pf_live [OF ord] own by (simp add: pf_owners_def)
  then have "case pf_producer s of Pr_fill b k \<Rightarrow> b \<notin> fst ` set (pf_forward s @ pf_held (pf_consumer s) (pf_cur s)) | _ \<Rightarrow> True"
    by (cases "pf_producer s") (simp_all add: pf_owned_def image_Un)
  moreover have "\<exists>rest. left r = concat (map fst (pf_results s)) @ rest" using data by (simp add: pf_data_def)
  moreover have "(bs, Some e) \<in> set (pf_results s) \<Longrightarrow> bs = [] \<and> e = pf_final (ending r)" for bs e
    using ord by (simp add: pf_order_def)
  ultimately show ?thesis using whole by (fastforce simp: list_all_iff split: option.splits)
qed



section \<open>Properties\<close>

text \<open>A source of three bytes and buffers of two, with a call of \<open>Read\<close> for one byte that waits for the first
  buffer. And a source of one byte that was read to its end, with a third call begun after the second one
  has reported EOF.\<close>

definition pf_waiting :: "(byte list \<times> gerror) prefetchReader option" where
  "pf_waiting = pf_exec list_Read 2 [Go_on, Call_Read 1, Call_on, Go_on] (newPrefetchReader ([1, 2, 3], EOF) 2)"

definition pf_third_call :: "(byte list \<times> gerror) prefetchReader option" where
  "pf_third_call = pf_exec list_Read 2
     (replicate 6 Go_on @ [Call_Read 2, Call_on, Call_on, Call_on, Call_Read 2, Call_on, Call_on, Call_Read 2])
     (newPrefetchReader ([1], EOF) 2)"

lemma pf_waiting_state:
  "\<exists>s. pf_waiting = Some s \<and> pf_reachable list_Read 2 ([1, 2, 3], EOF) s \<and> pf_consumer s = Co_recv 1 \<and> pf_results s = []"
proof -
  have "case pf_waiting of None \<Rightarrow> False | Some s \<Rightarrow> pf_consumer s = Co_recv 1 \<and> pf_results s = []"
    by code_simp
  then obtain s where s: "pf_waiting = Some s" "pf_consumer s = Co_recv 1 \<and> pf_results s = []"
    by (auto split: option.splits)
  then show ?thesis using pf_exec_new [OF s(1) [unfolded pf_waiting_def]] by blast
qed

lemma pf_third_call_state:
  "\<exists>s. pf_third_call = Some s \<and> pf_reachable list_Read 2 ([1], EOF) s \<and> pf_consumer s = Co_loop 2 \<and>
    pf_results s = [([1], None), ([], Some EOF)] \<and> pf_go list_Read 2 s = None \<and> pf_call_on s = None"
proof -
  have "case pf_third_call of None \<Rightarrow> False
    | Some s \<Rightarrow> pf_consumer s = Co_loop 2 \<and> pf_results s = [([1], None), ([], Some EOF)] \<and>
        (case pf_go list_Read 2 s of None \<Rightarrow> True | Some _ \<Rightarrow> False) \<and> (case pf_call_on s of None \<Rightarrow> True | Some _ \<Rightarrow> False)"
    by code_simp
  then obtain s where s: "pf_third_call = Some s"
    and state: "pf_consumer s = Co_loop 2 \<and> pf_results s = [([1], None), ([], Some EOF)]"
    and stuck: "pf_go list_Read 2 s = None \<and> pf_call_on s = None"
    by (cases pf_third_call) (auto split: option.splits)
  show ?thesis using pf_exec_new [OF s [unfolded pf_third_call_def]] s state stuck by blast
qed

text \<open>C11: The prefetching reader delivers the bytes of its source in order, whatever the interleaving of the
  goroutine and the caller: in every reachable state the results of the calls so far put together are a
  beginning of the stream, a call that reports an error has delivered nothing and comes after the whole
  stream, its error is that of the source (EOF when the stream ends in the middle of a buffer, and also when the
  source itself reports ErrUnexpectedEOF), and the buffer the goroutine is filling is neither the one the caller copies from nor one that waits in the channel.\<close>

theorem prefetch_stream:
  assumes "block_source rd call ok left ending rank B" and "ok r" and "pf_reachable rd B r s"
  shows "(\<exists>rest. left r = concat (map fst (pf_results s)) @ rest) \<and>
    list_all (\<lambda>(bs, err). case err of None \<Rightarrow> True | Some e \<Rightarrow> bs = [] \<and> e = pf_final (ending r) \<and>
      concat (map fst (pf_results s)) = left r) (pf_results s) \<and>
    (case pf_producer s of Pr_fill b k \<Rightarrow> b \<notin> fst ` set (pf_forward s @ pf_held (pf_consumer s) (pf_cur s)) | _ \<Rightarrow> True)"
  using prefetch_delivers [OF assms] .

theorem prefetch_stream_witness:
  "\<exists>s rest. pf_waiting = Some s \<and> [1, 2, 3] = concat (map fst (pf_results s)) @ rest"
  using pf_waiting_state prefetch_stream [OF byte_source_blocks [OF list_source.byte_source_axioms, of 2], of "([1, 2, 3], EOF)"] by fastforce

text \<open>C12: Every call of \<open>Read\<close> returns, until one has reported an error: from every reachable state with a
  call under way, every run of the goroutine and the call, in any order, comes to a state where the call has
  returned one more result. Nobody waits for ever: one of the two can always move, and not endlessly.\<close>

theorem prefetch_returns:
  assumes "block_source rd call ok left ending rank B" and "ok r" and "pf_reachable rd B r s"
    and "list_all (\<lambda>(bs, err). err = None) (pf_results s)" and "pf_consumer s \<noteq> Co_idle"
  shows "(\<exists>f. pf_run rd B s f) \<and>
    (\<forall>f. pf_run rd B s f \<longrightarrow> (\<exists>i x. pf_consumer (f i) = Co_idle \<and> pf_results (f i) = pf_results s @ [x]))"
proof -
  have "\<not> pf_spent s" using assms(4) by (auto simp: pf_spent_def list_all_iff)
  then show ?thesis
    using block_source.pf_returns [OF assms(1) block_source.pf_reachable_inv [OF assms(1-3)] _ assms(5)]
      pf_run_exists [of rd B s] by blast
qed

theorem prefetch_returns_witness:
  "\<exists>s f i x. pf_waiting = Some s \<and> pf_run list_Read 2 s f \<and> pf_consumer (f i) = Co_idle \<and> pf_results (f i) = [x]"
proof -
  obtain s where s: "pf_waiting = Some s" "pf_reachable list_Read 2 ([1, 2, 3], EOF) s" "pf_consumer s = Co_recv 1"
      "pf_results s = []" using pf_waiting_state by blast
  show ?thesis
    using prefetch_returns [OF byte_source_blocks [OF list_source.byte_source_axioms, of 2] TrueI s(2)] s by fastforce
qed

text \<open>After an error was reported the promise ends: \<open>Read\<close> keeps \<open>cur\<close> and gives it back once more with each
  call, until \<open>free\<close> is full. A source of one byte is read to its end, the second call reports EOF, and the
  third one waits for ever.\<close>

theorem prefetch_blocks_after_end:
  "\<exists>s. pf_reachable list_Read 2 ([1], EOF) s \<and> pf_results s = [([1], None), ([], Some EOF)] \<and>
    pf_consumer s = Co_loop 2 \<and> (\<forall>s'. \<not> pf_inside list_Read 2 s s')"
  using pf_third_call_state by (fastforce simp: pf_inside_def pf_produce_iff pf_consume_iff)

end
