(* ===== verification/Data_Source.thy ===== *)
theory Data_Source
  imports Prefetch
begin

text \<open>
  The data of rollstat/main.go: \<open>randReader\<close>, which cuts random words into bytes, the limit that
  \<open>io.LimitReader\<close> puts on a reader, and \<open>dataSource\<close> and \<open>speedDataSource\<close>, which put them behind a
  prefetching reader or cycle over a buffer. The words that the random generator draws are a parameter:
  \<open>draw k\<close> is the one after \<open>k\<close> draws. A file is a reader, a parameter as well.
\<close>

definition KiB :: nat where "KiB = 1024"
definition MiB :: nat where "MiB = 1024 * KiB"

text \<open>The constant \<open>window\<close> of main.go.\<close>

definition stat_window :: nat where "stat_window = 56"

section \<open>Random bytes\<close>

text \<open>The eight assignments of the first loop, and the second loop.\<close>

definition le_bytes :: "u64 \<Rightarrow> byte list" where
  "le_bytes v = [ucast v, ucast (drop_bit 8 v), ucast (drop_bit 16 v), ucast (drop_bit 24 v),
     ucast (drop_bit 32 v), ucast (drop_bit 40 v), ucast (drop_bit 48 v), ucast (drop_bit 56 v)]"

primrec rand_rest :: "u64 \<Rightarrow> nat \<Rightarrow> byte list" where
  "rand_rest v 0 = []"
| "rand_rest v (Suc m) = ucast v # rand_rest (drop_bit 8 v) m"

text \<open>The bytes for \<open>m\<close> places of the buffer and the number of draws after them. Its state is the number
  of draws: the bytes of a word that the buffer has no place for are lost.\<close>

function rand_bytes :: "(nat \<Rightarrow> u64) \<Rightarrow> nat \<Rightarrow> nat \<Rightarrow> byte list \<times> nat" where
  "rand_bytes draw k m =
     (if 8 \<le> m then (case rand_bytes draw (k + 1) (m - 8) of (bs, k') \<Rightarrow> (le_bytes (draw k) @ bs, k'))
      else if 0 < m then (rand_rest (draw k) m, k + 1)
      else ([], k))"
  by pat_completeness auto
termination
  by (relation "measure (\<lambda>(draw, k, m). m)") auto

declare rand_bytes.simps [simp del]

definition randReader_Read :: "(nat \<Rightarrow> u64) \<Rightarrow> nat reader" where
  "randReader_Read draw k n = (case rand_bytes draw k n of (bs, k') \<Rightarrow> (bs, None, k'))"

text \<open>The bytes of the words drawn, from draw \<open>k\<close> on.\<close>

definition rand_words :: "(nat \<Rightarrow> u64) \<Rightarrow> nat \<Rightarrow> nat \<Rightarrow> byte list" where
  "rand_words draw k j = concat (map (\<lambda>i. le_bytes (draw i)) [k..<k + j])"

lemma length_le_bytes [simp]: "length (le_bytes v) = 8"
  by (simp add: le_bytes_def)

lemma length_rand_words [simp]: "length (rand_words draw k j) = 8 * j"
  by (induction j) (simp_all add: rand_words_def)

lemma rand_words_0 [simp]: "rand_words draw k 0 = []"
  by (simp add: rand_words_def)

lemma rand_words_Nil [simp]: "rand_words draw k j = [] \<longleftrightarrow> j = 0"
  by (metis length_0_conv length_rand_words mult_eq_0_iff zero_neq_numeral)

lemma rand_words_Suc: "rand_words draw k (Suc j) = le_bytes (draw k) @ rand_words draw (Suc k) j"
  by (simp add: rand_words_def upt_conv_Cons del: upt_Suc)

lemma rand_words_add: "rand_words draw k (i + j) = rand_words draw k i @ rand_words draw (k + i) j"
  by (induction i arbitrary: k) (simp_all add: rand_words_Suc)

lemma rand_rest_take: "m < 8 \<Longrightarrow> rand_rest v m = take m (le_bytes v)"
proof -
  assume "m < 8"
  then have "m = 0 \<or> m = 1 \<or> m = 2 \<or> m = 3 \<or> m = 4 \<or> m = 5 \<or> m = 6 \<or> m = 7" by arith
  then show ?thesis by (elim disjE) (simp_all add: le_bytes_def numeral_eq_Suc)
qed

definition words_for :: "nat \<Rightarrow> nat" where
  "words_for m = (m + 7) div 8"

lemma words_for_0: "words_for 0 = 0"
  by (simp add: words_for_def)

lemma words_for_small: "0 < m \<Longrightarrow> m < 8 \<Longrightarrow> words_for m = 1"
  unfolding words_for_def by presburger

lemma words_for_step: "8 \<le> m \<Longrightarrow> words_for m = Suc (words_for (m - 8))"
proof -
  assume "8 \<le> m"
  then have "m + 7 = (m - 8 + 7) + 8" by simp
  then show ?thesis unfolding words_for_def by (metis div_add_self2 zero_neq_numeral Suc_eq_plus1)
qed

lemma words_for_pos: "0 < m \<Longrightarrow> 0 < words_for m"
  unfolding words_for_def by presburger

lemma words_for_enough: "m \<le> 8 * words_for m"
  unfolding words_for_def by presburger

lemma rand_bytes_words: "rand_bytes draw k m = (take m (rand_words draw k (words_for m)), k + words_for m)"
proof (induction m arbitrary: k rule: less_induct)
  case (less m)
  consider "8 \<le> m" | "0 < m" "m < 8" | "m = 0" by linarith
  then show ?case
  proof cases
    case 1
    have "rand_bytes draw k m = (le_bytes (draw k) @ fst (rand_bytes draw (k + 1) (m - 8)), snd (rand_bytes draw (k + 1) (m - 8)))"
      using 1 by (subst rand_bytes.simps) (simp split: prod.split)
    then show ?thesis using 1 less [of "m - 8" "k + 1"] words_for_step [OF 1] by (simp add: rand_words_Suc)
  next
    case 2
    have "rand_bytes draw k m = (rand_rest (draw k) m, k + 1)"
      using 2 by (subst rand_bytes.simps) simp
    then show ?thesis using 2 words_for_small [OF 2] rand_words_Suc [of draw k 0] by (simp add: rand_rest_take)
  next
    case 3
    have "rand_bytes draw k m = ([], k)"
      using 3 by (subst rand_bytes.simps) simp
    then show ?thesis using 3 by (simp add: words_for_0)
  qed
qed

lemma randReader_full:
  "randReader_Read draw k n = (take n (rand_words draw k (words_for n)), None, k + words_for n)"
  by (simp add: randReader_Read_def rand_bytes_words)

section \<open>A limited reader\<close>

text \<open>\<open>Read\<close> of \<open>io.LimitedReader\<close>: \<open>N\<close> is what may still be read.\<close>

definition limit_Read :: "'r reader \<Rightarrow> ('r \<times> int) reader" where
  "limit_Read rd l n =
     (case l of (r, N) \<Rightarrow>
        if N \<le> 0 then ([], Some EOF, (r, N))
        else (case rd r (if int n > N then nat N else n) of (got, err, r) \<Rightarrow> (got, err, (r, N - int (length got)))))"

text \<open>Over a reader that fails exactly where the limit is, either error can come first: this case is left out.\<close>

definition limit_ok :: "('r \<Rightarrow> bool) \<Rightarrow> ('r \<Rightarrow> byte list) \<Rightarrow> ('r \<Rightarrow> gerror) \<Rightarrow> 'r \<times> int \<Rightarrow> bool" where
  "limit_ok ok left ending l \<longleftrightarrow>
     (case l of (r, N) \<Rightarrow> ok r \<and> (ending r = EOF \<or> nat N \<noteq> length (left r)))"

definition limit_left :: "('r \<Rightarrow> byte list) \<Rightarrow> 'r \<times> int \<Rightarrow> byte list" where
  "limit_left left l = (case l of (r, N) \<Rightarrow> take (nat N) (left r))"

definition limit_ending :: "('r \<Rightarrow> byte list) \<Rightarrow> ('r \<Rightarrow> gerror) \<Rightarrow> 'r \<times> int \<Rightarrow> gerror" where
  "limit_ending left ending l = (case l of (r, N) \<Rightarrow> if nat N \<le> length (left r) then EOF else ending r)"


lemma limit_Read_cases:
  assumes "limit_Read rd (r, N) n = (got, err, l')" and "0 < N"
  obtains r' where "rd r (min n (nat N)) = (got, err, r')" and "l' = (r', N - int (length got))"
proof -
  have "(if int n > N then nat N else n) = min n (nat N)" using assms(2) by (simp add: min_def) linarith
  then show ?thesis using assms that by (auto simp: limit_Read_def split: prod.splits)
qed

context byte_source
begin

lemma limit_source:
  "byte_source (limit_Read rd) (limit_ok ok left ending) (limit_left left) (limit_ending left ending) (\<lambda>l. rank (fst l))"
proof (rule byte_source.intro)
  fix l n got err l'
  assume okl: "limit_ok ok left ending l" and read: "limit_Read rd l n = (got, err, l')"
  obtain r N where l: "l = (r, N)" by fastforce
  have ok: "ok r" "ending r = EOF \<or> nat N \<noteq> length (left r)" using okl by (simp_all add: l limit_ok_def)
  show "limit_ok ok left ending l' \<and> length got \<le> n \<and> limit_left left l = got @ limit_left left l' \<and>
    limit_ending left ending l' = limit_ending left ending l"
  proof (cases "N \<le> 0")
    case True
    then show ?thesis using okl read by (simp add: l limit_Read_def limit_left_def)
  next
    case False
    then obtain r' where r': "rd r (min n (nat N)) = (got, err, r')" "l' = (r', N - int (length got))"
      using limit_Read_cases [OF read [unfolded l]] by auto
    note step = read_ok [OF ok(1) r'(1)]
    then have len: "length got \<le> n" "length got \<le> nat N" by auto
    moreover have "nat (N - int (length got)) = nat N - length got" by simp
    ultimately show ?thesis using step ok
      by (auto simp: l r'(2) limit_ok_def limit_left_def limit_ending_def)
  qed
next
  fix l n got e l'
  assume okl: "limit_ok ok left ending l" and read: "limit_Read rd l n = (got, Some e, l')"
  obtain r N where l: "l = (r, N)" by fastforce
  have ok: "ok r" "ending r = EOF \<or> nat N \<noteq> length (left r)" using okl by (simp_all add: l limit_ok_def)
  show "limit_left left l' = [] \<and> e = limit_ending left ending l"
  proof (cases "N \<le> 0")
    case True
    then show ?thesis using read by (auto simp: l limit_Read_def limit_left_def limit_ending_def)
  next
    case False
    then obtain r' where r': "rd r (min n (nat N)) = (got, Some e, r')" "l' = (r', N - int (length got))"
      using limit_Read_cases [OF read [unfolded l]] by auto
    have "left r' = []" "e = ending r" "left r = got @ left r'" "length got \<le> nat N"
      using read_ok [OF ok(1) r'(1)] read_end [OF ok(1) r'(1)] by auto
    then show ?thesis using ok by (auto simp: l r'(2) limit_left_def limit_ending_def)
  qed
next
  fix l n l'
  assume okl: "limit_ok ok left ending l" and n: "0 < n" and read: "limit_Read rd l n = ([], None, l')"
  obtain r N where l: "l = (r, N)" by fastforce
  have "0 < N" using okl read by (auto simp: l limit_ok_def limit_Read_def split: if_splits)
  then obtain r' where "rd r (min n (nat N)) = ([], None, r')" "l' = (r', N - int (length ([] :: byte list)))"
    using limit_Read_cases [OF read [unfolded l]] by auto
  then show "rank (fst l') < rank (fst l)"
    using read_progress [of r "min n (nat N)" r'] okl n \<open>0 < N\<close> by (simp add: l limit_ok_def)
qed

end

section \<open>The limited random bytes\<close>

text \<open>They are a stream only for calls that lose no byte: for a multiple of eight bytes, or for all the rest.\<close>

definition rand_left :: "(nat \<Rightarrow> u64) \<Rightarrow> nat \<times> int \<Rightarrow> byte list" where
  "rand_left draw l = (case l of (k, N) \<Rightarrow> take (nat N) (rand_words draw k (words_for (nat N))))"

definition rand_call :: "nat \<times> int \<Rightarrow> nat \<Rightarrow> bool" where
  "rand_call l n \<longleftrightarrow> snd l \<le> 0 \<or> 8 dvd n"

lemma rand_left_split:
  assumes "8 dvd n" and "int n \<le> N"
  shows "rand_left draw (k, N) = rand_words draw k (n div 8) @ rand_left draw (k + n div 8, N - int n)"
proof -
  obtain j where n: "n = 8 * j" using assms(1) by (elim dvdE)
  have "words_for (nat N) = j + words_for (nat (N - int n))"
    using assms(2) by (simp add: n words_for_def nat_diff_distrib')
  moreover have "nat (N - int n) = nat N - 8 * j" using n by simp
  moreover have "8 * j \<le> nat N" using assms(2) n by simp
  ultimately show ?thesis by (simp add: rand_left_def n rand_words_add)
qed

interpretation rand_blocks: block_source "limit_Read (randReader_Read draw)" rand_call "\<lambda>_. True" "rand_left draw"
    "\<lambda>_. EOF" "\<lambda>_. 0" "16 * MiB" for draw
proof
  show "0 < 16 * MiB" by (simp add: MiB_def KiB_def)
  show "rand_call l (16 * MiB)" for l by (simp add: rand_call_def MiB_def KiB_def)
  have read: "limit_Read (randReader_Read draw) (k, N) n =
      (if N \<le> 0 then ([], Some EOF, (k, N))
       else if N < int n then (rand_left draw (k, N), None, (k + words_for (nat N), 0))
       else (take n (rand_words draw k (words_for n)), None, (k + words_for n, N - int n)))" for k N n
    using words_for_enough [of "nat N"] words_for_enough [of n]
    by (simp add: limit_Read_def randReader_full rand_left_def min_def)
  have whole: "8 dvd n \<Longrightarrow> words_for n = n div 8" for n by (auto simp: words_for_def)
  fix l :: "nat \<times> int" and n got err l'
  assume c: "rand_call l n"
  obtain k N where l: "l = (k, N)" by fastforce
  show "rand_call l' (n - length got)" if "limit_Read (randReader_Read draw) l n = (got, None, l')" "length got < n"
    using that words_for_enough [of n] by (auto simp: l read rand_call_def split: if_splits)
  show "True \<and> length got \<le> n \<and> rand_left draw l = got @ rand_left draw l' \<and> EOF = EOF"
    if "limit_Read (randReader_Read draw) l n = (got, err, l')"
    using that c rand_left_split [of n N draw k] words_for_enough [of "nat N"]
    by (auto simp: l read rand_call_def whole not_less rand_left_def split: if_splits)
  show "rand_left draw l' = [] \<and> e = EOF" if "limit_Read (randReader_Read draw) l n = (got, Some e, l')" for e
    using that by (auto simp: l read rand_left_def split: if_splits)
  show "(0 :: nat) < 0" if "0 < n" "limit_Read (randReader_Read draw) l n = ([], None, l')"
    using that words_for_pos [of n] words_for_pos [of "nat N"] by (auto simp: l read rand_left_def split: if_splits)
qed

section \<open>The data source\<close>

text \<open>A reader over either: the random bytes or a file.\<close>

definition source_Read :: "(nat \<Rightarrow> u64) \<Rightarrow> 'f reader \<Rightarrow> (nat + 'f) reader" where
  "source_Read draw frd s n =
     (case s of
        Inl k \<Rightarrow> (case randReader_Read draw k n of (got, err, k) \<Rightarrow> (got, err, Inl k))
      | Inr f \<Rightarrow> (case frd f n of (got, err, f) \<Rightarrow> (got, err, Inr f)))"

text \<open>\<open>os.Open\<close> is a parameter, and \<open>Inl\<close> an error that ends the program. The cleanup function only closes
  the file.\<close>

definition dataSource :: "(string \<Rightarrow> gerror + 'f) \<Rightarrow> int \<Rightarrow> string \<Rightarrow> gerror + ((nat + 'f) \<times> int) prefetchReader" where
  "dataSource os_Open sz input =
     (if input = '''' then Inr (newPrefetchReader (Inl 0, sz) (16 * MiB))
      else (case os_Open input of
          Inl e \<Rightarrow> Inl e
        | Inr f \<Rightarrow> Inr (newPrefetchReader (Inr f, sz) (16 * MiB))))"

definition speedDataSource :: "(nat \<Rightarrow> u64) \<Rightarrow> (string \<Rightarrow> gerror + 'f) \<Rightarrow> int \<Rightarrow> string \<Rightarrow>
    gerror + (((nat + 'f) \<times> int) prefetchReader + cycleReader) \<times> int" where
  "speedDataSource draw os_Open sz input =
     (if input \<noteq> '''' then
        (case dataSource os_Open sz input of Inl e \<Rightarrow> Inl e | Inr r \<Rightarrow> Inr (Inl r, sz))
      else
        (case randReader_Read draw 0 (1 * MiB) of (buf, err, _) \<Rightarrow>
           (case err of
              Some e \<Rightarrow> Inl e
            | None \<Rightarrow> Inr (Inr \<lparr>cy_data = buf, cy_pos = 0, cy_remaining = sz\<rparr>, sz))))"

text \<open>The contract of either source under its limit.\<close>

definition either :: "('a \<times> int \<Rightarrow> 'b) \<Rightarrow> ('f \<times> int \<Rightarrow> 'b) \<Rightarrow> ('a + 'f) \<times> int \<Rightarrow> 'b" where
  "either onRand onFile l = (case l of (Inl k, N) \<Rightarrow> onRand (k, N) | (Inr f, N) \<Rightarrow> onFile (f, N))"

lemma either_simps [simp]: "either p q (Inl k, N) = p (k, N)" "either p q (Inr f, N) = q (f, N)"
  by (simp_all add: either_def)

lemma block_source_either:
  assumes A: "block_source rda calla oka lefta enda ranka B" and C: "block_source rdc callc okc leftc endc rankc B"
    and rda: "\<And>k N n. rd (Inl k, N) n = (case rda (k, N) n of (got, err, (k, N)) \<Rightarrow> (got, err, (Inl k, N)))"
    and rdc: "\<And>f N n. rd (Inr f, N) n = (case rdc (f, N) n of (got, err, (f, N)) \<Rightarrow> (got, err, (Inr f, N)))"
  shows "block_source rd (either calla callc) (either oka okc) (either lefta leftc) (either enda endc) (either ranka rankc) B"
proof (rule block_source.intro)
  show "0 < B" by (rule block_source.size [OF A])
  fix l :: "('a + 'b) \<times> int" and n got l'
  have l: "(\<exists>k N. l = (Inl k, N)) \<or> (\<exists>f N. l = (Inr f, N))" by (metis obj_sumE surj_pair)
  show "either calla callc l B" if "either oka okc l"
    using that l block_source.call_start [OF A] block_source.call_start [OF C] by auto
  show "either calla callc l' (n - length got)"
    if "either oka okc l" "either calla callc l n" "rd l n = (got, None, l')" "length got < n"
    using that l block_source.call_rest [OF A] block_source.call_rest [OF C]
    by (auto simp: rda rdc split: prod.splits)
  show "either oka okc l' \<and> length got \<le> n \<and> either lefta leftc l = got @ either lefta leftc l' \<and>
      either enda endc l' = either enda endc l"
    if "either oka okc l" "either calla callc l n" "rd l n = (got, err, l')" for err
    using that l block_source.read_ok [OF A] block_source.read_ok [OF C]
    by (auto simp: rda rdc split: prod.splits)
  show "either lefta leftc l' = [] \<and> e = either enda endc l"
    if "either oka okc l" "either calla callc l n" "rd l n = (got, Some e, l')" for e
    using that l block_source.read_end [OF A] block_source.read_end [OF C]
    by (auto simp: rda rdc split: prod.splits)
  show "either ranka rankc l' < either ranka rankc l"
    if "either oka okc l" "either calla callc l n" "0 < n" "rd l n = ([], None, l')"
    using that l block_source.read_progress [OF A] block_source.read_progress [OF C]
    by (auto simp: rda rdc split: prod.splits)
qed

context byte_source
begin

lemma limited_blocks:
  "block_source (limit_Read (source_Read draw rd)) (either rand_call (\<lambda>_ _. True)) (either (\<lambda>_. True) (limit_ok ok left ending))
     (either (rand_left draw) (limit_left left)) (either (\<lambda>_. EOF) (limit_ending left ending))
     (either (\<lambda>_. 0) (\<lambda>l. rank (fst l))) (16 * MiB)"
  by (rule block_source_either [OF rand_blocks.block_source_axioms
        byte_source_blocks [OF limit_source block_source.size [OF rand_blocks.block_source_axioms]]])
    (simp_all add: limit_Read_def source_Read_def split: prod.split)

end

text \<open>What the source holds: the file, or the little-endian bytes of the words drawn.\<close>

definition source_bytes :: "(nat \<Rightarrow> u64) \<Rightarrow> byte list \<Rightarrow> int \<Rightarrow> string \<Rightarrow> byte list" where
  "source_bytes draw file n input =
     take (nat n) (if input = '''' then rand_words draw 0 (words_for (nat n)) else file)"

text \<open>Without an input the speed test cycles over the first mebibyte of random bytes.\<close>

lemma speedDataSource_random:
  "\<exists>r. speedDataSource draw os_Open n '''' = Inr (Inr r, n) \<and> cy_data r = rand_words draw 0 (MiB div 8) \<and>
    cy_data r \<noteq> [] \<and> cycle_left r = cycle_bytes (rand_words draw 0 (MiB div 8)) 0 (nat n)"
proof -
  have "words_for MiB = MiB div 8" and "0 < MiB div 8" and "8 * (MiB div 8) = MiB"
    by (simp_all add: words_for_def MiB_def KiB_def)
  then show ?thesis by (simp add: speedDataSource_def randReader_full cycle_left_def)
qed

section \<open>Properties\<close>

text \<open>C37: The data of rollstat is what it says: for every file that can be read to its end and every size, the
  prefetching reader of \<open>dataSource\<close> delivers, whatever the interleaving, the first bytes of the file, or
  without an input the bytes of the words drawn, lowest byte first, no word cut before the end. It reports
  EOF after \<open>size\<close> bytes (at once for a size that is not positive) or at the end of the file, and nothing
  else.\<close>

theorem dataSource_stream:
  assumes "byte_source frd ok left ending rank" and "input = '''' \<or> os_Open input = Inr f \<and> ok f \<and> ending f = EOF"
    and "dataSource os_Open n input = Inr s0" and "(pf_step (limit_Read (source_Read draw frd)) (16 * MiB))\<^sup>*\<^sup>* s0 s"
  shows "(\<exists>rest. source_bytes draw (left f) n input = concat (map fst (pf_results s)) @ rest) \<and>
    list_all (\<lambda>(bs, err). case err of None \<Rightarrow> True | Some e \<Rightarrow> bs = [] \<and> e = EOF \<and>
      concat (map fst (pf_results s)) = source_bytes draw (left f) n input) (pf_results s)"
proof -
  define src where "src = (if input = '''' then Inl (0 :: nat) else Inr f, n)"
  note blocks = byte_source.limited_blocks [OF assms(1), of draw]
  have "s0 = newPrefetchReader src (16 * MiB)" using assms(2,3) by (auto simp: dataSource_def src_def)
  then have reach: "pf_reachable (limit_Read (source_Read draw frd)) (16 * MiB) src s"
    using assms(4) by (simp add: pf_reachable_def)
  have ok: "either (\<lambda>_. True) (limit_ok ok left ending) src" using assms(2) by (auto simp: src_def limit_ok_def)
  have bytes: "either (rand_left draw) (limit_left left) src = source_bytes draw (left f) n input"
    by (simp add: src_def rand_left_def limit_left_def source_bytes_def)
  have ends: "pf_final (either (\<lambda>_. EOF) (limit_ending left ending) src) = EOF"
    using assms(2) by (auto simp: src_def limit_ending_def pf_final_def)
  show ?thesis using prefetch_delivers [OF blocks ok reach] unfolding bytes ends by blast
qed

text \<open>A file of three bytes under a limit of two, after the first call of \<open>Read\<close> has returned.\<close>

lemma file_read_once:
  fixes B :: nat and draw :: "nat \<Rightarrow> u64"
  assumes "2 < B"
  shows "\<exists>s. pf_exec (limit_Read (source_Read draw list_Read)) B
      (replicate 4 Go_on @ [Call_Read 5, Call_on, Call_on, Call_on]) (newPrefetchReader (Inr ([1, 2, 3], EOF), 2) B) = Some s \<and>
    pf_results s = [([1, 2], None)]"
proof -
  define rd :: "((nat + byte list \<times> gerror) \<times> int) reader" where "rd = limit_Read (source_Read draw list_Read)"
  have rd2: "rd (Inr ([1, 2, 3], EOF), 2) B = ([1, 2], None, (Inr ([3], EOF), 0))"
    using assms by (simp add: rd_def limit_Read_def source_Read_def)
  have rd0: "rd (Inr ([3], EOF), 0) n = ([], Some EOF, (Inr ([3], EOF), 0))" for n
    by (simp add: rd_def limit_Read_def)
  show ?thesis
    unfolding rd_def [symmetric] using assms
    by (simp add: pf_go_def pf_call_on_def newPrefetchReader_def rd2 rd0 pf_put_def overwrite_def full_error_def
        pf_rest_def pf_len_def numeral_eq_Suc)
qed

theorem dataSource_stream_witness:
  "\<exists>(s0 :: ((nat + byte list \<times> gerror) \<times> int) prefetchReader) (s :: ((nat + byte list \<times> gerror) \<times> int) prefetchReader) rest.
    dataSource (\<lambda>_. Inr ([1, 2, 3], EOF)) 2 ''f'' = Inr s0 \<and> pf_results s = [([1, 2], None)] \<and>
    source_bytes (\<lambda>_. 0) [1, 2, 3] 2 ''f'' = concat (map fst (pf_results s)) @ rest"
proof -
  define s0 :: "((nat + byte list \<times> gerror) \<times> int) prefetchReader"
    where "s0 = newPrefetchReader (Inr ([1, 2, 3], EOF), 2) (16 * MiB)"
  have src: "dataSource (\<lambda>_. Inr ([1, 2, 3], EOF)) 2 ''f'' = Inr s0" by (simp add: dataSource_def s0_def)
  obtain s where s: "(pf_step (limit_Read (source_Read (\<lambda>_. 0) list_Read)) (16 * MiB))\<^sup>*\<^sup>* s0 s" "pf_results s = [([1, 2], None)]"
    using file_read_once [of "16 * MiB" "\<lambda>_. 0"] pf_exec_new unfolding s0_def pf_reachable_def
    by (fastforce simp: MiB_def KiB_def)
  show ?thesis
    using dataSource_stream [OF list_source.byte_source_axioms _ src s(1), of "([1, 2, 3], EOF)"] src s(2) by auto
qed

end
