(* ===== verification/Stat_Counts.thy ===== *)
theory Stat_Counts
  imports Hit_Blocks
begin

text \<open>
  The histograms of \<open>cmdStat\<close> in rollstat/main.go: for every checksum one counter for each of its eight
  bytes and one for its trailing zeros is raised, and afterwards the counters of the bytes are turned
  into counters of the bits. The lemmas say that both are what their names say. Counters are \<open>uint64\<close>.
\<close>

section \<open>Counting\<close>

text \<open>The array \<open>byteCounts\<close> is only indexed by 0 to 7 and by a byte; \<open>tzHist\<close> has 65 entries.\<close>

record stat_counts =
  st_byteCounts :: "nat \<Rightarrow> u64 byte_table"
  st_tzHist :: "u64 list"
  st_total :: u64

definition stat_zero :: stat_counts where
  "stat_zero = \<lparr>st_byteCounts = (\<lambda>_ _. 0), st_tzHist = replicate 65 0, st_total = 0\<rparr>"

text \<open>\<open>byteCounts[b][(sum>>(8*b))&0xff]++\<close>; for \<open>b = 7\<close> the mask is not needed.\<close>

definition sum_byte :: "nat \<Rightarrow> u64 \<Rightarrow> byte" where
  "sum_byte b s = ucast (drop_bit (8 * b) s)"

definition count_byte :: "u64 \<Rightarrow> nat \<Rightarrow> (nat \<Rightarrow> u64 byte_table) \<Rightarrow> nat \<Rightarrow> u64 byte_table" where
  "count_byte s b counts = counts(b := (counts b)(sum_byte b s := counts b (sum_byte b s) + 1))"

definition stat_sum :: "u64 \<Rightarrow> stat_counts \<Rightarrow> stat_counts option" where
  "stat_sum s st =
     (let counts = count_byte s 7 (count_byte s 6 (count_byte s 5 (count_byte s 4
            (count_byte s 3 (count_byte s 2 (count_byte s 1 (count_byte s 0 (st_byteCounts st))))))))
      in do {
        old \<leftarrow> idx (st_tzHist st) (trailing_zeros s);
        tz \<leftarrow> upd (st_tzHist st) (trailing_zeros s) (old + 1);
        Some \<lparr>st_byteCounts = counts, st_tzHist = tz, st_total = st_total st + 1\<rparr>
      })"

primrec stat_sums :: "u64 list \<Rightarrow> stat_counts \<Rightarrow> stat_counts option" where
  "stat_sums [] st = Some st"
| "stat_sums (s # ss) st = do { st \<leftarrow> stat_sum s st; stat_sums ss st }"

section \<open>From bytes to bits\<close>

text \<open>The three loops: \<open>for i := range 8\<close>, \<open>for v := range 256\<close>, \<open>for b := range 8\<close>.\<close>

definition bits_of_value :: "nat \<Rightarrow> nat \<Rightarrow> u64 \<Rightarrow> (nat \<Rightarrow> u64) \<Rightarrow> nat \<Rightarrow> u64" where
  "bits_of_value b v c bits =
     fold (\<lambda>i bits. if drop_bit i v AND 1 = 1 then bits(b * 8 + i := bits (b * 8 + i) + c) else bits) [0..<8] bits"

definition bits_of_byte :: "(nat \<Rightarrow> u64 byte_table) \<Rightarrow> nat \<Rightarrow> (nat \<Rightarrow> u64) \<Rightarrow> nat \<Rightarrow> u64" where
  "bits_of_byte counts b bits =
     fold (\<lambda>v bits. let c = counts b (word_of_nat v) in if c = 0 then bits else bits_of_value b v c bits) [0..<256] bits"

definition bit_counts :: "(nat \<Rightarrow> u64 byte_table) \<Rightarrow> nat \<Rightarrow> u64" where
  "bit_counts counts = fold (bits_of_byte counts) [0..<8] (\<lambda>_. 0)"

section \<open>The counters are right\<close>

definition tally :: "('a \<Rightarrow> bool) \<Rightarrow> 'a list \<Rightarrow> u64" where
  "tally P xs = word_of_nat (length (filter P xs))"

lemma tally_simps [simp]: "tally P [] = 0" "tally P (x # xs) = (if P x then 1 else 0) + tally P xs"
  by (simp_all add: tally_def)

lemma tally_cong: "(\<And>x. x \<in> set xs \<Longrightarrow> P x \<longleftrightarrow> Q x) \<Longrightarrow> tally P xs = tally Q xs"
  unfolding tally_def by (metis (mono_tags, lifting) filter_cong)

lemma count_byte_at:
  "count_byte s b counts b' x = counts b' x + (if b' = b \<and> sum_byte b s = x then 1 else 0)"
  by (simp add: count_byte_def)

lemma trailing_zeros_le: "trailing_zeros (x :: u64) \<le> 64"
proof -
  have "length (takeWhile P [0..<64]) \<le> 64" for P using length_takeWhile_le [of P "[0..<64]"] by simp
  then show ?thesis by (simp add: trailing_zeros_def)
qed

text \<open>\<open>st\<close> holds the counts of the sums so far.\<close>

definition counts_are :: "u64 list \<Rightarrow> stat_counts \<Rightarrow> bool" where
  "counts_are ss st \<longleftrightarrow>
     (\<forall>b < 8. \<forall>x. st_byteCounts st b x = tally (\<lambda>s. sum_byte b s = x) ss) \<and>
     st_tzHist st = map (\<lambda>k. tally (\<lambda>s. trailing_zeros s = k) ss) [0..<65] \<and>
     st_total st = tally (\<lambda>_. True) ss"

lemma counts_are_zero: "counts_are [] stat_zero"
  by (simp add: counts_are_def stat_zero_def map_replicate_const)

lemma stat_sum_ok:
  assumes "counts_are ss st"
  shows "\<exists>st'. stat_sum s st = Some st' \<and> counts_are (s # ss) st'"
proof -
  let ?k = "trailing_zeros s"
  let ?hist = "\<lambda>ss. map (\<lambda>k. tally (\<lambda>s. trailing_zeros s = k) ss) [0..<65]"
  have k: "?k < 65" using trailing_zeros_le [of s] by simp
  have tz: "st_tzHist st = ?hist ss" using assms by (simp add: counts_are_def)
  have "(?hist ss)[?k := ?hist ss ! ?k + 1] = ?hist (s # ss)"
    using k by (intro nth_equalityI) (auto simp: nth_list_update simp del: upt_Suc)
  then have "upd (st_tzHist st) ?k (?hist ss ! ?k + 1) = Some (?hist (s # ss))"
    "idx (st_tzHist st) ?k = Some (?hist ss ! ?k)"
    using k by (simp_all add: tz upd_def idx_def del: upt_Suc)
  then show ?thesis
    using assms unfolding stat_sum_def counts_are_def
    by (simp add: Let_def count_byte_at numeral_eq_Suc less_Suc_eq del: upt_Suc)
qed

lemma tally_append [simp]: "tally P (xs @ ys) = tally P xs + tally P ys"
  by (simp add: tally_def)

lemma tally_rev [simp]: "tally P (rev xs) = tally P xs"
  by (simp add: tally_def rev_filter [symmetric])

lemma stat_sums_ok:
  "counts_are ss0 st \<Longrightarrow> \<exists>st'. stat_sums ss st = Some st' \<and> counts_are (rev ss @ ss0) st'"
proof (induction ss arbitrary: ss0 st)
  case (Cons s ss)
  obtain st1 where "stat_sum s st = Some st1" and "counts_are (s # ss0) st1"
    using stat_sum_ok [OF Cons.prems] by blast
  then show ?case using Cons.IH [of "s # ss0" st1] by simp
qed simp

lemma stat_sums_append:
  "stat_sums (xs @ ys) st = do { st \<leftarrow> stat_sums xs st; stat_sums ys st }"
  by (induction xs arbitrary: st) simp_all

text \<open>The loops over the bits of a value, over the values of a byte and over the bytes.\<close>

lemma bits_of_value_at:
  "bits_of_value b v c bits j = bits j + (if j div 8 = b \<and> drop_bit (j mod 8) v AND 1 = 1 then c else 0)"
proof -
  define step where "step i bits = (if drop_bit i v AND 1 = 1 then bits(b * 8 + i := bits (b * 8 + i) + c) else bits)"
    for i and bits :: "nat \<Rightarrow> u64"
  have "fold step [0..<n] bits j =
      bits j + (if b * 8 \<le> j \<and> j < b * 8 + n \<and> drop_bit (j - b * 8) v AND 1 = 1 then c else 0)" for n
    by (induction n) (auto simp: step_def less_Suc_eq)
  from this [of 8] have "fold step [0..<8] bits j =
      bits j + (if b * 8 \<le> j \<and> j < b * 8 + 8 \<and> drop_bit (j - b * 8) v AND 1 = 1 then c else 0)" .
  moreover have "b * 8 \<le> j \<and> j < b * 8 + 8 \<longleftrightarrow> j div 8 = b" by linarith
  moreover have "j div 8 = b \<Longrightarrow> j - b * 8 = j mod 8" by (metis minus_div_mult_eq_mod)
  ultimately show ?thesis unfolding bits_of_value_def step_def [symmetric] by auto
qed

definition bit_sum :: "u64 byte_table \<Rightarrow> nat \<Rightarrow> u64" where
  "bit_sum table k = (\<Sum>v<256. if drop_bit k v AND 1 = 1 then table (word_of_nat v) else 0)"

lemma bits_of_byte_at:
  "bits_of_byte counts b bits j = bits j + (if j div 8 = b then bit_sum (counts b) (j mod 8) else 0)"
proof -
  define step where "step v bits = (let c = counts b (word_of_nat v) in if c = 0 then bits else bits_of_value b v c bits)"
    for v and bits :: "nat \<Rightarrow> u64"
  have "fold step [0..<n] bits j = bits j +
      (if j div 8 = b then (\<Sum>v<n. if drop_bit (j mod 8) v AND 1 = 1 then counts b (word_of_nat v) else 0) else 0)" for n
    by (induction n) (auto simp: step_def Let_def bits_of_value_at)
  from this [of 256] show ?thesis unfolding bits_of_byte_def step_def [symmetric] bit_sum_def .
qed

lemma bit_counts_at:
  assumes "j < 64"
  shows "bit_counts counts j = bit_sum (counts (j div 8)) (j mod 8)"
proof -
  have "fold (bits_of_byte counts) [0..<n] bits j = bits j + (if j div 8 < n then bit_sum (counts (j div 8)) (j mod 8) else 0)"
    for n bits
    by (induction n) (auto simp: bits_of_byte_at less_Suc_eq)
  moreover have "j div 8 < 8" using assms by linarith
  ultimately show ?thesis unfolding bit_counts_def by simp
qed

text \<open>The values of a byte that have a bit, counted one by one, are the sums that have it.\<close>

lemma bit_sum_tally:
  assumes "k < 8"
  shows "bit_sum (\<lambda>x. tally (\<lambda>s. f s = x) ss) k = tally (\<lambda>s. bit (f s) k) ss"
proof (induction ss)
  case Nil
  show ?case by (simp add: bit_sum_def)
next
  case (Cons s ss)
  have same: "f s = word_of_nat v \<longleftrightarrow> v = unat (f s)" if "v < 256" for v
    using that by (auto simp: unat_of_nat take_bit_eq_mod)
  have lt: "unat (f s) < 256" using unsigned_less [of "f s"] by simp
  have bit: "drop_bit k v AND 1 = (1 :: nat) \<longleftrightarrow> bit v k" for v :: nat
    by (simp add: bit_iff_odd_drop_bit and_one_eq odd_iff_mod_2_eq_one)
  have "(\<Sum>v<256. if bit v k then if f s = word_of_nat v then (1 :: u64) else 0 else 0) =
      (\<Sum>v<256. if v = unat (f s) then if bit v k then 1 else 0 else 0)"
    by (intro sum.cong) (auto simp: same)
  also have "\<dots> = (if bit (f s) k then 1 else 0)"
    using lt by (simp add: bit_unsigned_iff assms)
  finally have "(\<Sum>v<256. if bit v k then if f s = word_of_nat v then (1 :: u64) else 0 else 0) = \<dots>" .
  moreover have "bit_sum (\<lambda>x. tally (\<lambda>s. f s = x) (s # ss)) k =
      (\<Sum>v<256. if bit v k then if f s = word_of_nat v then (1 :: u64) else 0 else 0) + bit_sum (\<lambda>x. tally (\<lambda>s. f s = x) ss) k"
    unfolding bit_sum_def bit sum.distrib [symmetric] by (intro sum.cong) auto
  ultimately show ?case using Cons by simp
qed

lemma bit_sum_byte: "k < 8 \<Longrightarrow> bit (sum_byte b s) k = bit s (8 * b + k)"
  by (simp add: sum_byte_def bit_simps)

lemma bit_counts_ok:
  assumes "counts_are ss st" and "j < 64"
  shows "bit_counts (st_byteCounts st) j = tally (\<lambda>s. bit s j) ss"
proof -
  have "st_byteCounts st (j div 8) = (\<lambda>x. tally (\<lambda>s. sum_byte (j div 8) s = x) ss)"
    using assms by (auto simp: counts_are_def)
  then have "bit_counts (st_byteCounts st) j = tally (\<lambda>s. bit (sum_byte (j div 8) s) (j mod 8)) ss"
    using assms(2) by (simp add: bit_counts_at bit_sum_tally)
  then show ?thesis by (simp add: bit_sum_byte)
qed

end
