(* ===== verification/Rollstat.thy ===== *)
theory Rollstat
  imports Data_Source Stat_Counts Batching
begin

text \<open>
  The measurements of rollstat/main.go over any hash package and any reader: \<open>rollSpeed\<close> rolls a hash
  over the data byte by byte, \<open>cmdStat\<close> counts bits and trailing zeros of all checksums, \<open>cmdSpeed\<close>
  chooses an interface and runs it to the end. \<open>log.Fatal\<close> ends the program: it is a result \<open>Inl\<close>;
  \<open>None\<close> is a panic or a loop that does not end. Times, rates and entropies are floating point and only
  printed; they are not modelled.
\<close>

datatype fatal = Fatal gerror | Fatal_too_small nat | Fatal_interface string

section \<open>Rolling byte by byte\<close>

text \<open>\<open>for i := range n { h.Roll(buf[i]) }\<close>\<close>

primrec roll_bytes :: "'d hash_iface \<Rightarrow> byte list \<Rightarrow> 'd \<Rightarrow> 'd option" where
  "roll_bytes H [] h = Some h"
| "roll_bytes H (c # cs) h = do { h \<leftarrow> h_Roll H h c; roll_bytes H cs h }"

partial_function (option) roll_loop :: "'r reader \<Rightarrow> 'd hash_iface \<Rightarrow> 'r \<Rightarrow> 'd \<Rightarrow> int \<Rightarrow> (fatal + 'd \<times> int) option" where
  "roll_loop rd H r h cnt =
     (case rd r (16 * MiB) of (got, err, r) \<Rightarrow> do {
        h \<leftarrow> roll_bytes H got h;
        let cnt = wrap_int (cnt + int (length got));
        case err of
          None \<Rightarrow> roll_loop rd H r h cnt
        | Some e \<Rightarrow> if e = EOF then Some (Inr (h, cnt)) else Some (Inl (Fatal e))
      })"

declare roll_loop.simps [code]

text \<open>The result is the hash and the number of bytes cnt, an \<open>int64\<close>; the code divides it by the time.\<close>

definition rollSpeed :: "'r reader \<Rightarrow> 'd hash_iface \<Rightarrow> 'r \<Rightarrow> 'd \<Rightarrow> (fatal + 'd \<times> int) option" where
  "rollSpeed rd H r h = do {
     (buf, err, r) \<leftarrow> read_full rd r stat_window [];
     if length buf < stat_window then Some (Inl (Fatal_too_small (length buf)))
     else
       case (if err = Some ErrUnexpectedEOF then None else err) of
         Some e \<Rightarrow> Some (Inl (Fatal e))
       | None \<Rightarrow> do { h \<leftarrow> h_Write H h buf; roll_loop rd H r h 0 }
   }"

section \<open>The statistics\<close>

text \<open>\<open>for s.Next() { for _, sum := range s.Sums() { ... } }\<close>\<close>

partial_function (option) stat_loop :: "'r reader \<Rightarrow> ('d, 'r) batchRoller \<Rightarrow> stat_counts \<Rightarrow>
    (stat_counts \<times> ('d, 'r) batchRoller) option" where
  "stat_loop rd s st = do {
     (ok, s) \<leftarrow> batchRoller_Next rd s;
     if ok then do {
       st \<leftarrow> stat_sums (case batchRoller_Sums s of None \<Rightarrow> [] | Some sums \<Rightarrow> sums) st;
       stat_loop rd s st
     } else Some (st, s)
   }"

declare stat_loop.simps [code]

definition cmdStat :: "'r reader \<Rightarrow> 'd hash_iface \<Rightarrow> 'r \<Rightarrow> 'd \<Rightarrow> (fatal + stat_counts \<times> (nat \<Rightarrow> u64)) option" where
  "cmdStat rd H r h = do {
     s \<leftarrow> NewBatchRoller r H h (int stat_window) [WithBufferSize (int (16 * MiB))];
     (st, s) \<leftarrow> stat_loop rd s stat_zero;
     case batchRoller_Err s of
       Some e \<Rightarrow> Some (Inl (Fatal e))
     | None \<Rightarrow> Some (Inr (st, bit_counts (st_byteCounts st)))
   }"

section \<open>The speed test\<close>

text \<open>The three interfaces; what they compute is thrown away, the time is taken.\<close>

definition cmdSpeed :: "'r reader \<Rightarrow> 'd hash_iface \<Rightarrow> 'r \<Rightarrow> 'd \<Rightarrow> string \<Rightarrow> (fatal + unit) option" where
  "cmdSpeed rd H r h iface =
     (if iface = ''roll'' then do {
        res \<leftarrow> rollSpeed rd H r h;
        case res of Inl f \<Rightarrow> Some (Inl f) | Inr _ \<Rightarrow> Some (Inr ())
      }
      else if iface = ''batchroll'' then do {
        s \<leftarrow> NewBatchRoller r H h (int stat_window) [WithBufferSize (int (16 * MiB))];
        (_, s) \<leftarrow> br_drain rd s;
        case batchRoller_Err s of Some e \<Rightarrow> Some (Inl (Fatal e)) | None \<Rightarrow> Some (Inr ())
      }
      else if iface = ''chunk'' then do {
        c \<leftarrow> NewChunker r H h (int stat_window) 0xff [];
        (_, c) \<leftarrow> chunker_drain rd c;
        case chunker_Err c of Some e \<Rightarrow> Some (Inl (Fatal e)) | None \<Rightarrow> Some (Inr ())
      }
      else Some (Inl (Fatal_interface iface)))"

section \<open>Lemmas\<close>

lemma wrap_int_add: "wrap_int (wrap_int a + b) = wrap_int (a + b)"
  by (simp add: wrap_int_def) (metis (no_types, opaque_lifting) add.assoc add.commute mod_add_left_eq)

context digest
begin

lemma roll_bytes_ok:
  "inv h \<Longrightarrow> win h \<noteq> [] \<Longrightarrow> \<exists>h'. roll_bytes H cs h = Some h' \<and> inv h' \<and> S h' = S h \<and>
    win h' = drop (length cs) (win h @ cs) \<and> win h' \<noteq> []"
proof (induction cs arbitrary: h)
  case (Cons c cs)
  obtain x ys where w: "win h = x # ys" using Cons.prems(2) by (cases "win h") auto
  obtain h1 where h1: "h_Roll H h c = Some h1" "inv h1" "win h1 = ys @ [c]" "S h1 = S h"
    using roll_ok [OF Cons.prems(1) w] by blast
  then show ?case using Cons.IH [of h1] w by auto
qed simp

end

context hash_stream
begin

lemma roll_loop_ok:
  assumes "rok r" and "inv h" and "win h \<noteq> []"
  shows "if ending r = EOF
    then \<exists>h'. roll_loop rd H r h cnt = Some (Inr (h', wrap_int (cnt + int (length (left r))))) \<and> inv h' \<and>
      S h' = S h \<and> win h' = drop (length (left r)) (win h @ left r)
    else roll_loop rd H r h cnt = Some (Inl (Fatal (ending r)))"
  using assms
proof (induction "(length (left r), rank r)" arbitrary: r h cnt rule: wf_induct_rule [OF wf_lex_prod [OF wf_less_than wf_less_than]])
  case (1 r h cnt)
  obtain got err r1 where rd: "rd r (16 * MiB) = (got, err, r1)" by (metis prod_cases3)
  note r1 = read_ok [OF 1(2) rd]
  obtain h1 where h1: "roll_bytes H got h = Some h1" "inv h1" "S h1 = S h" "win h1 = drop (length got) (win h @ got)"
      "win h1 \<noteq> []"
    using roll_bytes_ok [OF 1(3,4), of got] by blast
  have step: "roll_loop rd H r h cnt =
      (case err of
          None \<Rightarrow> roll_loop rd H r1 h1 (wrap_int (cnt + int (length got)))
        | Some e \<Rightarrow> if e = EOF then Some (Inr (h1, wrap_int (cnt + int (length got)))) else Some (Inl (Fatal e)))"
    using rd h1(1) by (subst roll_loop.simps) (simp add: Let_def)
  show ?case
  proof (cases err)
    case (Some e)
    then have "left r1 = []" "e = ending r" using read_end [OF 1(2)] rd by blast+
    then show ?thesis using step Some r1 h1 by simp
  next
    case None
    have "((length (left r1), rank r1), (length (left r), rank r)) \<in> less_than <*lex*> less_than"
      using read_progress [OF 1(2), of "16 * MiB" r1] rd None r1 rand_blocks.size by (cases "got = []") auto
    note IH = 1(1) [OF this conjunct1 [OF r1] h1(2,5), of "wrap_int (cnt + int (length got))"]
    have final_window: "drop (length (left r1)) (win h1 @ left r1) = drop (length (left r)) (win h @ left r)"
    proof -
      have "drop (length got) (win h @ got) @ left r1 = drop (length got) (win h @ left r)"
        using r1 drop_append [of "length got" "win h @ got" "left r1"] by (simp del: drop_append)
      then have "drop (length (left r1)) (drop (length got) (win h @ got) @ left r1) =
          drop (length (left r1)) (drop (length got) (win h @ left r))" by (rule arg_cong)
      also have "\<dots> = drop (length (left r)) (win h @ left r)"
        using r1 unfolding drop_drop by (metis length_append add.commute)
      finally show ?thesis unfolding h1(4) .
    qed
    have count: "wrap_int (wrap_int (cnt + int (length got)) + int (length (left r1))) = wrap_int (cnt + int (length (left r)))"
      using r1 by (simp add: wrap_int_add add.assoc)
    have same: "ending r1 = ending r" "roll_loop rd H r h cnt = roll_loop rd H r1 h1 (wrap_int (cnt + int (length got)))"
      using r1 step None by simp_all
    show ?thesis using IH unfolding final_window count same h1(3) .
  qed
qed

lemma rollSpeed_ok:
  assumes "rok r" and "inv h" and "win h = []" and "fits stat_window"
  shows "if length (left r) < stat_window then rollSpeed rd H r h = Some (Inl (Fatal_too_small (length (left r))))
    else if ending r = EOF
    then \<exists>h'. rollSpeed rd H r h = Some (Inr (h', wrap_int (int (length (left r) - stat_window)))) \<and>
      core_sum H h' = S h (drop (length (left r) - stat_window) (left r))
    else rollSpeed rd H r h = Some (Inl (Fatal (ending r)))"
proof -
  obtain got eof err r' where rb: "read_block rd r stat_window [] = Some (got, eof, err, r')" "rok r'"
      "left r = got @ left r'" "length got \<le> stat_window" "ending r' = ending r"
    and ends: "if eof then err = None \<and> left r' = [] \<and> ending r = EOF
     else if err = None then length got = stat_window else left r' = [] \<and> err = Some (ending r) \<and> ending r \<noteq> EOF"
    using read_block_ok [OF assms(1), of "[]" stat_window, unfolded append_Nil] by auto
  show ?thesis
  proof (cases "length got < stat_window")
    case True
    then have "length (left r) = length got" using ends rb(3) by (auto split: if_splits)
    then show ?thesis using True read_full_block [OF rb(1)] by (simp add: rollSpeed_def)
  next
    case False
    then have len: "length got = stat_window" using rb(4) by simp
    obtain h1 where h1: "h_Write H h got = Some h1" "inv h1" "win h1 = got" "S h1 = S h"
      using write_ok [OF assms(2), of got] assms(3,4) len by auto
    have "win h1 \<noteq> []" using h1(3) len by (auto simp: stat_window_def)
    note loop = roll_loop_ok [OF rb(2) h1(2) this, of 0]
    have "rollSpeed rd H r h = roll_loop rd H r' h1 0"
      using read_full_block [OF rb(1)] len h1(1) by (simp add: rollSpeed_def)
    moreover have "length (left r') = length (left r) - stat_window" using rb(3) len by simp
    ultimately show ?thesis using loop h1 rb(3,5) len sum_window by auto
  qed
qed

end

text \<open>The loop over the batches counts the sums of all of them.\<close>

lemma stat_loop_drain:
  assumes "br_drain rd s = Some y"
  shows "\<forall>st st'. stat_sums (concat (map bt_sums (fst y))) st = Some st' \<longrightarrow> stat_loop rd s st = Some (st', snd y)"
proof (rule br_drain.raw_induct [OF _ assms, where P = "\<lambda>rd s y. \<forall>st st'.
    stat_sums (concat (map bt_sums (fst y))) st = Some st' \<longrightarrow> stat_loop rd s st = Some (st', snd y)"], intro allI impI)
  fix drain :: "'r reader \<Rightarrow> ('d, 'r) batchRoller \<Rightarrow> (batch list \<times> ('d, 'r) batchRoller) option" and rd s y st st'
  assume IH: "\<And>rd s y. drain rd s = Some y \<Longrightarrow> \<forall>st st'.
      stat_sums (concat (map bt_sums (fst y))) st = Some st' \<longrightarrow> stat_loop rd s st = Some (st', snd y)"
    and body: "(do {
       (ok, s) \<leftarrow> batchRoller_Next rd s;
       if ok then do {
         (out, s') \<leftarrow> drain rd s;
         Some ((case bcore_current (br_core s) of Some b \<Rightarrow> [b] | None \<Rightarrow> []) @ out, s')
       } else Some ([], s)
     }) = Some y"
    and sums: "stat_sums (concat (map bt_sums (fst y))) st = Some st'"
  obtain ok s1 where n: "batchRoller_Next rd s = Some (ok, s1)" using body by (auto split: bind_splits)
  show "stat_loop rd s st = Some (st', snd y)"
  proof (cases ok)
    case False
    then have "y = ([], s1)" using body n by simp
    then show ?thesis using n False sums by (subst stat_loop.simps) simp
  next
    case True
    then obtain bt where bt: "bcore_current (br_core s1) = Some bt"
      using batchRoller_Next_current [OF n] by auto
    then have bsums: "bc_sums (br_core s1) = Some (bt_sums bt)"
      by (auto simp: bcore_current_def split: bind_splits)
    obtain out s2 where y: "drain rd s1 = Some (out, s2)" "y = (bt # out, s2)"
      using body n True bt by (auto split: bind_splits)
    obtain st1 where st1: "stat_sums (bt_sums bt) st = Some st1" "stat_sums (concat (map bt_sums out)) st1 = Some st'"
      using sums y by (auto simp: stat_sums_append split: bind_splits)
    show ?thesis
      using n True bsums st1 IH [OF y(1)] y by (subst stat_loop.simps) simp
  qed
qed

lemma tally_upt: "tally P (map f [0..<n]) = word_of_nat (card {i. i < n \<and> P (f i)})"
proof -
  have "length (filter P (map f [0..<n])) = card {i. i < n \<and> P (f i)}"
    by (simp add: filter_map comp_def length_filter_conv_card del: upt_Suc cong: conj_cong)
  then show ?thesis by (simp add: tally_def)
qed

context hash_stream
begin

lemma cmdStat_ok:
  assumes "inv h" and "fits stat_window" and "rok r"
    and D: "D = left r" and sm: "sm = (\<lambda>i. S h (window_at stat_window D i))" and n: "n = length D + 1 - stat_window"
  shows "if ending r = EOF
    then \<exists>st bits. cmdStat rd H r h = Some (Inr (st, bits)) \<and> st_total st = word_of_nat n \<and>
      (\<forall>j < 64. bits j = word_of_nat (card {i. i < n \<and> bit (sm i) j})) \<and>
      (\<forall>k \<le> 64. st_tzHist st ! k = word_of_nat (card {i. i < n \<and> trailing_zeros (sm i) = k}))
    else cmdStat rd H r h = Some (Inl (Fatal (ending r)))"
proof -
  have w: "1 \<le> stat_window" "int stat_window \<le> int (16 * MiB)" by (simp_all add: stat_window_def MiB_def KiB_def)
  obtain c out c' where c: "NewBatchRoller r H h (int stat_window) [WithBufferSize (int (16 * MiB))] = Some c"
      "br_drain rd c = Some (out, c')" "rolled (S h) stat_window (left r) (ending r) out (bc_err (br_core c'))"
    using new_roll [OF assms(1,2) w assms(3)] by blast
  obtain st where st: "stat_sums (concat (map bt_sums out)) stat_zero = Some st"
      "counts_are (rev (concat (map bt_sums out))) st"
    using stat_sums_ok [OF counts_are_zero] by fastforce
  have run: "cmdStat rd H r h = (case bc_err (br_core c') of
      Some e \<Rightarrow> Some (Inl (Fatal e)) | None \<Rightarrow> Some (Inr (st, bit_counts (st_byteCounts st))))"
    using c(1) stat_loop_drain [OF c(2)] st(1) by (simp add: cmdStat_def)
  show ?thesis
  proof (cases "ending r = EOF")
    case False
    then show ?thesis using run c(3) by (simp add: rolled_def)
  next
    case True
    then have err: "bc_err (br_core c') = None" and sums: "concat (map bt_sums out) = map sm [0..<n]"
      using c(3) batches_at_sums by (auto simp: rolled_def sm n D)
    have total: "st_total st = word_of_nat n" and tz: "st_tzHist st = map (\<lambda>k. tally (\<lambda>s. trailing_zeros s = k) (map sm [0..<n])) [0..<65]"
      using st(2) by (simp_all add: counts_are_def sums tally_upt)
    have bits: "bit_counts (st_byteCounts st) j = word_of_nat (card {i. i < n \<and> bit (sm i) j})" if "j < 64" for j
      using bit_counts_ok [OF st(2) that] by (simp add: sums tally_upt)
    have "st_tzHist st ! k = word_of_nat (card {i. i < n \<and> trailing_zeros (sm i) = k})" if "k \<le> 64" for k
      using that by (simp add: tz tally_upt del: upt_Suc)
    then show ?thesis using True run err total bits by simp
  qed
qed

lemma cmdSpeed_ok:
  assumes h: "inv h" "win h = []" "fits stat_window" and r: "rok r" "ending r = EOF"
    and len: "stat_window \<le> length (left r)" "int (length (left r)) + 16384 < MaxInt"
  shows "cmdSpeed rd H r h iface =
    (if iface \<in> {''roll'', ''batchroll'', ''chunk''} then Some (Inr ()) else Some (Inl (Fatal_interface iface)))"
proof -
  have w: "1 \<le> stat_window" "int stat_window \<le> int (16 * MiB)" by (simp_all add: stat_window_def MiB_def KiB_def)
  obtain c out c' where c: "NewBatchRoller r H h (int stat_window) [WithBufferSize (int (16 * MiB))] = Some c"
      "br_drain rd c = Some (out, c')" "bc_err (br_core c') = None"
    using new_roll [OF h(1,3) w r(1)] r(2) by (auto simp: rolled_def)
  define X where "X = \<lparr>sp_sum = S h, sp_window = int stat_window, sp_mask = 0xff, sp_min = 0, sp_max = MaxInt\<rparr>"
  have ok: "spec_ok X chunkerBatchSize" "no_overflow X chunkerBatchSize (int (length (left r)))"
    using len(2) by (simp_all add: spec_ok_def no_overflow_def X_def chunkerBatchSize_def stat_window_def MaxInt_def)
  have "NewChunker r H h (int stat_window) 0xff [WithBoundaries 0 MaxInt, WithBatchSize chunkerBatchSize] =
      NewChunker r H h (int stat_window) 0xff []"
    by (auto simp: NewChunker_def newChunkerCore_def WithBoundaries_def WithBatchSize_def Let_def split: bind_splits)
  then obtain k out2 k' where k: "NewChunker r H h (int stat_window) 0xff [] = Some k"
      "chunker_drain rd k = Some (out2, k')" "cc_err (ch_core k') = None"
    using new_drain [OF h(1) X_def ok(1) _ r(1) ok(2)] h(3) r(2) by (auto simp: drained_def)
  obtain h' where "rollSpeed rd H r h = Some (Inr (h', wrap_int (int (length (left r) - stat_window))))"
    using rollSpeed_ok [OF r(1) h] r(2) len(1) by auto
  then show ?thesis using c k by (simp add: cmdSpeed_def)
qed

end

section \<open>Properties\<close>

text \<open>C39: The roll test rolls what it counts: for every hash and reader that keep their contracts, data of
  fewer than 56 bytes is refused with its length; otherwise the loop ends, a failure of the reader is
  reported, and at the end of the stream every byte after the first 56 was rolled exactly once: the count
  is that number, as an \<open>int64\<close>, and the sum is the checksum of the last 56 bytes.\<close>

theorem rollSpeed_sums:
  assumes "digest H dinv win S fits" and "byte_source rd rok left ending rank"
    and "rok r" and "dinv h" and "win h = []" and "fits stat_window"
  shows "if length (left r) < stat_window then rollSpeed rd H r h = Some (Inl (Fatal_too_small (length (left r))))
    else if ending r = EOF
    then \<exists>h'. rollSpeed rd H r h = Some (Inr (h', wrap_int (int (length (left r) - stat_window)))) \<and>
      core_sum H h' = S h (drop (length (left r) - stat_window) (left r))
    else rollSpeed rd H r h = Some (Inl (Fatal (ending r)))"
  by (rule hash_stream.rollSpeed_ok [OF hash_stream.intro [OF assms(1,2)] assms(3-6)])

theorem rollSpeed_sums_witness:
  "\<exists>h'. rollSpeed list_Read bozo32_iface (replicate 57 7, EOF) (bozo32_NewFromInt 3) = Some (Inr (h', 1)) \<and>
    core_sum bozo32_iface h' = ucast (bozo32_hash 3 (replicate 56 7))"
  using rollSpeed_sums [OF bozo32_digest.digest_axioms list_source.byte_source_axioms TrueI bozo32_New_inv [of 3] TrueI,
      of "(replicate 57 7, EOF)"]
  by (simp add: stat_window_def wrap_int_def drop_replicate bozo32_NewFromInt_def)

text \<open>C14: The statistics of \<open>cmdStat\<close> are those of the stream: for every hash and reader that keep their
  contracts, the loop ends, a failure of the reader is reported, and otherwise the total is the number of
  windows of 56 bytes, each of the 64 bit counters, which the code derives from histograms of bytes, is the
  number of windows whose checksum has that bit, and each entry of the histogram is the number of
  windows whose checksum has so many trailing zeros, 64 for the checksum 0. All modulo \<open>2^64\<close>.\<close>

theorem cmdStat_counts:
  assumes "digest H dinv win S fits" and "byte_source rd rok left ending rank"
    and "dinv h" and "fits stat_window" and "rok r"
    and "D = left r" and "sm = (\<lambda>i. S h (window_at stat_window D i))" and "n = length D + 1 - stat_window"
  shows "if ending r = EOF
    then \<exists>st bits. cmdStat rd H r h = Some (Inr (st, bits)) \<and> st_total st = word_of_nat n \<and>
      (\<forall>j < 64. bits j = word_of_nat (card {i. i < n \<and> bit (sm i) j})) \<and>
      (\<forall>k \<le> 64. st_tzHist st ! k = word_of_nat (card {i. i < n \<and> trailing_zeros (sm i) = k}))
    else cmdStat rd H r h = Some (Inl (Fatal (ending r)))"
  by (rule hash_stream.cmdStat_ok [OF hash_stream.intro [OF assms(1,2)] assms(3-8)])

theorem cmdStat_counts_witness:
  "\<exists>st bits. cmdStat list_Read bozo32_iface (replicate 57 7, EOF) (bozo32_NewFromInt 3) = Some (Inr (st, bits)) \<and>
    st_total st = 2"
  using cmdStat_counts [OF bozo32_digest.digest_axioms list_source.byte_source_axioms bozo32_New_inv(1) [of 3] TrueI TrueI
      refl refl refl, of "(replicate 57 7, EOF)"]
  by (auto simp: stat_window_def)

text \<open>Every speed test ends: for every hash and reader that keep their contracts and a stream of at least 56
  bytes that ends with EOF, the roll, batch and chunk loops return without a fatal error or a panic; any
  other name of an interface is refused.\<close>

theorem cmdSpeed_ends:
  assumes "digest H dinv win S fits" and "byte_source rd rok left ending rank"
    and "dinv h" and "win h = []" and "fits stat_window" and "rok r" and "ending r = EOF"
    and "stat_window \<le> length (left r)" and "int (length (left r)) + 16384 < MaxInt"
  shows "cmdSpeed rd H r h iface =
    (if iface \<in> {''roll'', ''batchroll'', ''chunk''} then Some (Inr ()) else Some (Inl (Fatal_interface iface)))"
  by (rule hash_stream.cmdSpeed_ok [OF hash_stream.intro [OF assms(1,2)] assms(3-9)])

theorem cmdSpeed_ends_witness:
  "cmdSpeed list_Read bozo32_iface (replicate 57 7, EOF) (bozo32_NewFromInt 3) ''chunk'' = Some (Inr ())"
  using cmdSpeed_ends [OF bozo32_digest.digest_axioms list_source.byte_source_axioms bozo32_New_inv [of 3] TrueI TrueI,
      of "(replicate 57 7, EOF)" "''chunk''"]
  by (simp add: stat_window_def MaxInt_def)

end
