(* ===== verification/Prefetch_Reader.thy ===== *)
theory Prefetch_Reader
  imports Data_Source
begin

text \<open>
  The prefetching reader as an \<open>io.Reader\<close>: a call of \<open>Read\<close> is run to its end under a scheduler, which says
  in every state who moves first. As no state comes back during a call, any order of steps is that of some
  scheduler; steps of the goroutine between two calls are taken at the beginning of the next one. The
  theorem of this theory is that the result keeps the contract \<open>byte_source\<close>, for every scheduler.
\<close>

section \<open>A call run to its end\<close>

partial_function (option) pf_finish :: "('r prefetchReader \<Rightarrow> bool) \<Rightarrow> 'r reader \<Rightarrow> nat \<Rightarrow> 'r prefetchReader \<Rightarrow> 'r prefetchReader option" where
  "pf_finish sched rd chunkSize s =
     (if pf_consumer s = Co_idle then Some s
      else
        (case (if sched s then pf_go rd chunkSize s else pf_call_on s) of
           Some s' \<Rightarrow> pf_finish sched rd chunkSize s'
         | None \<Rightarrow>
             (case (if sched s then pf_call_on s else pf_go rd chunkSize s) of
                Some s' \<Rightarrow> pf_finish sched rd chunkSize s'
              | None \<Rightarrow> None)))"

text \<open>A call that blocks is only possible after an error was reported, and no client makes it; the model repeats
  the error.\<close>

definition first_error :: "(byte list \<times> gerror option) list \<Rightarrow> gerror option" where
  "first_error results = (case filter (\<lambda>x. snd x \<noteq> None) results of [] \<Rightarrow> None | x # _ \<Rightarrow> snd x)"

definition prefetch_Read :: "('r prefetchReader \<Rightarrow> bool) \<Rightarrow> 'r reader \<Rightarrow> nat \<Rightarrow> 'r prefetchReader reader" where
  "prefetch_Read sched rd chunkSize s n =
     (case pf_finish sched rd chunkSize (s\<lparr>pf_consumer := Co_loop n\<rparr>) of
        Some s' \<Rightarrow> (case last (pf_results s') of (got, err) \<Rightarrow> (got, err, s'))
      | None \<Rightarrow> ([], first_error (pf_results s), s))"

lemma pf_finish_idle: "pf_consumer s = Co_idle \<Longrightarrow> pf_finish sched rd B s = Some s"
  by (subst pf_finish.simps) simp

lemma pf_finish_step:
  assumes "pf_consumer s \<noteq> Co_idle" and "\<exists>s'. pf_inside rd B s s'"
  shows "\<exists>s1. pf_inside rd B s s1 \<and> pf_finish sched rd B s = pf_finish sched rd B s1"
proof -
  have "pf_go rd B s \<noteq> None \<or> pf_call_on s \<noteq> None"
    using assms(2) by (auto simp: pf_inside_def pf_produce_iff pf_consume_iff)
  then show ?thesis
    using assms(1) by (subst pf_finish.simps) (auto simp: pf_inside_def pf_produce_iff pf_consume_iff split: option.splits)
qed

lemma pf_finish_stuck:
  "pf_consumer s \<noteq> Co_idle \<Longrightarrow> \<nexists>s'. pf_inside rd B s s' \<Longrightarrow> pf_finish sched rd B s = None"
  by (subst pf_finish.simps) (auto simp: pf_inside_def pf_produce_iff pf_consume_iff split: option.splits)

text \<open>How many bytes the call wants.\<close>

fun pf_wanted :: "consumer \<Rightarrow> nat" where
  "pf_wanted Co_idle = 0"
| "pf_wanted (Co_loop n) = n"
| "pf_wanted (Co_recv n) = n"

definition pf_returned :: "'r prefetchReader \<Rightarrow> nat \<Rightarrow> 'r prefetchReader \<Rightarrow> bool" where
  "pf_returned s n s' \<longleftrightarrow> (\<exists>got err. pf_results s' = pf_results s @ [(got, err)] \<and> length got \<le> n \<and>
     (got = [] \<and> err = None \<longrightarrow> n = 0))"

lemma pf_inside_returned:
  assumes "pf_inside rd B s s'" and "pf_consumer s \<noteq> Co_idle" and bd: "pf_bounded B s"
  shows "if pf_consumer s' = Co_idle then pf_returned s (pf_wanted (pf_consumer s)) s'
    else pf_results s' = pf_results s \<and> pf_wanted (pf_consumer s') = pf_wanted (pf_consumer s)"
proof (cases "pf_produce rd B s s'")
  case True
  then show ?thesis using assms(2) by cases auto
next
  case False
  then have "pf_consume s s'" using assms(1) by (simp add: pf_inside_def)
  then show ?thesis
  proof cases
    case (copy n got)
    then obtain c where c: "pf_cur s = Some c" by (cases "pf_cur s") auto
    have "pf_pos s < snd c" "snd c \<le> B" "length (pf_mem s (fst c)) = B"
      using copy(3) bd c by (simp_all add: pf_bounded_def)
    then have "length (pf_rest (pf_mem s) (pf_cur s) (pf_pos s)) = snd c - pf_pos s"
      by (simp add: c pf_rest_slice pf_slice_def)
    then show ?thesis using copy c \<open>pf_pos s < snd c\<close> by (auto simp: pf_returned_def)
  qed (auto simp: pf_returned_def)
qed

context block_source
begin

lemma pf_inside_inv:
  "pf_inside rd B s s' \<Longrightarrow> pf_inv call ok left ending B P e s \<Longrightarrow> pf_inv call ok left ending B P e s'"
  using pf_produce_inv pf_consume_inv unfolding pf_inside_def by blast

text \<open>By induction over the measure of the steps: a call blocks only when an error was reported before.\<close>

lemma pf_finish_ok:
  assumes "pf_inv call ok left ending B P e s" and "pf_consumer s \<noteq> Co_idle"
  shows "case pf_finish sched rd B s of
      None \<Rightarrow> pf_spent s
    | Some s' \<Rightarrow> pf_inv call ok left ending B P e s' \<and> pf_consumer s' = Co_idle \<and>
        pf_returned s (pf_wanted (pf_consumer s)) s'"
  using assms
proof (induction s rule: wf_induct_rule [OF wf_measures [of "pf_measures left rank B"]])
  case (1 s)
  show ?case
  proof (cases "\<exists>s'. pf_inside rd B s s'")
    case False
    then have "pf_spent s" using pf_progress [OF 1(2) _ 1(3)] by blast
    then show ?thesis using pf_finish_stuck [OF 1(3) False] by simp
  next
    case True
    obtain s1 where s1: "pf_inside rd B s s1" "pf_finish sched rd B s = pf_finish sched rd B s1"
      using pf_finish_step [OF 1(3) True] by blast
    have inv1: "pf_inv call ok left ending B P e s1" by (rule pf_inside_inv [OF s1(1) 1(2)])
    have bd: "pf_bounded B s" using 1(2) by (simp add: pf_inv_def)
    note res = pf_inside_returned [OF s1(1) 1(3) bd]
    show ?thesis
    proof (cases "pf_consumer s1 = Co_idle")
      case True
      then show ?thesis using s1(2) inv1 res by (simp add: pf_finish_idle)
    next
      case False
      have "case pf_finish sched rd B s1 of
          None \<Rightarrow> pf_spent s1
        | Some s' \<Rightarrow> pf_inv call ok left ending B P e s' \<and> pf_consumer s' = Co_idle \<and>
            pf_returned s1 (pf_wanted (pf_consumer s1)) s'"
        by (rule 1(1) [OF pf_inside_decreases [OF 1(2) s1(1)] inv1 False])
      then show ?thesis using s1(2) res False by (simp add: pf_spent_def pf_returned_def split: option.splits)
    qed
  qed
qed

end

section \<open>The contract\<close>

text \<open>The bytes that are still to come, and the states between two calls.\<close>

definition pf_left :: "('r \<Rightarrow> byte list) \<Rightarrow> 'r prefetchReader \<Rightarrow> byte list" where
  "pf_left left s = pf_rest (pf_mem s) (pf_cur s) (pf_pos s) @
     concat (map (pf_slice (pf_mem s)) (pf_forward s @ pf_hand (pf_producer s))) @ left (pf_src s)"

definition pf_ready :: "('r \<Rightarrow> nat \<Rightarrow> bool) \<Rightarrow> ('r \<Rightarrow> bool) \<Rightarrow> ('r \<Rightarrow> byte list) \<Rightarrow> ('r \<Rightarrow> gerror) \<Rightarrow> nat \<Rightarrow> 'r prefetchReader \<Rightarrow> bool" where
  "pf_ready call ok left ending B s \<longleftrightarrow> pf_consumer s = Co_idle \<and>
     pf_inv call ok left ending B (concat (map fst (pf_results s)) @ pf_left left s) (ending (pf_src s)) s"

lemma pf_inv_left: "pf_inv call ok left ending B P e s \<Longrightarrow> P = concat (map fst (pf_results s)) @ pf_left left s"
  by (simp add: pf_inv_def pf_data_def pf_left_def)

lemma pf_inv_ending: "pf_inv call ok left ending B P e s \<Longrightarrow> ending (pf_src s) = e"
  by (simp add: pf_inv_def)

lemma pf_spent_left:
  assumes "pf_inv call ok left ending B P e s" and "pf_spent s"
  shows "pf_left left s = []" and "first_error (pf_results s) = Some (pf_final e)"
proof -
  have ord: "pf_order e s" and ph: "pf_phase e (left (pf_src s)) (pf_producer s) (pf_err s)"
    using assms(1) by (simp_all add: pf_inv_def)
  have gone: "pf_len (pf_cur s) \<le> pf_pos s" "pf_producer s = Pr_gone" "pf_forward s = []"
    using ord assms(2) by (auto simp: pf_order_def)
  then have "left (pf_src s) = []" using ph by (auto simp: pf_pending_def)
  then show "pf_left left s = []" using gone by (simp add: pf_left_def pf_rest_empty)
  obtain bs e' where some: "(bs, Some e') \<in> set (filter (\<lambda>x. snd x \<noteq> None) (pf_results s))"
    using assms(2) by (auto simp: pf_spent_def)
  obtain x xs where xs: "filter (\<lambda>x. snd x \<noteq> None) (pf_results s) = x # xs"
    using some by (cases "filter (\<lambda>x. snd x \<noteq> None) (pf_results s)") (simp only: list.set empty_iff, blast)
  have "x \<in> set (filter (\<lambda>x. snd x \<noteq> None) (pf_results s))" unfolding xs by simp
  then have "x \<in> set (pf_results s)" "snd x \<noteq> None" by simp_all
  moreover obtain bs1 err1 where "x = (bs1, err1)" by fastforce
  ultimately have "snd x = Some (pf_final e)" using ord by (cases err1) (simp_all add: pf_order_def)
  then show "first_error (pf_results s) = Some (pf_final e)" by (simp add: first_error_def xs del: not_None_eq)
qed

context block_source
begin

text \<open>A call on the contract of the source keeps that of a reader.\<close>

lemma prefetch_Read_ok:
  assumes ready: "pf_ready call ok left ending B s" and read: "prefetch_Read sched rd B s n = (got, err, s')"
  shows "pf_ready call ok left ending B s' \<and> length got \<le> n \<and> pf_left left s = got @ pf_left left s' \<and>
    ending (pf_src s') = ending (pf_src s) \<and> (err \<noteq> None \<longrightarrow> pf_left left s' = [] \<and> err = Some (pf_final (ending (pf_src s)))) \<and>
    (got = [] \<and> err = None \<longrightarrow> n = 0)"
proof -
  define P where "P = concat (map fst (pf_results s)) @ pf_left left s"
  define e where "e = ending (pf_src s)"
  define s1 where "s1 = s\<lparr>pf_consumer := Co_loop n\<rparr>"
  have inv: "pf_inv call ok left ending B P e s" and idle: "pf_consumer s = Co_idle"
    using ready by (simp_all add: pf_ready_def P_def e_def)
  have inv1: "pf_inv call ok left ending B P e s1" unfolding s1_def by (rule pf_call_inv [OF inv idle])
  have run: "case pf_finish sched rd B s1 of
      None \<Rightarrow> pf_spent s1
    | Some s' \<Rightarrow> pf_inv call ok left ending B P e s' \<and> pf_consumer s' = Co_idle \<and> pf_returned s1 n s'"
    using pf_finish_ok [OF inv1, of sched] by (cases "pf_finish sched rd B s1") (simp_all add: s1_def)
  show ?thesis
  proof (cases "pf_finish sched rd B s1")
    case None
    then have "pf_spent s" using run by (simp add: s1_def pf_spent_def)
    then show ?thesis
      using ready read None pf_spent_left [OF inv] by (auto simp: prefetch_Read_def s1_def [symmetric] e_def)
  next
    case (Some s2)
    then have inv2: "pf_inv call ok left ending B P e s2" and idle2: "pf_consumer s2 = Co_idle"
      and returned: "pf_returned s1 n s2" using run by simp_all
    obtain g er where res: "pf_results s2 = pf_results s @ [(g, er)]" "length g \<le> n" "g = [] \<and> er = None \<longrightarrow> n = 0"
      using returned by (auto simp: pf_returned_def s1_def)
    have out: "got = g" "err = er" "s' = s2"
      using read Some res(1) by (simp_all add: prefetch_Read_def s1_def [symmetric])
    have left: "P = concat (map fst (pf_results s2)) @ pf_left left s2" and ends: "ending (pf_src s2) = e"
      using pf_inv_left [OF inv2] pf_inv_ending [OF inv2] by simp_all
    have "er \<noteq> None \<longrightarrow> pf_left left s2 = [] \<and> er = Some (pf_final e)"
    proof
      assume "er \<noteq> None"
      then have "pf_spent s2" using res(1) by (auto simp: pf_spent_def)
      moreover have "er = Some (pf_final e)"
        using inv2 res(1) \<open>er \<noteq> None\<close> by (auto simp: pf_inv_def pf_order_def)
      ultimately show "pf_left left s2 = [] \<and> er = Some (pf_final e)" using pf_spent_left [OF inv2] by simp
    qed
    moreover have "pf_ready call ok left ending B s2"
      using inv2 idle2 left ends by (simp add: pf_ready_def)
    ultimately show ?thesis using res left ends by (simp add: out e_def P_def)
  qed
qed

lemma prefetch_source:
  "byte_source (prefetch_Read sched rd B) (pf_ready call ok left ending B) (pf_left left) (\<lambda>s. pf_final (ending (pf_src s))) (\<lambda>_. 0)"
proof (rule byte_source.intro)
  fix s n got e s'
  assume "pf_ready call ok left ending B s" "prefetch_Read sched rd B s n = (got, Some e, s')"
  then show "pf_left left s' = [] \<and> e = pf_final (ending (pf_src s))" using prefetch_Read_ok by blast
qed (use prefetch_Read_ok in fastforce)+

lemma prefetch_new:
  assumes "ok r"
  shows "pf_ready call ok left ending B (newPrefetchReader r B)" and "pf_left left (newPrefetchReader r B) = left r"
proof -
  show l: "pf_left left (newPrefetchReader r B) = left r" by (simp add: pf_left_def newPrefetchReader_def)
  show "pf_ready call ok left ending B (newPrefetchReader r B)"
    using pf_inv_new [OF size, of ok r call left ending] assms l by (simp add: pf_ready_def newPrefetchReader_def)
qed

end

text \<open>One contract gives the other: over a block source the prefetching reader is a byte source.\<close>

sublocale block_source \<subseteq> prefetched: byte_source "prefetch_Read sched rd B" "pf_ready call ok left ending B" "pf_left left"
    "\<lambda>s. pf_final (ending (pf_src s))" "\<lambda>_. 0" for sched
  by (rule prefetch_source)

end
