(* ===== verification/Source_Readers.thy ===== *)
theory Source_Readers
  imports Prefetch_Reader
begin

text \<open>
  The data sources of rollstat/main.go as \<open>io.Reader\<close>s: what the commands read from is, for every
  scheduler of the prefetching goroutine, a reader that delivers the data and then reports EOF.
\<close>

section \<open>Good readers\<close>

text \<open>A reader that delivers \<open>D\<close> and then reports EOF.\<close>

definition good_reader :: "'r reader \<Rightarrow> 'r \<Rightarrow> byte list \<Rightarrow> bool" where
  "good_reader rd r D \<longleftrightarrow>
     (\<exists>ok left ending (rank :: 'r \<Rightarrow> nat). byte_source rd ok left ending rank \<and> ok r \<and> left r = D \<and> ending r = EOF)"

lemma good_readerI:
  "byte_source rd ok left ending rank \<Longrightarrow> ok r \<Longrightarrow> left r = D \<Longrightarrow> ending r = EOF \<Longrightarrow> good_reader rd r D"
  unfolding good_reader_def by blast

lemma good_list: "good_reader list_Read (D, EOF) D"
  by (rule good_readerI [OF list_source.byte_source_axioms]) simp_all

lemma good_cycle: "cy_data r \<noteq> [] \<Longrightarrow> good_reader cycleReader_Read r (cycle_left r)"
  by (rule good_readerI [OF cycle.byte_source_axioms]) simp_all

text \<open>A variable of type \<open>io.Reader\<close> that holds one of two readers.\<close>

definition sum_Read :: "'a reader \<Rightarrow> 'c reader \<Rightarrow> ('a + 'c) reader" where
  "sum_Read rda rdc s n =
     (case s of
        Inl r \<Rightarrow> (case rda r n of (got, err, r) \<Rightarrow> (got, err, Inl r))
      | Inr r \<Rightarrow> (case rdc r n of (got, err, r) \<Rightarrow> (got, err, Inr r)))"

lemma good_Inl:
  assumes "good_reader rda r D"
  shows "good_reader (sum_Read rda rdc) (Inl r) D"
proof -
  obtain ok left ending and rank :: "'a \<Rightarrow> nat" where src: "byte_source rda ok left ending rank"
    and r: "ok r" "left r = D" "ending r = EOF" using assms unfolding good_reader_def by blast
  have "byte_source (sum_Read rda rdc) (case_sum ok (\<lambda>_. False)) (case_sum left (\<lambda>_. [])) (case_sum ending (\<lambda>_. EOF))
      (case_sum rank (\<lambda>_. 0))"
    using byte_source.read_ok [OF src] byte_source.read_end [OF src] byte_source.read_progress [OF src]
    by (intro byte_source.intro) (auto simp: sum_Read_def split: sum.splits prod.splits)
  then show ?thesis by (rule good_readerI) (simp_all add: r)
qed

lemma good_Inr:
  assumes "good_reader rdc r D"
  shows "good_reader (sum_Read rda rdc) (Inr r) D"
proof -
  obtain ok left ending and rank :: "'a \<Rightarrow> nat" where src: "byte_source rdc ok left ending rank"
    and r: "ok r" "left r = D" "ending r = EOF" using assms unfolding good_reader_def by blast
  have "byte_source (sum_Read rda rdc) (case_sum (\<lambda>_. False) ok) (case_sum (\<lambda>_. []) left) (case_sum (\<lambda>_. EOF) ending)
      (case_sum (\<lambda>_. 0) rank)"
    using byte_source.read_ok [OF src] byte_source.read_end [OF src] byte_source.read_progress [OF src]
    by (intro byte_source.intro) (auto simp: sum_Read_def split: sum.splits prod.splits)
  then show ?thesis by (rule good_readerI) (simp_all add: r)
qed

section \<open>The two sources\<close>

text \<open>The readers behind \<open>dataSource\<close> and \<open>speedDataSource\<close>.\<close>

definition dataSource_Read :: "(((nat + 'f) \<times> int) prefetchReader \<Rightarrow> bool) \<Rightarrow> (nat \<Rightarrow> u64) \<Rightarrow> 'f reader \<Rightarrow>
    ((nat + 'f) \<times> int) prefetchReader reader" where
  "dataSource_Read sched draw frd = prefetch_Read sched (limit_Read (source_Read draw frd)) (16 * MiB)"

definition speedDataSource_Read :: "(((nat + 'f) \<times> int) prefetchReader \<Rightarrow> bool) \<Rightarrow> (nat \<Rightarrow> u64) \<Rightarrow> 'f reader \<Rightarrow>
    (((nat + 'f) \<times> int) prefetchReader + cycleReader) reader" where
  "speedDataSource_Read sched draw frd = sum_Read (dataSource_Read sched draw frd) cycleReader_Read"

text \<open>No input, or a file that \<open>os.Open\<close> gives and that can be read to its end.\<close>

definition good_input :: "'f reader \<Rightarrow> (string \<Rightarrow> gerror + 'f) \<Rightarrow> string \<Rightarrow> byte list \<Rightarrow> bool" where
  "good_input frd os_Open input file \<longleftrightarrow> input = '''' \<or> (\<exists>f. os_Open input = Inr f \<and> good_reader frd f file)"

text \<open>Without an input the file reader is never called.\<close>

lemma no_file: "byte_source frd (\<lambda>_. False) (\<lambda>_. []) (\<lambda>_. EOF) (\<lambda>_. 0)"
  by (intro byte_source.intro) simp_all

lemma prefetch_good:
  assumes "byte_source frd ok left ending rank" and "either (\<lambda>_. True) (limit_ok ok left ending) src"
    and "either (rand_left draw) (limit_left left) src = D" and "pf_final (either (\<lambda>_. EOF) (limit_ending left ending) src) = EOF"
  shows "good_reader (dataSource_Read sched draw frd) (newPrefetchReader src (16 * MiB)) D"
proof -
  note blocks = byte_source.limited_blocks [OF assms(1), of draw]
  show ?thesis
    unfolding dataSource_Read_def
    by (rule good_readerI [OF block_source.prefetch_source [OF blocks]])
      (use block_source.prefetch_new [OF blocks assms(2)] assms(3,4) in \<open>simp_all add: newPrefetchReader_def\<close>)
qed

lemma dataSource_good:
  assumes "good_input frd os_Open input file"
  shows "\<exists>s0. dataSource os_Open n input = Inr s0 \<and>
    good_reader (dataSource_Read sched draw frd) s0 (source_bytes draw file n input)"
proof (cases "input = ''''")
  case True
  have "good_reader (dataSource_Read sched draw frd) (newPrefetchReader (Inl 0, n) (16 * MiB)) (source_bytes draw file n input)"
    by (rule prefetch_good [OF no_file]) (simp_all add: True rand_left_def source_bytes_def pf_final_def)
  then show ?thesis using True by (simp add: dataSource_def)
next
  case False
  then obtain f ok left ending and rank :: "'a \<Rightarrow> nat" where src: "byte_source frd ok left ending rank"
    and f: "os_Open input = Inr f" "ok f" "left f = file" "ending f = EOF"
    using assms unfolding good_input_def good_reader_def by blast
  have "good_reader (dataSource_Read sched draw frd) (newPrefetchReader (Inr f, n) (16 * MiB)) (source_bytes draw file n input)"
    by (rule prefetch_good [OF src])
      (use False f in \<open>simp_all add: limit_ok_def limit_left_def limit_ending_def source_bytes_def pf_final_def\<close>)
  then show ?thesis using False f by (simp add: dataSource_def)
qed

lemma length_cycle_bytes [simp]: "length (cycle_bytes data pos k) = k"
  by (induction k arbitrary: pos) (simp_all add: Let_def)

lemma speedDataSource_good:
  assumes "good_input frd os_Open input file"
  shows "\<exists>r D. speedDataSource draw os_Open n input = Inr (r, n) \<and> good_reader (speedDataSource_Read sched draw frd) r D \<and>
    (if input = '''' then length D = nat n else D = source_bytes draw file n input)"
proof (cases "input = ''''")
  case True
  obtain r where r: "speedDataSource draw os_Open n '''' = Inr (Inr r, n)" "cy_data r \<noteq> []"
      "cycle_left r = cycle_bytes (rand_words draw 0 (MiB div 8)) 0 (nat n)"
    using speedDataSource_random [of draw os_Open n] by blast
  then have "good_reader (speedDataSource_Read sched draw frd) (Inr r) (cycle_left r)"
    unfolding speedDataSource_Read_def by (intro good_Inr good_cycle)
  then show ?thesis using True r by auto
next
  case False
  obtain s0 where s0: "dataSource os_Open n input = Inr s0"
      "good_reader (dataSource_Read sched draw frd) s0 (source_bytes draw file n input)"
    using dataSource_good [OF assms] by blast
  then have "good_reader (speedDataSource_Read sched draw frd) (Inl s0) (source_bytes draw file n input)"
    unfolding speedDataSource_Read_def by (intro good_Inl)
  then show ?thesis using False s0 by (auto simp: speedDataSource_def)
qed

text \<open>How much there is: at most \<open>n\<close> bytes, and exactly that without an input.\<close>

lemma length_source_bytes: "length (source_bytes draw file n input) = (if input = '''' then nat n else min (nat n) (length file))"
  using words_for_enough [of "nat n"] by (simp add: source_bytes_def min.commute)

end
