(* ===== verification/Rollstat_Hashes.thy ===== *)
theory Rollstat_Hashes
  imports Rollstat Source_Readers Bozo64 Buzhash32 Buzhash64 Gearhash64 Adler32 Rabinkarp64
begin

text \<open>
  The measurements of rollstat/main.go on the seven hash packages, chosen by their names in the table
  \<open>hashConstructors\<close> (with the type switch of \<open>rollerMBps\<close>). The random words that fill the tables of the
  buzhashes and of gearhash64 and the new rabinkarp64 hash are parameters. On a good reader every
  measurement comes to its end, and the statistics are those of the data.
\<close>

section \<open>The hashes by name\<close>

record tables_source =
  ts_buzhash32 :: "u64 list"
  ts_buzhash64 :: "u64 list"
  ts_gearhash64 :: "u64 list"
  ts_rabinkarp64 :: "(rabinkarp64 \<times> rk_cache) option"

definition hashConstructors :: "string list" where
  "hashConstructors =
     [''adler32'', ''bozo32'', ''bozo64'', ''buzhash32'', ''buzhash64'', ''gearhash64'', ''rabinkarp64'']"

definition speed_of :: "tables_source \<Rightarrow> 'r reader \<Rightarrow> 'r \<Rightarrow> string \<Rightarrow> string \<Rightarrow> (fatal + unit) option" where
  "speed_of ts rd r name iface =
     (if name = ''adler32'' then cmdSpeed rd adler32_iface r adler32_New iface
      else if name = ''bozo32'' then cmdSpeed rd bozo32_iface r bozo32_New iface
      else if name = ''bozo64'' then cmdSpeed rd bozo64_iface r bozo64_New iface
      else if name = ''buzhash32'' then do {
        h \<leftarrow> buzhash32_New (ts_buzhash32 ts); cmdSpeed rd buzhash32_iface r h iface }
      else if name = ''buzhash64'' then do {
        h \<leftarrow> buzhash64_New (ts_buzhash64 ts); cmdSpeed rd buzhash64_iface r h iface }
      else if name = ''gearhash64'' then do {
        h \<leftarrow> gearhash64_New (ts_gearhash64 ts); cmdSpeed rd gearhash64_iface r h iface }
      else if name = ''rabinkarp64'' then do {
        h \<leftarrow> ts_rabinkarp64 ts; cmdSpeed rd rabinkarp64_iface r h iface }
      else None)"

definition stat_of :: "tables_source \<Rightarrow> 'r reader \<Rightarrow> 'r \<Rightarrow> string \<Rightarrow> (fatal + stat_counts \<times> (nat \<Rightarrow> u64)) option" where
  "stat_of ts rd r name =
     (if name = ''adler32'' then cmdStat rd adler32_iface r adler32_New
      else if name = ''bozo32'' then cmdStat rd bozo32_iface r bozo32_New
      else if name = ''bozo64'' then cmdStat rd bozo64_iface r bozo64_New
      else if name = ''buzhash32'' then do { h \<leftarrow> buzhash32_New (ts_buzhash32 ts); cmdStat rd buzhash32_iface r h }
      else if name = ''buzhash64'' then do { h \<leftarrow> buzhash64_New (ts_buzhash64 ts); cmdStat rd buzhash64_iface r h }
      else if name = ''gearhash64'' then do { h \<leftarrow> gearhash64_New (ts_gearhash64 ts); cmdStat rd gearhash64_iface r h }
      else if name = ''rabinkarp64'' then do { h \<leftarrow> ts_rabinkarp64 ts; cmdStat rd rabinkarp64_iface r h }
      else None)"

section \<open>Lemmas\<close>

definition tables_ready :: "tables_source \<Rightarrow> bool" where
  "tables_ready ts \<longleftrightarrow>
     buzhash32_New (ts_buzhash32 ts) \<noteq> None \<and> buzhash64_New (ts_buzhash64 ts) \<noteq> None \<and>
     gearhash64_New (ts_gearhash64 ts) \<noteq> None \<and>
     (case ts_rabinkarp64 ts of None \<Rightarrow> False | Some s \<Rightarrow> rk_inv s \<and> rk_win s = [])"

text \<open>Two runs of \<open>cmdStat\<close> with the same results, over all windows of \<open>D\<close>.\<close>

definition stats_agree :: "byte list \<Rightarrow> (fatal + stat_counts \<times> (nat \<Rightarrow> u64)) option \<Rightarrow> (fatal + stat_counts \<times> (nat \<Rightarrow> u64)) option \<Rightarrow> bool" where
  "stats_agree D res res' \<longleftrightarrow>
     (\<exists>st bits st' bits'. res = Some (Inr (st, bits)) \<and> res' = Some (Inr (st', bits')) \<and>
        st_total st = word_of_nat (length D + 1 - stat_window) \<and> st_total st' = st_total st \<and> (\<forall>j < 64. bits j = bits' j) \<and>
        (\<forall>k \<le> 64. st_tzHist st ! k = st_tzHist st' ! k))"

lemma hash_measured:
  assumes H: "digest H dinv win S fits" and h: "dinv h" "win h = []" "fits stat_window"
    and r: "good_reader rd r D" and len: "stat_window \<le> length D" "int (length D) + 16384 < MaxInt"
  shows "cmdSpeed rd H r h iface = (if iface \<in> {''roll'', ''batchroll'', ''chunk''} then Some (Inr ()) else Some (Inl (Fatal_interface iface)))
    \<and> stats_agree D (cmdStat rd H r h) (cmdStat list_Read H (D, EOF) h)"
proof
  obtain ok left ending and rank :: "'b \<Rightarrow> nat" where src: "byte_source rd ok left ending rank"
    and ok: "ok r" "left r = D" "ending r = EOF" using r unfolding good_reader_def by blast
  note stream = hash_stream.intro [OF H src] and plain = hash_stream.intro [OF H list_source.byte_source_axioms]
  show "cmdSpeed rd H r h iface = (if iface \<in> {''roll'', ''batchroll'', ''chunk''} then Some (Inr ()) else Some (Inl (Fatal_interface iface)))"
    using hash_stream.cmdSpeed_ok [OF stream h ok(1,3)] ok(2) len by blast
  show "stats_agree D (cmdStat rd H r h) (cmdStat list_Read H (D, EOF) h)"
    using hash_stream.cmdStat_ok [OF stream h(1,3) ok(1) ok(2) [symmetric] refl refl]
      hash_stream.cmdStat_ok [OF plain h(1,3) TrueI, where r = "(D, EOF)" and D = D, OF _ refl refl] ok(3)
    unfolding stats_agree_def by fastforce
qed

lemma every_hash_measured:
  assumes ts: "tables_ready ts" and name: "name \<in> set hashConstructors"
    and r: "good_reader rd r D" "stat_window \<le> length D" "int (length D) + 16384 < MaxInt"
  shows "speed_of ts rd r name iface = (if iface \<in> {''roll'', ''batchroll'', ''chunk''} then Some (Inr ()) else Some (Inl (Fatal_interface iface)))
    \<and> stats_agree D (stat_of ts rd r name) (stat_of ts list_Read (D, EOF) name)"
proof -
  obtain b32 b64 g s where new: "buzhash32_New (ts_buzhash32 ts) = Some b32" "buzhash64_New (ts_buzhash64 ts) = Some b64"
      "gearhash64_New (ts_gearhash64 ts) = Some g" "ts_rabinkarp64 ts = Some s" "rk_inv s" "rk_win s = []"
    using ts by (auto simp: tables_ready_def split: option.splits)
  have b32: "buzhash32_inv b32" "buzhash32_window b32 = []" using new(1) buzhash32_New_inv
    by (auto simp: buzhash32_New_def split: bind_splits)
  have b64: "buzhash64_inv b64" "buzhash64_window b64 = []" using new(2) buzhash64_New_inv
    by (auto simp: buzhash64_New_def split: bind_splits)
  have g: "gearhash64_inv g" "gearhash64_window g = []" using new(3) gearhash64_New_inv
    by (auto simp: gearhash64_New_def split: bind_splits)
  have b: "bozo32_inv bozo32_New" "bozo32_window bozo32_New = []" "bozo64_inv bozo64_New" "bozo64_window bozo64_New = []"
    by (simp_all add: bozo32_New_def bozo64_New_def bozo32_New_inv bozo64_New_inv)
  have fits: "stat_window < 2 ^ 32" by (simp add: stat_window_def)
  note facts = hash_measured [OF adler32_digest.digest_axioms adler32_New_inv fits r, of iface]
    hash_measured [OF bozo32_digest.digest_axioms b(1,2) TrueI r, of iface]
    hash_measured [OF bozo64_digest.digest_axioms b(3,4) TrueI r, of iface]
    hash_measured [OF buzhash32_digest.digest_axioms b32 TrueI r, of iface]
    hash_measured [OF buzhash64_digest.digest_axioms b64 TrueI r, of iface]
    hash_measured [OF gearhash64_digest.digest_axioms g TrueI r, of iface]
    hash_measured [OF rabinkarp64_digest.digest_axioms new(5,6) TrueI r, of iface]
  have "name = ''adler32'' \<or> name = ''bozo32'' \<or> name = ''bozo64'' \<or> name = ''buzhash32'' \<or> name = ''buzhash64'' \<or>
      name = ''gearhash64'' \<or> name = ''rabinkarp64''"
    using name by (simp add: hashConstructors_def)
  then show ?thesis
    by (elim disjE) (simp_all add: speed_of_def stat_of_def new facts)
qed

text \<open>Draws that are ready: all different.\<close>

definition some_tables :: tables_source where
  "some_tables = \<lparr>ts_buzhash32 = map word_of_nat [0..<256], ts_buzhash64 = map word_of_nat [0..<256],
     ts_gearhash64 = replicate 256 5, ts_rabinkarp64 = rabinkarp64_NewFromPol Map.empty 283\<rparr>"

lemma some_tables_ready: "tables_ready some_tables"
  using buzhash32_GenerateHashes_ok_witness buzhash64_GenerateHashes_ok_witness
    rabinkarp64_NewFromPol_ok [OF cache_ok_empty good_pol_283]
  by (auto simp: tables_ready_def some_tables_def buzhash32_New_def buzhash64_New_def gearhash64_New_def
      gearhash64_GenerateHashes_def simp del: upt_Suc)

end
