(* ===== verification/Rollstat_Main.thy ===== *)
theory Rollstat_Main
  imports Rollstat_Hashes "HOL-Library.Multiset" "HOL-Library.List_Lexorder" "HOL-Library.Char_ord"
begin

text \<open>
  The program of rollstat/main.go: \<open>cmdSpeed\<close> and \<open>cmdStat\<close> with the data source they open, \<open>cmdAll\<close>, and
  \<open>main\<close> after the flags are parsed. What lies outside is the record \<open>host\<close>: the random words, the file
  system, and the scheduler that decides who moves next, the goroutine that reads ahead or the caller. The
  theorem takes the program as a whole: for every host the statistics are those of the data.
\<close>

section \<open>The host\<close>

text \<open>\<open>hs_close\<close> is what \<open>f.Close\<close> returns. \<open>hs_bytes\<close> is \<open>humanize.ParseBytes\<close>, \<open>hs_flags\<close> the interface
  that the \<open>flag\<close> package finds in the arguments of \<open>speed\<close>, and \<open>hs_names\<close> the order in which the map
  \<open>hashConstructors\<close> is walked.\<close>

record 'f host =
  hs_tables :: tables_source
  hs_draw :: "nat \<Rightarrow> u64"
  hs_open :: "string \<Rightarrow> gerror + 'f"
  hs_read :: "'f reader"
  hs_close :: "gerror option"
  hs_sched :: "((nat + 'f) \<times> int) prefetchReader \<Rightarrow> bool"
  hs_bytes :: "string \<Rightarrow> gerror + u64"
  hs_flags :: "string list \<Rightarrow> string"
  hs_names :: "string list"

datatype main_error =
    Ended fatal
  | Unknown_hash string
  | Usage
  | Unknown_command string

section \<open>The commands\<close>

text \<open>\<open>defer cleanup()\<close>: it runs when the command returns, and not when \<open>log.Fatal\<close> has ended the program.\<close>

definition cleanup :: "'f host \<Rightarrow> string \<Rightarrow> fatal + 'a \<Rightarrow> fatal + 'a" where
  "cleanup host input res =
     (case res of
        Inl e \<Rightarrow> Inl e
      | Inr x \<Rightarrow>
          if input = '''' then Inr x
          else (case hs_close host of Some e \<Rightarrow> Inl (Fatal e) | None \<Rightarrow> Inr x))"

definition cmdSpeed_input :: "'f host \<Rightarrow> string \<Rightarrow> int \<Rightarrow> string \<Rightarrow> string \<Rightarrow> (fatal + unit) option" where
  "cmdSpeed_input host input sz name iface =
     (case speedDataSource (hs_draw host) (hs_open host) sz input of
        Inl e \<Rightarrow> Some (Inl (Fatal e))
      | Inr (r, actualSize) \<Rightarrow> do {
          res \<leftarrow> speed_of (hs_tables host) (speedDataSource_Read (hs_sched host) (hs_draw host) (hs_read host)) r name iface;
          Some (cleanup host input res)
        })"

definition cmdStat_input :: "'f host \<Rightarrow> string \<Rightarrow> int \<Rightarrow> string \<Rightarrow> (fatal + stat_counts \<times> (nat \<Rightarrow> u64)) option" where
  "cmdStat_input host input sz name =
     (case dataSource (hs_open host) sz input of
        Inl e \<Rightarrow> Some (Inl (Fatal e))
      | Inr r \<Rightarrow> do {
          res \<leftarrow> stat_of (hs_tables host) (dataSource_Read (hs_sched host) (hs_draw host) (hs_read host)) r name;
          Some (cleanup host input res)
        })"

text \<open>The loops of \<open>cmdAll\<close>: over the interfaces, and over the names. A fatal error ends the program.\<close>

primrec speed_loop :: "(string \<Rightarrow> (fatal + unit) option) \<Rightarrow> string list \<Rightarrow> (fatal + unit) option" where
  "speed_loop speed [] = Some (Inr ())"
| "speed_loop speed (iface # ifaces) = do {
     res \<leftarrow> speed iface;
     case res of Inl e \<Rightarrow> Some (Inl e) | Inr _ \<Rightarrow> speed_loop speed ifaces
   }"

primrec all_loop :: "'f host \<Rightarrow> string \<Rightarrow> int \<Rightarrow> string list \<Rightarrow>
    (fatal + (string \<times> stat_counts \<times> (nat \<Rightarrow> u64)) list) option" where
  "all_loop host input sz [] = Some (Inr [])"
| "all_loop host input sz (name # names) = do {
     res \<leftarrow> speed_loop (cmdSpeed_input host input sz name) [''roll'', ''batchroll'', ''chunk''];
     case res of
       Inl e \<Rightarrow> Some (Inl e)
     | Inr _ \<Rightarrow> do {
         res \<leftarrow> cmdStat_input host input sz name;
         case res of
           Inl e \<Rightarrow> Some (Inl e)
         | Inr st \<Rightarrow> do {
             res \<leftarrow> all_loop host input sz names;
             Some (case res of Inl e \<Rightarrow> Inl e | Inr sts \<Rightarrow> Inr ((name, st) # sts))
           }
       }
   }"

definition cmdAll :: "'f host \<Rightarrow> string \<Rightarrow> int \<Rightarrow> (fatal + (string \<times> stat_counts \<times> (nat \<Rightarrow> u64)) list) option" where
  "cmdAll host input sz = all_loop host input sz (sort (hs_names host))"

text \<open>\<open>main\<close> after the flags are parsed: the statistics printed, if any. \<open>int64(size)\<close> is \<open>sint\<close>.\<close>

definition rollstat_main :: "'f host \<Rightarrow> string \<Rightarrow> string \<Rightarrow> string \<Rightarrow> string list \<Rightarrow>
    (main_error + (string \<times> stat_counts \<times> (nat \<Rightarrow> u64)) list) option" where
  "rollstat_main host sizeStr hashName input args =
     (case hs_bytes host sizeStr of
        Inl e \<Rightarrow> Some (Inl (Ended (Fatal e)))
      | Inr sz \<Rightarrow>
          if hashName \<notin> set hashConstructors then Some (Inl (Unknown_hash hashName))
          else case args of
            [] \<Rightarrow> Some (Inl Usage)
          | cmd # rest \<Rightarrow>
              if cmd = ''speed'' then
                map_option (\<lambda>res. case res of Inl e \<Rightarrow> Inl (Ended e) | Inr _ \<Rightarrow> Inr [])
                  (cmdSpeed_input host input (sint sz) hashName (hs_flags host rest))
              else if cmd = ''stat'' then
                map_option (\<lambda>res. case res of Inl e \<Rightarrow> Inl (Ended e) | Inr st \<Rightarrow> Inr [(hashName, st)])
                  (cmdStat_input host input (sint sz) hashName)
              else if cmd = ''all'' then
                map_option (\<lambda>res. case res of Inl e \<Rightarrow> Inl (Ended e) | Inr sts \<Rightarrow> Inr sts) (cmdAll host input (sint sz))
              else Some (Inl (Unknown_command cmd)))"

section \<open>Lemmas\<close>

lemma sorted_hashConstructors: "sorted hashConstructors"
  by code_simp

lemma sort_hashConstructors: "mset names = mset hashConstructors \<Longrightarrow> sort names = hashConstructors"
  using sorted_hashConstructors by (metis properties_for_sort)

text \<open>A host with the data \<open>D\<close> under the given name and size: the tables of the hashes can be made, the file can
  be opened, read and closed, and there is enough data for a window.\<close>

definition host_ready :: "'f host \<Rightarrow> string \<Rightarrow> byte list \<Rightarrow> int \<Rightarrow> byte list \<Rightarrow> bool" where
  "host_ready host input file sz D \<longleftrightarrow>
     tables_ready (hs_tables host) \<and> good_input (hs_read host) (hs_open host) input file \<and>
     (input = '''' \<or> hs_close host = None) \<and> D = source_bytes (hs_draw host) file sz input \<and>
     stat_window \<le> length D \<and> int (length D) + 16384 < MaxInt"

lemma cleanup_ok: "host_ready host input file sz D \<Longrightarrow> cleanup host input (Inr x) = Inr x"
  by (auto simp: host_ready_def cleanup_def)

lemma cmdSpeed_input_ok:
  assumes ready: "host_ready host input file sz D" and name: "name \<in> set hashConstructors"
  shows "cmdSpeed_input host input sz name iface =
    Some (if iface \<in> {''roll'', ''batchroll'', ''chunk''} then Inr () else Inl (Fatal_interface iface))"
proof -
  have ts: "tables_ready (hs_tables host)" and inp: "good_input (hs_read host) (hs_open host) input file"
    and D: "D = source_bytes (hs_draw host) file sz input" "stat_window \<le> length D" "int (length D) + 16384 < MaxInt"
    using ready unfolding host_ready_def by blast+
  obtain r E where r: "speedDataSource (hs_draw host) (hs_open host) sz input = Inr (r, sz)"
      "good_reader (speedDataSource_Read (hs_sched host) (hs_draw host) (hs_read host)) r E"
      "if input = '''' then length E = nat sz else E = source_bytes (hs_draw host) file sz input"
    using speedDataSource_good [OF inp] by blast
  have "length E = length D" using r(3) D(1) by (simp add: length_source_bytes split: if_splits)
  then have "speed_of (hs_tables host) (speedDataSource_Read (hs_sched host) (hs_draw host) (hs_read host)) r name iface =
      Some (if iface \<in> {''roll'', ''batchroll'', ''chunk''} then Inr () else Inl (Fatal_interface iface))"
    using every_hash_measured [OF ts name r(2)] D(2,3) by simp
  moreover have "cleanup host input (Inl e :: fatal + unit) = Inl e" for e by (simp add: cleanup_def)
  ultimately show ?thesis using r(1) by (simp add: cmdSpeed_input_def cleanup_ok [OF ready])
qed

lemma cmdStat_input_ok:
  assumes ready: "host_ready host input file sz D" and name: "name \<in> set hashConstructors"
  shows "stats_agree D (cmdStat_input host input sz name) (stat_of (hs_tables host) list_Read (D, EOF) name)"
proof -
  have ts: "tables_ready (hs_tables host)" and inp: "good_input (hs_read host) (hs_open host) input file"
    and D: "D = source_bytes (hs_draw host) file sz input" "stat_window \<le> length D" "int (length D) + 16384 < MaxInt"
    using ready unfolding host_ready_def by blast+
  obtain r where r: "dataSource (hs_open host) sz input = Inr r"
      "good_reader (dataSource_Read (hs_sched host) (hs_draw host) (hs_read host)) r D"
    using dataSource_good [OF inp] D(1) by blast
  have "stats_agree D (stat_of (hs_tables host) (dataSource_Read (hs_sched host) (hs_draw host) (hs_read host)) r name)
      (stat_of (hs_tables host) list_Read (D, EOF) name)"
    using every_hash_measured [OF ts name r(2) D(2,3)] by blast
  then show ?thesis using r(1) by (auto simp: cmdStat_input_def stats_agree_def cleanup_ok [OF ready])
qed

lemma all_loop_ok:
  assumes "host_ready host input file sz D" and "set names \<subseteq> set hashConstructors"
  shows "\<exists>sts. all_loop host input sz names = Some (Inr sts) \<and> map fst sts = names \<and>
    (\<forall>(name, st) \<in> set sts. stats_agree D (Some (Inr st)) (stat_of (hs_tables host) list_Read (D, EOF) name))"
  using assms(2)
proof (induction names)
  case (Cons name names)
  then have name: "name \<in> set hashConstructors" by simp
  have speed: "speed_loop (cmdSpeed_input host input sz name) [''roll'', ''batchroll'', ''chunk''] = Some (Inr ())"
    using cmdSpeed_input_ok [OF assms(1) name] by simp
  note stat = cmdStat_input_ok [OF assms(1) name]
  then obtain st where st: "cmdStat_input host input sz name = Some (Inr st)" by (auto simp: stats_agree_def)
  obtain sts where sts: "all_loop host input sz names = Some (Inr sts)" "map fst sts = names"
      "\<forall>(name, st) \<in> set sts. stats_agree D (Some (Inr st)) (stat_of (hs_tables host) list_Read (D, EOF) name)"
    using Cons by auto
  show ?case
    using speed stat st sts by (intro exI [of _ "(name, st) # sts"]) (simp del: speed_loop.simps)
qed simp

section \<open>Properties\<close>

text \<open>C38: The program rollstat as a whole. The host must be ready: the tables and the polynomial of the hashes can be
  made from the random draws, the input is empty or a file that can be opened, read to its end and closed
  without an error, and under the size given there are at least 56 bytes of data and fewer than the largest
  int less 16384. Then, for every scheduling of the goroutine that reads ahead and in whatever order the map
  of the hashes is walked, \<open>rollstat all\<close> comes to its end: every hash is tested through every interface without a
  fatal error or a panic, and one statistic for each of the seven hashes comes out, sorted by name; its total
  is the number of windows, and its counters are those of the same hash over the same data held in memory.
  \<open>rollstat stat\<close> gives the statistic of one hash. \<open>rollstat speed\<close> ends well for the three interfaces, and with a
  fatal error that names the interface for any other. On any host, ready or not, a size that cannot be parsed,
  then any hash that is not one of the seven, then a missing command, then any command but the three end
  the program with the error that says so, in this order, whatever the input is and whether or not it can be
  opened or read.\<close>

theorem rollstat_all:
  assumes "hs_bytes host sizeStr = Inr sz" and "host_ready host input file (sint sz) D"
    and "mset (hs_names host) = mset hashConstructors" and "hashName \<in> set hashConstructors"
  shows "(\<exists>sts. rollstat_main host sizeStr hashName input (''all'' # args) = Some (Inr sts) \<and> map fst sts = hashConstructors \<and>
      (\<forall>(name, st) \<in> set sts. stats_agree D (Some (Inr st)) (stat_of (hs_tables host) list_Read (D, EOF) name))) \<and>
    (\<exists>st. rollstat_main host sizeStr hashName input (''stat'' # args) = Some (Inr [(hashName, st)]) \<and>
      stats_agree D (Some (Inr st)) (stat_of (hs_tables host) list_Read (D, EOF) hashName)) \<and>
    rollstat_main host sizeStr hashName input (''speed'' # args) =
      Some (if hs_flags host args \<in> {''roll'', ''batchroll'', ''chunk''} then Inr []
        else Inl (Ended (Fatal_interface (hs_flags host args)))) \<and>
    (\<forall>(any :: 'a host) e name inp as. hs_bytes any sizeStr = Inl e \<longrightarrow>
      rollstat_main any sizeStr name inp as = Some (Inl (Ended (Fatal e)))) \<and>
    (\<forall>(any :: 'a host) sz' name inp as. hs_bytes any sizeStr = Inr sz' \<and> name \<notin> set hashConstructors \<longrightarrow>
      rollstat_main any sizeStr name inp as = Some (Inl (Unknown_hash name))) \<and>
    (\<forall>(any :: 'a host) sz' inp. hs_bytes any sizeStr = Inr sz' \<longrightarrow>
      rollstat_main any sizeStr hashName inp [] = Some (Inl Usage)) \<and>
    (\<forall>(any :: 'a host) sz' inp cmd as. hs_bytes any sizeStr = Inr sz' \<and> cmd \<notin> {''speed'', ''stat'', ''all''} \<longrightarrow>
      rollstat_main any sizeStr hashName inp (cmd # as) = Some (Inl (Unknown_command cmd)))"
proof (intro conjI)
  obtain sts where "all_loop host input (sint sz) hashConstructors = Some (Inr sts)" "map fst sts = hashConstructors"
      "\<forall>(name, st) \<in> set sts. stats_agree D (Some (Inr st)) (stat_of (hs_tables host) list_Read (D, EOF) name)"
    using all_loop_ok [OF assms(2) order_refl] by blast
  moreover from this have "rollstat_main host sizeStr hashName input (''all'' # args) = Some (Inr sts)"
    using sort_hashConstructors [OF assms(3)] assms(1,4) by (simp add: rollstat_main_def cmdAll_def)
  ultimately show "\<exists>sts. rollstat_main host sizeStr hashName input (''all'' # args) = Some (Inr sts) \<and> map fst sts = hashConstructors \<and>
      (\<forall>(name, st) \<in> set sts. stats_agree D (Some (Inr st)) (stat_of (hs_tables host) list_Read (D, EOF) name))" by blast
  obtain st where "cmdStat_input host input (sint sz) hashName = Some (Inr st)"
      "stats_agree D (Some (Inr st)) (stat_of (hs_tables host) list_Read (D, EOF) hashName)"
    using cmdStat_input_ok [OF assms(2,4)] by (auto simp: stats_agree_def)
  then show "\<exists>st. rollstat_main host sizeStr hashName input (''stat'' # args) = Some (Inr [(hashName, st)]) \<and>
      stats_agree D (Some (Inr st)) (stat_of (hs_tables host) list_Read (D, EOF) hashName)"
    using assms(1,4) by (simp add: rollstat_main_def)
  show "rollstat_main host sizeStr hashName input (''speed'' # args) =
      Some (if hs_flags host args \<in> {''roll'', ''batchroll'', ''chunk''} then Inr []
        else Inl (Ended (Fatal_interface (hs_flags host args))))"
    using assms(1,4) cmdSpeed_input_ok [OF assms(2,4), of "hs_flags host args"] by (simp add: rollstat_main_def)
qed (use assms(4) in \<open>simp_all add: rollstat_main_def\<close>)

text \<open>A file of 57 bytes, and a goroutine that always moves first.\<close>

definition some_host :: "(byte list \<times> gerror) host" where
  "some_host = \<lparr>hs_tables = some_tables, hs_draw = (\<lambda>_. 0), hs_open = (\<lambda>_. Inr (replicate 57 7, EOF)), hs_read = list_Read,
     hs_close = None, hs_sched = (\<lambda>_. True), hs_bytes = (\<lambda>_. Inr 100), hs_flags = (\<lambda>_. ''roll''), hs_names = rev hashConstructors\<rparr>"

theorem rollstat_all_witness:
  "(\<exists>sts. rollstat_main some_host ''100'' ''bozo32'' ''file'' [''all''] = Some (Inr sts) \<and> map fst sts = hashConstructors \<and>
      (\<forall>(name, st, bits) \<in> set sts. st_total st = 2)) \<and>
    rollstat_main some_host ''100'' ''sha1'' ''file'' [''all''] = Some (Inl (Unknown_hash ''sha1''))"
proof -
  have ready: "host_ready some_host ''file'' (replicate 57 7) (sint (100 :: u64)) (replicate 57 7)"
    using some_tables_ready good_list [of "replicate 57 7"]
    by (simp add: host_ready_def some_host_def good_input_def source_bytes_def stat_window_def MaxInt_def)
  have host: "hs_bytes some_host ''100'' = Inr 100" "mset (hs_names some_host) = mset hashConstructors"
    by (simp_all add: some_host_def hashConstructors_def)
  have names: "''bozo32'' \<in> set hashConstructors" "''sha1'' \<notin> set hashConstructors"
    by (simp_all add: hashConstructors_def)
  note run = rollstat_all [OF host(1) ready host(2) names(1), where args = "[]"]
  show ?thesis
  proof
    show "\<exists>sts. rollstat_main some_host ''100'' ''bozo32'' ''file'' [''all''] = Some (Inr sts) \<and> map fst sts = hashConstructors \<and>
        (\<forall>(name, st, bits) \<in> set sts. st_total st = 2)"
      using conjunct1 [OF run] by (fastforce simp: stats_agree_def stat_window_def)
    show "rollstat_main some_host ''100'' ''sha1'' ''file'' [''all''] = Some (Inl (Unknown_hash ''sha1''))"
      using run [THEN conjunct2, THEN conjunct2, THEN conjunct2, THEN conjunct2, THEN conjunct1] host(1) names(2) by blast
  qed
qed

end
