(* ===== verification/Spec2Isabelle.thy ===== *)
theory Spec2Isabelle
  imports Bozo64 Buzhash32 Buzhash64 Gearhash64 Adler32 Rabin_Cache Pol_Text Client_Loops Batch_Bounds Rollstat_Main
begin

text \<open>
  Rolling hashes and content-defined chunking: github.com/chmduquesne/rollinghash, version 4, in Go.

  The program. Seven packages implement a rolling hash: a checksum of a window of bytes that \<open>Write\<close> fills
  and \<open>Roll\<close> slides by one byte. Each package also has two batch operations over a slice of data,
  \<open>BatchRoll\<close> (the checksum of every window) and \<open>BatchBoundaries\<close> (the positions where the checksum has no
  bit of a mask). The root package builds four streaming tools from them: \<open>Chunker\<close> and \<open>ChunkWriter\<close> cut a
  stream into content-defined chunks, reading it (pull) or being given it (push); \<open>BatchRoller\<close> and
  \<open>BatchWriter\<close> hand out all checksums of a stream, batch by batch. The command \<open>rollstat\<close> measures the
  hashes through all of these.

  How the source is read. Machine integers keep their width: \<open>uint32\<close>, \<open>uint64\<close>, \<open>int32\<close> and bytes are
  words; Go's \<open>int\<close> is \<open>int\<close>, with \<open>wrap_int\<close> where a parameter of the caller can push it over. A panic is
  \<open>None\<close>, and so is a loop that does not end (\<open>partial_function\<close>): a theorem that gives \<open>Some\<close> says that the
  code returns. No fuel is used. Errors are values of \<open>gerror\<close>. Slices are byte lists, with checked access
  and slicing (\<open>idx\<close>, \<open>upd\<close>, \<open>go_slice\<close>); a struct is a record with a prefix to its fields.

  The theories, from the bottom up.
  \<^item> \<open>Go_Prelude\<close>: machine types, checked access, windows of a list, the collection \<open>go_simps\<close>.
  \<^item> \<open>Go_Window\<close>: internal/window, the circular buffer of every digest. Rotation by three reversals is
    rotation, and a failing writer stops \<open>Write\<close>.
  \<^item> \<open>Lanes\<close>, \<open>Hit_Blocks\<close>: the loops that the batch operations share, two lanes side by side, and their variant
    that gathers hits of 32 positions in a word. They are proved to visit every window once, in order.
  \<^item> \<open>Rolling\<close>: the locale \<open>rolling_hash\<close>, one law (rolling is absorbing the slid window) from which the lane
    loops of a package are correct.
  \<^item> \<open>Hash_Iface\<close>: rollinghash.go, the method table of a hash (\<open>hash_iface\<close>), and the locale \<open>digest\<close>, what
    every package promises to the streaming code. \<open>run_ops\<close> runs any sequence of calls.
  \<^item> \<open>Bozo32\<close>, \<open>Bozo64\<close>, \<open>Buz_Law\<close>, \<open>Buzhash32\<close>, \<open>Buzhash64\<close>, \<open>Gearhash64\<close>, \<open>Adler32\<close>: the packages of the same names,
    each with an interpretation of \<open>rolling_hash\<close> on its arithmetic and of \<open>digest\<close> on its methods.
  \<^item> \<open>Gf2\<close>, \<open>Gf2_Irreducible\<close>: polynomials over the field of two elements as a Euclidean ring of the library,
    and the theorem behind the test of Ben-Or. \<open>Polynomials\<close>, \<open>Derive_Poly\<close>, \<open>Pol_Text\<close>:
    rabinkarp64/polynomials.go, its arithmetic, \<open>Irreducible\<close> (exact), the search for a polynomial, the texts.
  \<^item> \<open>Rabinkarp64\<close>: rabinkarp64/rabinkarp64.go, the digest with its tables; its state goes together with the
    global cache of tables. \<open>Rabin_Cache\<close>: \<open>tablesFor\<close> called by several goroutines, as a step relation.
  \<^item> \<open>Readers\<close>: \<open>io.Reader\<close> as a function of a state, the locale \<open>byte_source\<close> with the documented contract for
    a stream that ends, the loop that fills a buffer, the cycling reader of rollstat.
  \<^item> \<open>Chunk_Spec\<close>: content-defined chunking as a function of the whole stream (\<open>ref_chunks\<close>). \<open>Chunker_Core\<close>,
    \<open>Chunker_Inv\<close>, \<open>Chunker_Hash\<close>, \<open>Chunker_Next\<close>: \<open>chunkerCore\<close> of chunker.go, its invariant, and that \<open>next\<close>
    hands out the next chunk of the specification. \<open>Chunk_Writer\<close> (chunkwriter.go), \<open>Chunk_Reader\<close>
    (chunker.go, the pull side), \<open>Chunking\<close>: the two tools end to end.
  \<^item> \<open>Batch_Core\<close>, \<open>Batch_Writer\<close>, \<open>Batch_Reader\<close>, \<open>Batching\<close>, \<open>Batch_Bounds\<close>: the same for batchroller.go and
    batchwriter.go, and what the option \<open>WithBufferSize\<close> does for every value.
  \<^item> \<open>Client_Loops\<close>: the four streaming interfaces of rollinghash.go as tables of methods, and the loops that
    their comments show. Pushing and pulling the same stream give the same chunks and the same checksums.
  \<^item> \<open>Prefetch\<close>: the prefetching reader of rollstat/main.go. Its goroutine and its caller are the two sides of a
    step relation over the two channels and a shared memory with the two buffers; the locale \<open>block_source\<close>
    is what it needs of its reader. Safety is an invariant by rule induction, and that every call returns
    a measure on the steps. \<open>pf_go\<close> and \<open>pf_call_on\<close> compute the steps. \<open>Prefetch_Reader\<close>: a call run to its end
    under any scheduler is again an \<open>io.Reader\<close> that keeps the contract \<open>byte_source\<close>.
  \<^item> \<open>Data_Source\<close>, \<open>Source_Readers\<close>, \<open>Stat_Counts\<close>, \<open>Rollstat\<close>: random and limited readers, the data sources
    and what they deliver, the histograms, and the measurements over any hash. \<open>Rollstat_Hashes\<close>,
    \<open>Rollstat_Main\<close>: the measurements over all seven packages by name, the commands with the data source that
    each opens and closes, and \<open>main\<close>, over a record \<open>host\<close> of what is outside the program.

  What is shown. For every package: after any calls the sum is the checksum of the documented window, rolling
  an empty window panics, and the batch operations agree with it at every position (\<open>*_run\<close>, \<open>*_batch\<close>). For
  the streaming tools: whatever the sequence of calls, the cut of the stream by the reader or the writer, and
  the hash, the output is that of a specification over the whole stream, read errors, \<open>Reset\<close> and \<open>Close\<close>
  included. These theorems hold for every \<open>digest\<close> and every \<open>byte_source\<close>; the interpretations and
  \<open>Rollstat_Main\<close> put the concrete packages in. Parameters of the theorems are bounded where the code needs it:
  \<open>spec_ok\<close> and \<open>no_overflow\<close> for the chunkers (a batch holds a window, a batch plus a window fits \<open>int32\<close>, the
  minimum is not negative and the maximum positive, no offset overflows; options with a batch below the window
  are outside the theorems), a minimum of at least 1 on the push side (theorem \<open>ChunkWriter_min_zero_misses\<close>
  shows why), windows below \<open>2^32\<close> bytes for adler32, degrees 8 to 56 for rabinkarp64, where rolling is exact.
  \<open>Sum\<close> of a chunk is 0 when it ends before the first whole window of the stream, also for forced cuts in the
  middle of a stream (theorem \<open>Chunker_forced_cut_sum_zero\<close>).

  Parameters of the model: readers and writers, the words a random generator draws, the opening and closing of a
  file, the scheduler of the prefetching goroutine, and the parsing of flags and sizes. The standard library's
  adler32, \<open>bits.TrailingZeros\<close>, \<open>bits.RotateLeft\<close>, \<open>io.ReadFull\<close>, \<open>io.LimitReader\<close> and \<open>binary.Read\<close> are
  written out.

  Not modelled. Aliasing of the slices that are handed out: a chunk or a batch is modelled by its bytes at the
  moment \<open>Next\<close> returns, which is as long as the comments say it is valid; capacities of slices, and with them
  the reuse of allocations. In rollstat the times, rates and entropies, which are floating point and
  only printed, profiling, and the parsing of flags and sizes. A measurement reads its data through
  \<open>prefetch_Read\<close>, which runs each call to its end under a scheduler. No state comes back during a call, so
  every interleaving is that of some scheduler. Only a call after an error was reported can block (theorem
  \<open>prefetch_blocks_after_end\<close>); there \<open>prefetch_Read\<close> repeats the error. The loops of rollstat stop at the
  first one.
\<close>

end
